(* ===== verification/Prelude.thy ===== *)
theory Prelude
  imports Main "HOL-Library.Word" "HOL-Library.Sublist"
begin

text \<open>
  Shared vocabulary of the development: the machine types of the program (\<open>size_t\<close>,
  \<open>time_t\<close>, \<open>errno\<close> values), the C character classification the program calls, the
  searches of \<open>std::string\<close> (\<open>find\<close>, \<open>rfind\<close>, \<open>substr\<close>), the error sums, and the
  theorem collections the component theories add to.
\<close>

named_theorems stream_simps \<open>what the stream operations do to position and flags\<close>
named_theorems table_simps \<open>the tables of the HTTP constants\<close>
named_theorems inv_intros \<open>operations that keep a component's invariant\<close>

section \<open>Machine types\<close>

text \<open>\<open>size_t\<close> is 64 bits wide, unsigned and wraps. A byte of a buffer is a \<open>char\<close>.\<close>

type_synonym size_t = "64 word"

text \<open>Seconds since the epoch; the program only adds, subtracts and compares them.\<close>

type_synonym time_t = int

text \<open>A file descriptor; \<open>-1\<close> is the failure value of the system calls.\<close>

type_synonym fd = int

text \<open>\<open>(size_t) -1\<close>, the value the program uses for "no limit" and \<open>npos\<close>.\<close>

definition npos :: size_t where
  "npos = - 1"

lemma npos_max [simp]: "unat npos = 2 ^ 64 - 1"
  by (simp add: npos_def unsigned_minus_1_eq_mask mask_eq_exp_minus_1)

text \<open>The \<open>errno\<close> values the program distinguishes, and all the others.\<close>

datatype errno =
  E0 | EAGAIN | EWOULDBLOCK | EINTR | ENOENT | EACCES | EISDIR | EPERM | ENOMEM | ENOTSUP
| ESPIPE | ECONNABORTED | EPROTO | EOTHER nat

section \<open>Error sums\<close>

text \<open>Sequencing of computations that may throw: the first error wins.\<close>

fun bind_res :: "'e + 'a \<Rightarrow> ('a \<Rightarrow> 'e + 'b) \<Rightarrow> 'e + 'b" where
  "bind_res (Inl e) f = Inl e"
| "bind_res (Inr x) f = f x"

lemma bind_res_Inr: "bind_res r f = Inr y \<longleftrightarrow> (\<exists>x. r = Inr x \<and> f x = Inr y)"
  by (cases r) auto

lemma bind_res_Inl: "bind_res r f = Inl e \<longleftrightarrow> r = Inl e \<or> (\<exists>x. r = Inr x \<and> f x = Inl e)"
  by (cases r) auto

lemma bind_res_assoc: "bind_res (bind_res r f) g = bind_res r (\<lambda>x. bind_res (f x) g)"
  by (cases r) auto

lemma bind_res_split:
  "P (bind_res r f) \<longleftrightarrow> (\<forall>e. r = Inl e \<longrightarrow> P (Inl e)) \<and> (\<forall>x. r = Inr x \<longrightarrow> P (f x))"
  by (cases r) auto

lemma bind_res_cong [fundef_cong]:
  "r = r' \<Longrightarrow> (\<And>x. r' = Inr x \<Longrightarrow> f x = g x) \<Longrightarrow> bind_res r f = bind_res r' g"
  by (cases r') auto

text \<open>A fold that stops at the first error.\<close>

fun fold_res :: "('a \<Rightarrow> 's \<Rightarrow> 'e + 's) \<Rightarrow> 'a list \<Rightarrow> 's \<Rightarrow> 'e + 's" where
  "fold_res f [] s = Inr s"
| "fold_res f (x # xs) s = bind_res (f x s) (fold_res f xs)"

lemma fold_res_append:
  "fold_res f (xs @ ys) s = bind_res (fold_res f xs s) (fold_res f ys)"
proof (induction xs arbitrary: s)
  case Nil
  then show ?case by simp
next
  case (Cons x xs)
  then show ?case by (cases "f x s") simp_all
qed

lemma fold_res_invariant:
  assumes "fold_res f xs s = Inr t" and "P s"
    and "\<And>x s t. x \<in> set xs \<Longrightarrow> P s \<Longrightarrow> f x s = Inr t \<Longrightarrow> P t"
  shows "P t"
  using assms
proof (induction xs arbitrary: s)
  case Nil
  then show ?case by simp
next
  case (Cons x xs)
  from Cons.prems(1) obtain u where u: "f x s = Inr u" "fold_res f xs u = Inr t"
    by (auto simp: bind_res_Inr)
  have "P u" by (rule Cons.prems(3) [OF _ Cons.prems(2) u(1)]) simp
  with u(2) show ?case by (rule Cons.IH) (rule Cons.prems(3), auto)
qed

section \<open>Characters\<close>

abbreviation CR :: char where "CR \<equiv> CHR 0x0D"
abbreviation LF :: char where "LF \<equiv> CHR 0x0A"
abbreviation SP :: char where "SP \<equiv> CHR 0x20"
abbreviation NUL :: char where "NUL \<equiv> CHR 0x00"

text \<open>\<open>isspace\<close> in the C locale: space, \<open>\\t\<close>, \<open>\\n\<close>, \<open>\\v\<close>, \<open>\\f\<close>, \<open>\\r\<close>.\<close>

definition isspace :: "char \<Rightarrow> bool" where
  "isspace c \<longleftrightarrow> c = SP \<or> c = CHR 0x09 \<or> c = LF \<or> c = CHR 0x0B \<or> c = CHR 0x0C \<or> c = CR"

text \<open>The value of a decimal digit.\<close>

definition digit_val :: "char \<Rightarrow> nat option" where
  "digit_val c = (let n = (of_char c :: nat) in if 48 \<le> n \<and> n \<le> 57 then Some (n - 48) else None)"

text \<open>\<open>util.cpp\<close>: the case of the letters, in the C locale.\<close>

definition to_lower :: "char \<Rightarrow> char" where
  "to_lower c = (let n = of_char c :: nat in if 65 \<le> n \<and> n \<le> 90 then char_of (n + 32) else c)"

definition to_upper :: "char \<Rightarrow> char" where
  "to_upper c = (let n = of_char c :: nat in if 97 \<le> n \<and> n \<le> 122 then char_of (n - 32) else c)"

definition tolower :: "string \<Rightarrow> string" where
  "tolower s = map to_lower s"

definition toupper :: "string \<Rightarrow> string" where
  "toupper s = map to_upper s"

text \<open>Neither loses more than the case, which the other one sets.\<close>

lemma tolower_toupper: "tolower (toupper s) = tolower s" "toupper (tolower s) = toupper s"
  by (auto simp: tolower_def toupper_def to_lower_def to_upper_def Let_def)

text \<open>\<open>std::string::c_str()\<close> read as a C string: everything up to the first NUL.\<close>

definition c_string :: "string \<Rightarrow> string" where
  "c_string s = takeWhile (\<lambda>c. c \<noteq> NUL) s"

lemma c_string_id: "NUL \<notin> set s \<Longrightarrow> c_string s = s"
  by (auto simp: c_string_def takeWhile_eq_all_conv)

lemma length_c_string: "length (c_string s) \<le> length s"
  by (simp add: c_string_def length_takeWhile_le)

lemma c_string_append: "NUL \<notin> set s \<Longrightarrow> c_string (s @ t) = s @ c_string t"
  by (induction s) (auto simp: c_string_def)

section \<open>Searching strings\<close>

text \<open>\<open>text.find(pat)\<close>: the least position where the pattern occurs.\<close>

fun str_find :: "'a list \<Rightarrow> 'a list \<Rightarrow> nat option" where
  "str_find pat [] = (if pat = [] then Some 0 else None)"
| "str_find pat (c # cs) =
     (if prefix pat (c # cs) then Some 0 else map_option Suc (str_find pat cs))"

definition contains :: "'a list \<Rightarrow> 'a list \<Rightarrow> bool" where
  "contains pat str \<longleftrightarrow> str_find pat str \<noteq> None"

lemma str_find_Some:
  "str_find pat str = Some i \<Longrightarrow>
     i \<le> length str \<and> prefix pat (drop i str) \<and> (\<forall>j < i. \<not> prefix pat (drop j str))"
proof (induction pat str arbitrary: i rule: str_find.induct)
  case (1 pat)
  then show ?case by (simp split: if_splits)
next
  case (2 pat c cs)
  show ?case
  proof (cases "prefix pat (c # cs)")
    case True
    with 2 show ?thesis by simp
  next
    case False
    with 2 obtain k where k: "str_find pat cs = Some k" "i = Suc k" by auto
    with 2 False have "k \<le> length cs" "prefix pat (drop k cs)" "\<forall>j < k. \<not> prefix pat (drop j cs)"
      by auto
    with k False show ?thesis
      by (auto simp: less_Suc_eq_0_disj)
  qed
qed

lemma str_find_None_iff: "str_find pat str = None \<longleftrightarrow> \<not> sublist pat str"
  by (induction pat str rule: str_find.induct) (auto simp: sublist_Cons_right)

lemma contains_iff [code_unfold]: "contains pat str \<longleftrightarrow> sublist pat str"
  by (simp add: contains_def str_find_None_iff)

lemma contains_single: "contains [c] str \<longleftrightarrow> c \<in> set str"
  by (induction str) (auto simp: contains_iff sublist_Cons_right)

lemma str_find_single_Some:
  "str_find [c] str = Some i \<Longrightarrow>
     i < length str \<and> str ! i = c \<and> c \<notin> set (take i str)"
proof -
  assume a: "str_find [c] str = Some i"
  then have p: "prefix [c] (drop i str)" and n: "\<forall>j < i. \<not> prefix [c] (drop j str)"
    using str_find_Some by blast+
  from p have lt: "i < length str"
    by (metis drop_all leI list.distinct(1) prefix_Nil)
  moreover from p lt have "str ! i = c"
    by (simp add: Cons_nth_drop_Suc [symmetric])
  moreover have "c \<notin> set (take i str)"
  proof
    assume "c \<in> set (take i str)"
    then obtain j where "j < i" "j < length str" "str ! j = c"
      by (auto simp: in_set_conv_nth)
    then have "prefix [c] (drop j str)"
      by (simp add: Cons_nth_drop_Suc [symmetric])
    with n \<open>j < i\<close> show False by blast
  qed
  ultimately show ?thesis by simp
qed

text \<open>\<open>str.substr(pos, n)\<close> and \<open>str.substr(pos)\<close> for a position inside the text.\<close>

definition substr :: "nat \<Rightarrow> nat \<Rightarrow> 'a list \<Rightarrow> 'a list" where
  "substr pos n str = take n (drop pos str)"

definition substr_from :: "nat \<Rightarrow> 'a list \<Rightarrow> 'a list" where
  "substr_from pos str = drop pos str"

lemma take_drop_split:
  "i < length xs \<Longrightarrow> xs = take i xs @ xs ! i # drop (Suc i) xs"
  by (simp add: id_take_nth_drop)

section \<open>Tables\<close>

text \<open>The position of an element in an array, found by the linear scan of the source.\<close>

fun idx_of :: "'a \<Rightarrow> 'a list \<Rightarrow> nat option" where
  "idx_of x [] = None"
| "idx_of x (y # ys) = (if x = y then Some 0 else map_option Suc (idx_of x ys))"

lemma idx_of_Some: "idx_of x xs = Some i \<Longrightarrow> i < length xs \<and> xs ! i = x"
  by (induction xs arbitrary: i) (auto split: if_splits)

lemma idx_of_None_iff: "idx_of x xs = None \<longleftrightarrow> x \<notin> set xs"
  by (induction xs) auto

lemma idx_of_the: "x \<in> set xs \<Longrightarrow> the (idx_of x xs) < length xs \<and> xs ! the (idx_of x xs) = x"
  by (metis idx_of_None_iff idx_of_Some option.collapse)

lemma idx_of_nth: "distinct xs \<Longrightarrow> i < length xs \<Longrightarrow> idx_of (xs ! i) xs = Some i"
proof (induction xs arbitrary: i)
  case Nil
  then show ?case by simp
next
  case (Cons y ys)
  then show ?case by (cases i) (auto simp: nth_mem)
qed

section \<open>Lists\<close>

lemma takeWhile_no:
  "d \<notin> set xs \<Longrightarrow> takeWhile (\<lambda>c. c \<noteq> d) (xs @ d # ys) = xs"
  by (induction xs) auto

lemma takeWhile_all_ne: "d \<notin> set xs \<Longrightarrow> takeWhile (\<lambda>c. c \<noteq> d) xs = xs"
  by (induction xs) auto

lemma length_takeWhile_eq_iff:
  "length (takeWhile P xs) = length xs \<longleftrightarrow> (\<forall>x \<in> set xs. P x)"
  by (induction xs) auto

lemma append_split:
  "p @ z = w @ r \<Longrightarrow> length w \<le> length p \<Longrightarrow> \<exists>q. p = w @ q \<and> q @ z = r"
  by (auto simp: append_eq_append_conv2)

lemma drop_append_le: "n \<le> length xs \<Longrightarrow> drop n (xs @ ys) = drop n xs @ ys"
  by simp

text \<open>A sum over a list in which one element is replaced.\<close>

lemma sum_list_swap:
  fixes xs :: "'b :: comm_monoid_add list"
  shows "i < length xs \<Longrightarrow> sum_list (xs[i := y]) + xs ! i = sum_list xs + y"
proof (induction xs arbitrary: i)
  case (Cons x xs)
  then show ?case by (cases i) (auto simp: ac_simps)
qed simp

lemma sum_map_swap:
  fixes f :: "'c \<Rightarrow> 'b :: comm_monoid_add"
  shows "i < length ps \<Longrightarrow> sum_list (map f (ps[i := p])) + f (ps ! i) = sum_list (map f ps) + f p"
  using sum_list_swap [of i "map f ps" "f p"] by (simp add: map_update)

lemma sum_list_zeros [simp]: "sum_list (replicate n (0 :: 'b :: comm_monoid_add)) = 0"
  by (induction n) auto

end
