(* ===== verification/Streams.thy ===== *)
theory Streams
  imports Prelude
begin

text \<open>
  The part of \<open>std::stringstream\<close> the program uses, as libstdc++ defines it: a character
  sequence that only grows at its end, a read position, and the flags \<open>eofbit\<close> and
  \<open>failbit\<close>. (\<open>badbit\<close> is never set: no operation used here sets it on a string
  buffer.) Every unformatted operation starts with a sentry: on a stream that is not
  \<open>good\<close> it reads nothing and sets \<open>failbit\<close>. A formatted read that finds no number
  stores 0, as C++11 prescribes.

  The lemmas say what each operation does to the unread part of the buffer; the parsers
  reason with them and not with positions.
\<close>

section \<open>The stream state\<close>

record istr =
  sbuf :: string
  gpos :: nat
  eofb :: bool
  failb :: bool

definition str_new :: "string \<Rightarrow> istr" where
  "str_new b = \<lparr>sbuf = b, gpos = 0, eofb = False, failb = False\<rparr>"

definition unread :: "istr \<Rightarrow> string" where
  "unread s = drop (gpos s) (sbuf s)"

definition good :: "istr \<Rightarrow> bool" where
  "good s \<longleftrightarrow> \<not> eofb s \<and> \<not> failb s"

text \<open>The read position is inside the buffer: what every stream of the program keeps.\<close>

definition wf_istr :: "istr \<Rightarrow> bool" where
  "wf_istr s \<longleftrightarrow> gpos s \<le> length (sbuf s)"

section \<open>Operations\<close>

text \<open>\<open>s.str(b)\<close> replaces the contents and keeps the flags; \<open>s.clear()\<close> the converse.\<close>

definition str_set :: "string \<Rightarrow> istr \<Rightarrow> istr" where
  "str_set b s = s\<lparr>sbuf := b, gpos := 0\<rparr>"

definition str_clear :: "istr \<Rightarrow> istr" where
  "str_clear s = s\<lparr>eofb := False, failb := False\<rparr>"

text \<open>\<open>s << text\<close>: appends, unless the stream is in an error state.\<close>

definition str_put :: "string \<Rightarrow> istr \<Rightarrow> istr" where
  "str_put b s = (if good s then s\<lparr>sbuf := sbuf s @ b\<rparr> else s\<lparr>failb := True\<rparr>)"

text \<open>
  \<open>getline(s, line, d)\<close>. The string is only overwritten when the sentry succeeds; the
  delimiter is consumed but not stored; reaching the end sets \<open>eofbit\<close>, and extracting
  nothing at all sets \<open>failbit\<close>.
\<close>

definition getline :: "char \<Rightarrow> istr \<Rightarrow> string \<Rightarrow> string \<times> istr" where
  "getline d s old =
     (if \<not> good s then (old, s\<lparr>failb := True\<rparr>)
      else let rest = unread s; line = takeWhile (\<lambda>c. c \<noteq> d) rest in
        if length line = length rest
        then (line, s\<lparr>gpos := gpos s + length line, eofb := True, failb := (line = [])\<rparr>)
        else (line, s\<lparr>gpos := gpos s + length line + 1\<rparr>))"

text \<open>\<open>s.peek()\<close>: \<open>None\<close> is \<open>EOF\<close>.\<close>

definition peek :: "istr \<Rightarrow> char option \<times> istr" where
  "peek s =
     (if \<not> good s then (None, s\<lparr>failb := True\<rparr>)
      else case unread s of
        [] \<Rightarrow> (None, s\<lparr>eofb := True\<rparr>)
      | c # _ \<Rightarrow> (Some c, s))"

text \<open>\<open>s.ignore()\<close> drops one character, \<open>s.unget()\<close> steps back over it.\<close>

definition str_ignore :: "istr \<Rightarrow> istr" where
  "str_ignore s =
     (if \<not> good s then s\<lparr>failb := True\<rparr>
      else case unread s of
        [] \<Rightarrow> s\<lparr>eofb := True\<rparr>
      | _ # _ \<Rightarrow> s\<lparr>gpos := gpos s + 1\<rparr>)"

definition str_unget :: "istr \<Rightarrow> istr" where
  "str_unget s =
     (if \<not> good s then s\<lparr>failb := True\<rparr>
      else if gpos s = 0 then s\<lparr>failb := True\<rparr> else s\<lparr>gpos := gpos s - 1\<rparr>)"

text \<open>\<open>s.seekg(off, ios::cur)\<close>: a target outside the buffer sets \<open>failbit\<close>.\<close>

definition seek_cur :: "int \<Rightarrow> istr \<Rightarrow> istr" where
  "seek_cur off s =
     (if failb s then s
      else let p = int (gpos s) + off in
        if 0 \<le> p \<and> p \<le> int (length (sbuf s)) then s\<lparr>gpos := nat p\<rparr> else s\<lparr>failb := True\<rparr>)"

text \<open>\<open>s.read(buf, n)\<close>, with \<open>gcount()\<close> the length of the characters returned.\<close>

definition str_read :: "nat \<Rightarrow> istr \<Rightarrow> string \<times> istr" where
  "str_read n s =
     (if \<not> good s then ([], s\<lparr>failb := True\<rparr>)
      else let got = take n (unread s) in
        if length got < n
        then (got, s\<lparr>gpos := gpos s + length got, eofb := True, failb := True\<rparr>)
        else (got, s\<lparr>gpos := gpos s + length got\<rparr>))"

text \<open>
  \<open>s.get(buf, n, d)\<close>: at most \<open>n - 1\<close> characters, up to but not including \<open>d\<close>; the
  result is the C string left in the buffer.
\<close>

definition str_get :: "nat \<Rightarrow> char \<Rightarrow> istr \<Rightarrow> string \<times> istr" where
  "str_get n d s =
     (if \<not> good s then ([], s\<lparr>failb := True\<rparr>)
      else let rest = unread s; got = take (n - 1) (takeWhile (\<lambda>c. c \<noteq> d) rest) in
        (got, s\<lparr>gpos := gpos s + length got,
               eofb := (length got = length rest),
               failb := (got = [])\<rparr>))"

text \<open>The sentry of the formatted reads also skips white space.\<close>

definition skip_ws :: "istr \<Rightarrow> istr" where
  "skip_ws s =
     (let rest = unread s; k = length (takeWhile isspace rest) in
      if k = length rest then s\<lparr>gpos := gpos s + k, eofb := True, failb := True\<rparr>
      else s\<lparr>gpos := gpos s + k\<rparr>)"

text \<open>\<open>s >> word\<close>.\<close>

definition read_word :: "istr \<Rightarrow> string \<Rightarrow> string \<times> istr" where
  "read_word s old =
     (if \<not> good s then (old, s\<lparr>failb := True\<rparr>)
      else let s1 = skip_ws s in
        if \<not> good s1 then (old, s1)
        else let rest = unread s1; w = takeWhile (\<lambda>c. \<not> isspace c) rest in
          (w, s1\<lparr>gpos := gpos s1 + length w, eofb := (length w = length rest)\<rparr>))"

text \<open>
  The digits at the head of a text, as a number. \<open>s >> n\<close> reads an optional sign and the
  digits; a number too large for the type stores the largest value and sets \<open>failbit\<close>,
  and a negative unsigned number is stored modulo \<open>2 ^ 64\<close>.
\<close>

definition digits_of :: "string \<Rightarrow> string" where
  "digits_of r = takeWhile (\<lambda>c. digit_val c \<noteq> None) r"

definition nat_of_digits :: "string \<Rightarrow> nat" where
  "nat_of_digits ds = foldl (\<lambda>n c. 10 * n + the (digit_val c)) 0 ds"

definition sign_of :: "string \<Rightarrow> string" where
  "sign_of r = (case r of c # _ \<Rightarrow> (if c = CHR ''-'' \<or> c = CHR ''+'' then [c] else []) | [] \<Rightarrow> [])"

definition read_size :: "istr \<Rightarrow> size_t \<Rightarrow> size_t \<times> istr" where
  "read_size s old =
     (if \<not> good s then (old, s\<lparr>failb := True\<rparr>)
      else let s1 = skip_ws s in
        if \<not> good s1 then (old, s1)
        else let r = unread s1; sg = sign_of r; ds = digits_of (drop (length sg) r);
                 n = nat_of_digits ds; k = length sg + length ds;
                 s2 = s1\<lparr>gpos := gpos s1 + k, eofb := (k = length r)\<rparr> in
          if ds = [] then (0, s2\<lparr>failb := True\<rparr>)
          else if n \<ge> 2 ^ 64 then (npos, s2\<lparr>failb := True\<rparr>)
          else ((if sg = ''-'' then - of_nat n else of_nat n), s2))"

text \<open>\<open>s >> t\<close> for a \<open>time_t\<close>, a signed 64-bit number.\<close>

definition read_time :: "istr \<Rightarrow> time_t \<Rightarrow> time_t \<times> istr" where
  "read_time s old =
     (if \<not> good s then (old, s\<lparr>failb := True\<rparr>)
      else let s1 = skip_ws s in
        if \<not> good s1 then (old, s1)
        else let r = unread s1; sg = sign_of r; ds = digits_of (drop (length sg) r);
                 n = int (nat_of_digits ds); k = length sg + length ds;
                 v = (if sg = ''-'' then - n else n);
                 s2 = s1\<lparr>gpos := gpos s1 + k, eofb := (k = length r)\<rparr> in
          if ds = [] then (0, s2\<lparr>failb := True\<rparr>)
          else if v \<ge> 2 ^ 63 then (2 ^ 63 - 1, s2\<lparr>failb := True\<rparr>)
          else if v < - (2 ^ 63) then (- (2 ^ 63), s2\<lparr>failb := True\<rparr>)
          else (v, s2))"

section \<open>What the operations do\<close>

lemma str_new_simps [simp]:
  "sbuf (str_new b) = b" "gpos (str_new b) = 0" "\<not> eofb (str_new b)" "\<not> failb (str_new b)"
  "good (str_new b)" "wf_istr (str_new b)" "unread (str_new b) = b"
  by (simp_all add: str_new_def good_def wf_istr_def unread_def)

lemma good_clear [simp]: "good (str_clear s)" "wf_istr (str_clear s) = wf_istr s"
  "unread (str_clear s) = unread s" "sbuf (str_clear s) = sbuf s" "gpos (str_clear s) = gpos s"
  by (simp_all add: good_def str_clear_def wf_istr_def unread_def)

lemma gpos_update_simps [simp]:
  "good (s\<lparr>gpos := n\<rparr>) = good s"
  "str_clear (s\<lparr>gpos := n\<rparr>) = (str_clear s)\<lparr>gpos := n\<rparr>"
  "str_clear (str_clear s) = str_clear s"
  "str_clear (s\<lparr>eofb := e\<rparr>) = str_clear s" "str_clear (s\<lparr>failb := e\<rparr>) = str_clear s"
  by (simp_all add: good_def str_clear_def)

lemma str_clear_good: "good s \<Longrightarrow> str_clear s = s"
  by (cases s) (simp add: good_def str_clear_def)

lemma unread_put:
  "good s \<Longrightarrow> wf_istr s \<Longrightarrow> unread (str_put b s) = unread s @ b"
  by (simp add: str_put_def unread_def wf_istr_def)

lemma str_put_put: "good s \<Longrightarrow> str_put b (str_put a s) = str_put (a @ b) s"
  by (simp add: str_put_def good_def)

lemma str_put_gpos: "str_put b (s\<lparr>gpos := n\<rparr>) = (str_put b s)\<lparr>gpos := n\<rparr>"
  by (simp add: str_put_def good_def)

lemma str_put_Nil: "good s \<Longrightarrow> str_put [] s = s"
  by (simp add: str_put_def)

lemma gpos_put [simp]: "gpos (str_put b s) = gpos s"
  by (simp add: str_put_def)

lemma str_put_good [simp]: "good s \<Longrightarrow> good (str_put b s)"
  by (simp add: str_put_def good_def)

lemma wf_put [simp]: "wf_istr s \<Longrightarrow> wf_istr (str_put b s)"
  by (simp add: str_put_def wf_istr_def)

text \<open>Reading a line whose terminator is present: the stream stays good.\<close>

lemma getline_hit:
  assumes "good s" and "unread s = line @ d # rest" and "d \<notin> set line"
  shows "getline d s old = (line, s\<lparr>gpos := gpos s + length line + 1\<rparr>)"
  using assms by (simp add: getline_def takeWhile_no Let_def)

text \<open>Reading a line that has not been terminated yet: end of file.\<close>

lemma getline_miss:
  assumes "good s" and "d \<notin> set (unread s)"
  shows "getline d s old =
    (unread s, s\<lparr>gpos := gpos s + length (unread s), eofb := True, failb := (unread s = [])\<rparr>)"
  using assms by (simp add: getline_def takeWhile_all_ne Let_def)

lemma unread_advance:
  "unread s = pre @ rest \<Longrightarrow> unread (s\<lparr>gpos := gpos s + length pre\<rparr>) = rest"
  by (simp add: unread_def add.commute [of "gpos s"] flip: drop_drop)

lemma wf_advance:
  "wf_istr s \<Longrightarrow> unread s = pre @ rest \<Longrightarrow> wf_istr (s\<lparr>gpos := gpos s + length pre\<rparr>)"
proof -
  assume w: "wf_istr s" and u: "unread s = pre @ rest"
  have "length (unread s) = length (sbuf s) - gpos s" by (simp add: unread_def)
  with u w show ?thesis by (simp add: wf_istr_def)
qed

lemma getline_wf: "wf_istr s \<Longrightarrow> getline d s old = (l, t) \<Longrightarrow> wf_istr t"
proof -
  assume w: "wf_istr s" and g: "getline d s old = (l, t)"
  let ?l = "takeWhile (\<lambda>c. c \<noteq> d) (unread s)"
  have "length ?l \<le> length (unread s)" by (rule length_takeWhile_le)
  moreover have "length (unread s) = length (sbuf s) - gpos s" by (simp add: unread_def)
  ultimately show ?thesis
    using w g by (auto simp: getline_def wf_istr_def Let_def split: if_splits)
qed

lemma peek_wf: "wf_istr s \<Longrightarrow> wf_istr (snd (peek s))"
  by (auto simp: peek_def wf_istr_def split: list.splits)

lemma ignore_wf: "wf_istr s \<Longrightarrow> wf_istr (str_ignore s)"
  by (auto simp: str_ignore_def wf_istr_def unread_def split: list.splits)
    (metis drop_eq_Nil2 list.distinct(1) not_less_eq_eq)

lemma seek_wf: "wf_istr s \<Longrightarrow> wf_istr (seek_cur off s)"
  by (auto simp: seek_cur_def wf_istr_def Let_def nat_le_iff)

lemma peek_Cons: "good s \<Longrightarrow> unread s = c # r \<Longrightarrow> peek s = (Some c, s)"
  by (simp add: peek_def)

lemma peek_Nil: "good s \<Longrightarrow> unread s = [] \<Longrightarrow> peek s = (None, s\<lparr>eofb := True\<rparr>)"
  by (simp add: peek_def)

lemma ignore_Cons:
  "good s \<Longrightarrow> unread s = c # r \<Longrightarrow> str_ignore s = s\<lparr>gpos := gpos s + 1\<rparr>"
  by (simp add: str_ignore_def)

text \<open>\<open>ignore\<close> followed by \<open>unget\<close> gives back the stream: the test for pipelined input.\<close>

lemma ignore_unget:
  assumes "good s" and "unread s \<noteq> []"
  shows "str_unget (str_ignore s) = s"
  using assms by (cases "unread s") (auto simp: str_ignore_def str_unget_def good_def)

lemma read_word_hit:
  assumes "good s" and "unread s = ws @ w @ rest" and "\<forall>c \<in> set ws. isspace c"
    and "w \<noteq> []" and "\<forall>c \<in> set w. \<not> isspace c" and "rest = [] \<or> isspace (hd rest)"
  shows "read_word s old =
    (w, s\<lparr>gpos := gpos s + length ws + length w, eofb := (rest = [])\<rparr>)"
proof -
  obtain c w' where w: "w = c # w'" "\<not> isspace c" using assms(4,5) by (cases w) auto
  have k: "takeWhile isspace (ws @ c # w' @ rest) = ws"
    using assms(3) w(2) by (simp add: takeWhile_append2)
  let ?s1 = "s\<lparr>gpos := gpos s + length ws\<rparr>"
  have s1: "skip_ws s = ?s1"
    using assms(2) w(1) by (simp add: skip_ws_def k Let_def)
  have u: "unread ?s1 = w @ rest"
    using assms(2) by (intro unread_advance)
  have t: "takeWhile (\<lambda>c. \<not> isspace c) (w @ rest) = w"
    using assms(5,6) by (cases rest) (auto simp: takeWhile_append2)
  have g: "good ?s1" using assms(1) by (simp add: good_def)
  show ?thesis
    using assms(1) g by (simp add: read_word_def s1 u t Let_def)
qed

text \<open>A word read is never longer than the unread text and holds no white space.\<close>

lemma read_word_no_space:
  "read_word s old = (w, t) \<Longrightarrow> good s \<Longrightarrow> w \<noteq> old \<Longrightarrow> \<forall>c \<in> set w. \<not> isspace c"
  by (auto simp: read_word_def Let_def dest: set_takeWhileD split: if_splits)

lemma digits_of_append:
  "\<forall>c \<in> set ds. digit_val c \<noteq> None \<Longrightarrow> rest = [] \<or> digit_val (hd rest) = None \<Longrightarrow>
     digits_of (ds @ rest) = ds"
  by (cases rest) (auto simp: digits_of_def takeWhile_append2)

section \<open>Printing numbers\<close>

text \<open>\<open>o << n\<close> for an unsigned number: its decimal digits, no padding.\<close>

fun show_nat :: "nat \<Rightarrow> string" where
  "show_nat n = (if n < 10 then [char_of (48 + n)] else show_nat (n div 10) @ [char_of (48 + n mod 10)])"

declare show_nat.simps [simp del]

lemma digit_val_char_of: "n < 10 \<Longrightarrow> digit_val (char_of (48 + n)) = Some n"
  by (simp add: digit_val_def)

lemma show_nat_digits: "\<forall>c \<in> set (show_nat n). digit_val c \<noteq> None"
proof (induction n rule: show_nat.induct)
  case (1 n)
  show ?case
  proof (cases "n < 10")
    case True
    then show ?thesis by (subst show_nat.simps) (simp add: digit_val_char_of)
  next
    case False
    with 1 show ?thesis by (subst show_nat.simps) (auto simp: digit_val_char_of)
  qed
qed

lemma show_nat_ne [simp]: "show_nat n \<noteq> []"
  by (subst show_nat.simps) simp

lemma nat_of_digits_snoc:
  "nat_of_digits (ds @ [c]) = 10 * nat_of_digits ds + the (digit_val c)"
  by (simp add: nat_of_digits_def)

text \<open>Printing and reading a number are inverse.\<close>

lemma nat_of_digits_show: "nat_of_digits (show_nat n) = n"
proof (induction n rule: show_nat.induct)
  case (1 n)
  show ?case
  proof (cases "n < 10")
    case True
    then show ?thesis
      by (subst show_nat.simps) (simp add: nat_of_digits_def digit_val_char_of)
  next
    case False
    with 1 show ?thesis
      by (subst show_nat.simps) (simp add: nat_of_digits_snoc digit_val_char_of)
  qed
qed

lemma digit_not_space: "digit_val c \<noteq> None \<Longrightarrow> \<not> isspace c"
  by (auto simp: digit_val_def isspace_def Let_def)

lemma digit_not_sign: "digit_val c \<noteq> None \<Longrightarrow> c \<noteq> CHR ''-'' \<and> c \<noteq> CHR ''+''"
  by (auto simp: digit_val_def Let_def)

lemma skip_ws_hit:
  assumes "unread s = ws @ c # rest" and "\<forall>c \<in> set ws. isspace c" and "\<not> isspace c"
  shows "skip_ws s = s\<lparr>gpos := gpos s + length ws\<rparr>"
proof -
  have "takeWhile isspace (ws @ c # rest) = ws"
    using assms(2,3) by (simp add: takeWhile_append2)
  then show ?thesis using assms(1) by (simp add: skip_ws_def Let_def)
qed

lemma read_size_show:
  assumes g: "good s" and u: "unread s = ws @ show_nat n @ rest"
    and ws: "\<forall>c \<in> set ws. isspace c" and n: "n < 2 ^ 64"
    and r: "rest = [] \<or> digit_val (hd rest) = None"
  shows "fst (read_size s old) = of_nat n"
proof -
  obtain c ds where cd: "show_nat n = c # ds" by (cases "show_nat n") auto
  then have c: "digit_val c \<noteq> None" using show_nat_digits [of n] by simp
  let ?s1 = "s\<lparr>gpos := gpos s + length ws\<rparr>"
  have s1: "skip_ws s = ?s1"
    using u cd ws digit_not_space [OF c]
    by (intro skip_ws_hit [where rest = "ds @ rest" and c = c]) auto
  have u1: "unread ?s1 = show_nat n @ rest"
    using u by (rule unread_advance)
  have sg: "sign_of (show_nat n @ rest) = []"
    using cd digit_not_sign [OF c] by (simp add: sign_of_def)
  have ds: "digits_of (show_nat n @ rest) = show_nat n"
    using show_nat_digits r by (rule digits_of_append)
  have g1: "good ?s1" using g by (simp add: good_def)
  show ?thesis
    using g g1 n by (simp add: read_size_def s1 u1 sg ds nat_of_digits_show Let_def)
qed

end
