(* ===== verification/HTTP_constants.thy ===== *)
theory HTTP_constants
  imports Streams
begin

text \<open>
  \<open>HTTP_constants.hpp\<close>, \<open>HTTP_constants.cpp\<close>, \<open>HTTP_oops.hpp\<close> and \<open>ServerErrs.hpp\<close>: the
  enumerations of the HTTP standard with the parallel arrays the preprocessor builds from
  \<open>data/HTTP_*.def\<close>, the stream operators that print and parse them, and the exceptions
  of the program. An enumerator is a constructor; its integer value is its position in
  the array, so \<open>static_cast\<close> in either direction is a table look-up.
\<close>

section \<open>The enumerations\<close>

datatype status =
    Continue | Switching_Protocols | OK | Created | Accepted | Non_Authoritative_Information |
    No_Content | Reset_Content | Partial_Content | Multiple_Choices | Moved_Permanently |
    Found | See_Other | Not_Modified | Use_Proxy | Temporary_Redirect | Bad_Request |
    Unauthorized | Payment_Required | Forbidden | Not_Found | Method_Not_Allowed |
    Not_Acceptable | Proxy_Authentication_Required | Request_Time_Out | Conflict | Gone |
    Length_Required | Precondition_Failed | Request_Entity_Too_Large | Request_URI_Too_Long |
    Unsupported_Media_Type | Requested_Range_Not_Satisfiable | Expectation_Failed |
    Internal_Server_Error | Not_Implemented | Bad_Gateway | Service_Unavailable |
    Gateway_Timeout | HTTP_Version_Not_Supported

datatype http_method =
    CONNECT | DELETE | GET | HEAD | OPTIONS | POST | PUT | TRACE

datatype header =
    Accept | Accept_Charset | Accept_Encoding | Accept_Language | Accept_Ranges | Age | Allow |
    Authorization | Cache_Control | Connection | Content_Encoding | Content_Language |
    Content_Length | Content_Location | Content_MD5 | Content_Range | Content_Type | Date |
    ETag | Expect | Expires | From | Host | If_Match | If_Modified_Since | If_None_Match |
    If_Range | If_Unmodified_Since | Last_Modified | Location | Max_Forwards | Pragma |
    Proxy_Authenticate | Proxy_Authorization | Range | Referer | Retry_After | Server | TE |
    Trailer | Transfer_Encoding | Upgrade | User_Agent | Vary | Via | Warning |
    WWW_Authenticate

datatype content_coding =
    compress | deflate | gzip | identity

section \<open>Exceptions\<close>

text \<open>
  What a call may end in instead of returning: an \<open>HTTP_oops\<close>, a \<open>SocketErr\<close> or
  \<open>ResourceErr\<close> with its \<open>errno\<close>, \<open>exit(n)\<close>, or undefined behaviour (a read or write
  outside an object), after which nothing is known.
\<close>

datatype exc = HTTP_oops status | SocketErr string errno | ResourceErr string errno | Exit nat | UB

section \<open>The arrays\<close>

definition HTTP_Version :: string where
  "HTTP_Version = ''HTTP/1.1''"

definition CRLF :: string where
  "CRLF = [CR, LF]"

definition all_status :: "status list" where
  "all_status = [
    Continue, Switching_Protocols, OK, Created, Accepted, Non_Authoritative_Information,
    No_Content, Reset_Content, Partial_Content, Multiple_Choices, Moved_Permanently, Found,
    See_Other, Not_Modified, Use_Proxy, Temporary_Redirect, Bad_Request, Unauthorized,
    Payment_Required, Forbidden, Not_Found, Method_Not_Allowed, Not_Acceptable,
    Proxy_Authentication_Required, Request_Time_Out, Conflict, Gone, Length_Required,
    Precondition_Failed, Request_Entity_Too_Large, Request_URI_Too_Long,
    Unsupported_Media_Type, Requested_Range_Not_Satisfiable, Expectation_Failed,
    Internal_Server_Error, Not_Implemented, Bad_Gateway, Service_Unavailable, Gateway_Timeout,
    HTTP_Version_Not_Supported]"

definition status_vals :: "nat list" where
  "status_vals = [
    100, 101, 200, 201, 202, 203, 204, 205, 206, 300, 301, 302, 303, 304, 305, 307, 400, 401,
    402, 403, 404, 405, 406, 407, 408, 409, 410, 411, 412, 413, 414, 415, 416, 417, 500, 501,
    502, 503, 504, 505]"

definition status_strs :: "string list" where
  "status_strs = [
    ''Continue'', ''Switching_Protocols'', ''OK'', ''Created'', ''Accepted'',
    ''Non_Authoritative_Information'', ''No_Content'', ''Reset_Content'', ''Partial_Content'',
    ''Multiple_Choices'', ''Moved_Permanently'', ''Found'', ''See_Other'', ''Not_Modified'',
    ''Use_Proxy'', ''Temporary_Redirect'', ''Bad_Request'', ''Unauthorized'',
    ''Payment_Required'', ''Forbidden'', ''Not_Found'', ''Method_Not_Allowed'',
    ''Not_Acceptable'', ''Proxy_Authentication_Required'', ''Request_Time_Out'', ''Conflict'',
    ''Gone'', ''Length_Required'', ''Precondition_Failed'', ''Request_Entity_Too_Large'',
    ''Request_URI_Too_Long'', ''Unsupported_Media_Type'', ''Requested_Range_Not_Satisfiable'',
    ''Expectation_Failed'', ''Internal_Server_Error'', ''Not_Implemented'', ''Bad_Gateway'',
    ''Service_Unavailable'', ''Gateway_Timeout'', ''HTTP_Version_Not_Supported'']"

definition all_method :: "http_method list" where
  "all_method = [
    CONNECT, DELETE, GET, HEAD, OPTIONS, POST, PUT, TRACE]"

definition method_strs :: "string list" where
  "method_strs = [
    ''CONNECT'', ''DELETE'', ''GET'', ''HEAD'', ''OPTIONS'', ''POST'', ''PUT'', ''TRACE'']"

definition all_header :: "header list" where
  "all_header = [
    Accept, Accept_Charset, Accept_Encoding, Accept_Language, Accept_Ranges, Age, Allow,
    Authorization, Cache_Control, Connection, Content_Encoding, Content_Language,
    Content_Length, Content_Location, Content_MD5, Content_Range, Content_Type, Date, ETag,
    Expect, Expires, From, Host, If_Match, If_Modified_Since, If_None_Match, If_Range,
    If_Unmodified_Since, Last_Modified, Location, Max_Forwards, Pragma, Proxy_Authenticate,
    Proxy_Authorization, Range, Referer, Retry_After, Server, TE, Trailer, Transfer_Encoding,
    Upgrade, User_Agent, Vary, Via, Warning, WWW_Authenticate]"

definition header_strs :: "string list" where
  "header_strs = [
    ''Accept'', ''Accept_Charset'', ''Accept_Encoding'', ''Accept_Language'',
    ''Accept_Ranges'', ''Age'', ''Allow'', ''Authorization'', ''Cache_Control'',
    ''Connection'', ''Content_Encoding'', ''Content_Language'', ''Content_Length'',
    ''Content_Location'', ''Content_MD5'', ''Content_Range'', ''Content_Type'', ''Date'',
    ''ETag'', ''Expect'', ''Expires'', ''From'', ''Host'', ''If_Match'', ''If_Modified_Since'',
    ''If_None_Match'', ''If_Range'', ''If_Unmodified_Since'', ''Last_Modified'', ''Location'',
    ''Max_Forwards'', ''Pragma'', ''Proxy_Authenticate'', ''Proxy_Authorization'', ''Range'',
    ''Referer'', ''Retry_After'', ''Server'', ''TE'', ''Trailer'', ''Transfer_Encoding'',
    ''Upgrade'', ''User_Agent'', ''Vary'', ''Via'', ''Warning'', ''WWW_Authenticate'']"

definition all_content_coding :: "content_coding list" where
  "all_content_coding = [
    compress, deflate, gzip, identity]"

definition content_coding_strs :: "string list" where
  "content_coding_strs = [
    ''compress'', ''deflate'', ''gzip'', ''identity'']"

definition num_header :: nat where
  "num_header = length all_header"

definition num_method :: nat where
  "num_method = length all_method"

text \<open>The slot of the request line, after those of the headers.\<close>

definition reqln :: nat where
  "reqln = num_header"

text \<open>\<open>static_cast<int>(h)\<close> for an enumerator.\<close>

definition status_int :: "status \<Rightarrow> nat" where
  "status_int s = the (idx_of s all_status)"

definition method_int :: "http_method \<Rightarrow> nat" where
  "method_int m = the (idx_of m all_method)"

definition header_int :: "header \<Rightarrow> nat" where
  "header_int h = the (idx_of h all_header)"

definition content_coding_int :: "content_coding \<Rightarrow> nat" where
  "content_coding_int c = the (idx_of c all_content_coding)"

definition content_coding_str :: "content_coding \<Rightarrow> string" where
  "content_coding_str c = content_coding_strs ! content_coding_int c"

section \<open>The stream operators\<close>

definition status_put :: "status \<Rightarrow> string" where
  "status_put s = show_nat (status_vals ! status_int s) @ '' '' @
     map (\<lambda>c. if c = CHR ''_'' then CHR '' '' else c) (status_strs ! status_int s)"

definition method_get :: "istr \<Rightarrow> exc + (http_method \<times> istr)" where
  "method_get i =
     (let (tmp, i') = read_word i [] in
      case idx_of tmp method_strs of
        Some j \<Rightarrow> Inr (all_method ! j, i')
      | None \<Rightarrow> Inl (HTTP_oops Bad_Request))"

definition method_put :: "http_method \<Rightarrow> string" where
  "method_put m = method_strs ! method_int m"

text \<open>
  The white space around a header name is removed with two index loops. On a name with
  no other character the second loop runs below the string (\<open>tmp[npos]\<close>), which is
  undefined.
\<close>

definition trim_name :: "string \<Rightarrow> exc + string" where
  "trim_name tmp =
     (if list_all isspace tmp then Inl UB
      else Inr (rev (dropWhile isspace (rev (dropWhile isspace tmp)))))"

definition underscores :: "string \<Rightarrow> string" where
  "underscores tmp = map (\<lambda>c. if c = CHR ''-'' then CHR ''_'' else c) tmp"

definition header_get :: "istr \<Rightarrow> exc + (header \<times> istr)" where
  "header_get i =
     (let (tmp, i1) = getline (CHR '':'') (str_clear i) [] in
      if \<not> good i1 then Inl (HTTP_oops Bad_Request)
      else bind_res (trim_name (underscores tmp)) (\<lambda>nm.
        case idx_of nm header_strs of
          Some j \<Rightarrow> Inr (all_header ! j, str_clear i1)
        | None \<Rightarrow> Inl (HTTP_oops Bad_Request)))"

definition header_put :: "header \<Rightarrow> string" where
  "header_put h =
     map (\<lambda>c. if c = CHR ''_'' then CHR ''-'' else c) (header_strs ! header_int h) @ '': ''"

definition content_coding_put :: "content_coding \<Rightarrow> string" where
  "content_coding_put c = content_coding_str c"

section \<open>The tables agree\<close>

lemma lengths [table_simps]:
  "length all_status = 40" "length status_vals = 40" "length status_strs = 40"
  "length all_method = 8" "length method_strs = 8"
  "length all_header = 47" "length header_strs = 47"
  "length all_content_coding = 4" "length content_coding_strs = 4"
  "num_header = 47" "reqln = 47" "num_method = 8"
  by (simp_all add: all_status_def status_vals_def status_strs_def all_method_def
      method_strs_def all_header_def header_strs_def all_content_coding_def
      content_coding_strs_def num_header_def reqln_def num_method_def)

lemma all_status_UNIV: "s \<in> set all_status"
  by (cases s) (simp_all add: all_status_def)

lemma all_method_UNIV: "m \<in> set all_method"
  by (cases m) (simp_all add: all_method_def)

lemma all_header_UNIV: "h \<in> set all_header"
  by (cases h) (simp_all add: all_header_def)

lemma all_content_coding_UNIV: "c \<in> set all_content_coding"
  by (cases c) (simp_all add: all_content_coding_def)

lemma distinct_tables:
  "distinct header_strs" "distinct method_strs" "distinct status_vals"
  by (simp_all add: header_strs_def method_strs_def status_vals_def)

lemma status_int_inv: "all_status ! status_int s = s" "status_int s < 40"
  using idx_of_the [OF all_status_UNIV, of s] by (simp_all add: status_int_def table_simps)

lemma method_int_inv: "all_method ! method_int m = m" "method_int m < 8"
  using idx_of_the [OF all_method_UNIV, of m] by (simp_all add: method_int_def table_simps)

lemma header_int_inv: "all_header ! header_int h = h" "header_int h < 47"
  using idx_of_the [OF all_header_UNIV, of h] by (simp_all add: header_int_def table_simps)

lemma content_coding_int_inv:
  "all_content_coding ! content_coding_int c = c" "content_coding_int c < 4"
  using idx_of_the [OF all_content_coding_UNIV, of c]
  by (simp_all add: content_coding_int_def table_simps)

lemma header_int_inj: "header_int h = header_int k \<longleftrightarrow> h = k"
  by (metis header_int_inv(1))

text \<open>The headers in the order of their values, which is how the vector of headers holds them.\<close>

instantiation header :: linorder
begin

definition less_eq_header :: "header \<Rightarrow> header \<Rightarrow> bool" where
  "less_eq_header h k \<longleftrightarrow> header_int h \<le> header_int k"

definition less_header :: "header \<Rightarrow> header \<Rightarrow> bool" where
  "less_header h k \<longleftrightarrow> header_int h < header_int k"

instance
  by standard (auto simp: less_eq_header_def less_header_def header_int_inj)

end

text \<open>Looking a name of a table up gives the enumerator it belongs to.\<close>

lemma header_lookup: "idx_of (header_strs ! header_int h) header_strs = Some (header_int h)"
  by (rule idx_of_nth [OF distinct_tables(1)]) (simp add: table_simps header_int_inv)

lemma method_lookup: "idx_of (method_strs ! method_int m) method_strs = Some (method_int m)"
  by (rule idx_of_nth [OF distinct_tables(2)]) (simp add: table_simps method_int_inv)

text \<open>
  The names of the headers are made of letters, digits and underscores only; they start
  and end with a character that is not white space.
\<close>

lemma header_strs_chars:
  "\<forall>nm \<in> set header_strs. nm \<noteq> [] \<and>
     (\<forall>c \<in> set nm. c \<noteq> CHR '':'' \<and> c \<noteq> CHR ''-'' \<and> c \<noteq> CR \<and> c \<noteq> LF \<and> \<not> isspace c)"
  by (simp add: header_strs_def isspace_def)

lemma method_strs_chars: "\<forall>nm \<in> set method_strs. nm \<noteq> [] \<and> (\<forall>c \<in> set nm. \<not> isspace c)"
  by (simp add: method_strs_def isspace_def)

section \<open>Printing and parsing are inverse\<close>

lemma dropWhile_id: "xs \<noteq> [] \<Longrightarrow> \<not> P (hd xs) \<Longrightarrow> dropWhile P xs = xs"
  by (cases xs) auto

lemma trim_name_id:
  assumes "nm \<noteq> []" and "\<forall>c \<in> set nm. \<not> isspace c"
  shows "trim_name nm = Inr nm"
proof -
  have "dropWhile isspace nm = nm" "dropWhile isspace (rev nm) = rev nm"
    using assms by (simp_all add: dropWhile_id hd_rev)
  moreover have "\<not> list_all isspace nm"
    using assms by (auto simp: list_all_iff neq_Nil_conv)
  ultimately show ?thesis by (simp add: trim_name_def)
qed

lemma trim_name_spaces:
  assumes "nm \<noteq> []" and "\<forall>c \<in> set nm. \<not> isspace c"
    and "\<forall>c \<in> set pre. isspace c" and "\<forall>c \<in> set post. isspace c"
  shows "trim_name (pre @ nm @ post) = Inr nm"
proof -
  obtain c nm' where c: "nm = c # nm'" "\<not> isspace c" using assms(1,2) by (cases nm) auto
  obtain d nm'' where d: "rev nm = d # nm''" "\<not> isspace d"
    using assms(1,2) by (cases nm rule: rev_cases) auto
  have 1: "dropWhile isspace (pre @ nm @ post) = nm @ post"
    using assms(3) c by (simp add: dropWhile_append2)
  have 2: "dropWhile isspace (rev post @ rev nm) = rev nm"
    using assms(4) d by (subst dropWhile_append2) auto
  have "\<not> list_all isspace (pre @ nm @ post)" using c by (simp add: list_all_iff)
  then show ?thesis using 1 2 by (simp add: trim_name_def)
qed

lemma header_get_named:
  assumes "unread i = tmp @ CHR '':'' # rest" and "CHR '':'' \<notin> set tmp"
    and "trim_name (underscores tmp) = Inr nm"
  shows "header_get i =
    (case idx_of nm header_strs of
       Some j \<Rightarrow> Inr (all_header ! j, (str_clear i)\<lparr>gpos := gpos i + length tmp + 1\<rparr>)
     | None \<Rightarrow> Inl (HTTP_oops Bad_Request))"
proof -
  have "getline (CHR '':'') (str_clear i) [] =
      (tmp, (str_clear i)\<lparr>gpos := gpos i + length tmp + 1\<rparr>)"
    using assms(1,2) by (simp add: getline_hit [where rest = rest])
  then show ?thesis
    using assms(3) by (simp add: header_get_def split: option.split)
qed

lemma header_get_print:
  assumes "unread i = pre @ butlast (butlast (header_put h)) @ post @ CHR '':'' # rest"
    and "\<forall>c \<in> set pre. isspace c" and "\<forall>c \<in> set post. isspace c"
  shows "\<exists>i'. header_get i = Inr (h, i') \<and> unread i' = rest \<and> good i'"
proof -
  let ?nm = "header_strs ! header_int h"
  let ?pr = "map (\<lambda>c. if c = CHR ''_'' then CHR ''-'' else c) ?nm"
  have mem: "?nm \<in> set header_strs" by (simp add: table_simps header_int_inv)
  then have ch: "?nm \<noteq> []" "\<forall>c \<in> set ?nm. c \<noteq> CHR '':'' \<and> c \<noteq> CHR ''-'' \<and> \<not> isspace c"
    using header_strs_chars by blast+
  have pr: "butlast (butlast (header_put h)) = ?pr"
    by (simp add: header_put_def butlast_append)
  have sp: "c \<noteq> CHR '':'' \<and> c \<noteq> CHR ''-''" if "isspace c" for c
    using that by (auto simp: isspace_def)
  have us: "underscores (pre @ ?pr @ post) = pre @ ?nm @ post"
  proof -
    have "underscores pre = pre" "underscores post = post"
      using assms(2,3) sp by (auto simp: underscores_def map_idI)
    moreover have "underscores ?pr = ?nm"
      using ch(2) by (auto simp: underscores_def map_idI o_def)
    ultimately show ?thesis by (simp add: underscores_def)
  qed
  have tr: "trim_name (underscores (pre @ ?pr @ post)) = Inr ?nm"
    using ch assms(2,3) by (simp add: us trim_name_spaces)
  have nc: "CHR '':'' \<notin> set (pre @ ?pr @ post)"
    using ch(2) assms(2,3) sp by (auto split: if_splits)
  have u: "unread i = (pre @ ?pr @ post) @ CHR '':'' # rest"
    using assms(1) pr by simp
  let ?i = "(str_clear i)\<lparr>gpos := gpos i + length (pre @ ?pr @ post) + 1\<rparr>"
  have "header_get i = Inr (h, ?i)"
    using header_get_named [OF u nc tr] header_lookup [of h] by (simp add: header_int_inv)
  moreover have "unread ?i = rest"
    using unread_advance [of i "(pre @ ?pr @ post) @ [CHR '':'']" rest] u
    by (simp add: unread_def str_clear_def)
  ultimately show ?thesis by (auto simp: good_def str_clear_def)
qed

end
