(* ===== verification/HTTP_parsing.thy ===== *)
theory HTTP_parsing
  imports HTTP_constants
begin

text \<open>
  \<open>HTTP_parsing.cpp\<close> and \<open>HTTP_typedefs.hpp\<close>: the structured headers (one slot per header
  and one for the request line), the parser that fills them from the input buffer and may
  stop for more input, and the printer.
\<close>

section \<open>The structured headers\<close>

type_synonym structured_hdrs = "string list"

definition empty_hdrs :: structured_hdrs where
  "empty_hdrs = replicate (1 + num_header) []"

definition wf_hdrs :: "structured_hdrs \<Rightarrow> bool" where
  "wf_hdrs hdrs \<longleftrightarrow> length hdrs = 1 + num_header"

text \<open>\<open>hdrs[i] = line\<close> and \<open>hdrs[i]\<close>: undefined outside the vector.\<close>

definition hdrs_set :: "structured_hdrs \<Rightarrow> nat \<Rightarrow> string \<Rightarrow> exc + structured_hdrs" where
  "hdrs_set hdrs i line = (if i < length hdrs then Inr (hdrs[i := line]) else Inl UB)"

definition hdr :: "structured_hdrs \<Rightarrow> header \<Rightarrow> string" where
  "hdr hdrs h = hdrs ! header_int h"

section \<open>Parsing\<close>

text \<open>
  One complete line: a line with the text \<open>HTTP/1.1\<close> anywhere is the request line; any
  other is stored, whole, under the header it names, and dropped if it names none.
\<close>

definition store_line :: "string \<Rightarrow> structured_hdrs \<Rightarrow> exc + structured_hdrs" where
  "store_line line hdrs =
     (if contains HTTP_Version line then hdrs_set hdrs reqln line
      else case header_get (str_new line) of
        Inr (h, _) \<Rightarrow> hdrs_set hdrs (header_int h) line
      | Inl (HTTP_oops _) \<Rightarrow> Inr hdrs
      | Inl e \<Rightarrow> Inl e)"

text \<open>What follows the loop, on the line it stopped at.\<close>

definition parse_end :: "string \<Rightarrow> istr \<Rightarrow> structured_hdrs \<Rightarrow> bool \<times> istr \<times> structured_hdrs" where
  "parse_end line i hdrs =
     (let (c, i1) = peek (str_clear i) in
      if line = [] \<and> c = Some LF then (True, str_ignore i1, hdrs)
      else (False, seek_cur (- int (length line)) (str_clear i1), hdrs))"

text \<open>
  The loop. A line is read up to the next carriage return; when that is not followed by
  a newline the line is put rewind and the parser asks for more input.
\<close>

definition too_long :: "size_t \<Rightarrow> string \<Rightarrow> bool" where
  "too_long max_line_len line \<longleftrightarrow> max_line_len \<noteq> npos \<and> unat max_line_len < length line"

lemma unread_length: "length (unread s) = length (sbuf s) - gpos s"
  by (simp add: unread_def)

lemma getline_consumes:
  assumes "getline d i old = (line, i1)" and "\<not> failb i1" and "peek i1 = (Some c, i2)"
  shows "length (unread (str_ignore i2)) < length (unread i)"
proof -
  have g1: "good i1" and i2: "i2 = i1" and u1: "unread i1 \<noteq> []"
    using assms(3) by (auto simp: peek_def split: if_splits list.splits)
  have g: "good i" and i1: "i1 = i\<lparr>gpos := gpos i + length line + 1\<rparr>"
    using assms(1) g1 by (auto simp: getline_def good_def Let_def split: if_splits)
  have "unread (str_ignore i1) = tl (unread i1)"
    using g1 u1 by (auto simp: str_ignore_def unread_def drop_Suc tl_drop split: list.splits)
  moreover have "length (unread i1) \<le> length (unread i)"
    by (simp add: i1 unread_length)
  ultimately show ?thesis using u1 i2 by (cases "unread i1") auto
qed

function parse_hdrs :: "size_t \<Rightarrow> istr \<Rightarrow> string \<Rightarrow> structured_hdrs \<Rightarrow>
    exc + (bool \<times> istr \<times> structured_hdrs)" where
  "parse_hdrs mx i old hdrs =
     (let (line, i1) = getline CR i old in
      if failb i1 \<or> line = [] then Inr (parse_end line i1 hdrs)
      else if too_long mx line then Inl (HTTP_oops Bad_Request)
      else let (c, i2) = peek i1 in
        if c \<noteq> Some LF
        then Inr (False, seek_cur (- int (length line)) (str_clear i2), hdrs)
        else case store_line line hdrs of
            Inl e \<Rightarrow> Inl e
          | Inr hdrs' \<Rightarrow> parse_hdrs mx (str_clear (str_ignore i2)) line hdrs')"
  by pat_completeness auto

termination parse_hdrs
  by (relation "measure (\<lambda>(mx, i, old, hdrs). length (unread i))")
    (auto intro: getline_consumes [OF sym _ sym])

declare parse_hdrs.simps [simp del]

text \<open>\<open>input >> hdrs\<close>: the local \<open>line\<close> starts empty.\<close>

definition hdrs_get :: "size_t \<Rightarrow> istr \<Rightarrow> structured_hdrs \<Rightarrow>
    exc + (bool \<times> istr \<times> structured_hdrs)" where
  "hdrs_get mx i hdrs = parse_hdrs mx i [] hdrs"

section \<open>Printing\<close>

text \<open>From the request line, at the end of the vector, down to the first header.\<close>

definition put_order :: "nat list" where
  "put_order = rev [0..<reqln + 1]"

definition hdrs_put :: "structured_hdrs \<Rightarrow> string" where
  "hdrs_put hdrs =
     concat (map (\<lambda>h. if hdrs ! h \<noteq> [] then hdrs ! h @ CRLF else []) put_order) @ CRLF"

lemma put_order [simp]: "set put_order = {k. k \<le> reqln}" "distinct put_order"
  by (auto simp: put_order_def simp del: upt_Suc)

section \<open>Storing lines\<close>

lemma hdrs_set_wf [inv_intros]: "wf_hdrs hdrs \<Longrightarrow> hdrs_set hdrs k line = Inr hdrs' \<Longrightarrow> wf_hdrs hdrs'"
  by (auto simp: hdrs_set_def wf_hdrs_def split: if_splits)

lemma hdrs_set_ok: "wf_hdrs hdrs \<Longrightarrow> k \<le> reqln \<Longrightarrow> hdrs_set hdrs k line = Inr (hdrs[k := line])"
  by (simp add: hdrs_set_def wf_hdrs_def reqln_def)

lemma wf_hdrs_length: "wf_hdrs hdrs \<Longrightarrow> length hdrs = 48"
  by (simp add: wf_hdrs_def table_simps)

lemma wf_empty_hdrs [simp]: "wf_hdrs empty_hdrs"
  by (simp add: wf_hdrs_def empty_hdrs_def)

text \<open>The slot a line belongs to, \<open>None\<close> for a line that is dropped.\<close>

definition slot_of :: "string \<Rightarrow> exc + nat option" where
  "slot_of line =
     (if contains HTTP_Version line then Inr (Some reqln)
      else case header_get (str_new line) of
        Inr (h, _) \<Rightarrow> Inr (Some (header_int h))
      | Inl (HTTP_oops _) \<Rightarrow> Inr None
      | Inl e \<Rightarrow> Inl e)"

lemma header_get_bound: "header_get i = Inr (h, i') \<Longrightarrow> header_int h < reqln"
  using header_int_inv(2) [of h] by (simp add: table_simps)

lemma slot_of_le: "slot_of line = Inr (Some k) \<Longrightarrow> k \<le> reqln"
  by (auto simp: slot_of_def dest: header_get_bound split: if_splits sum.splits exc.splits)

lemma store_line_slot:
  assumes "wf_hdrs hdrs"
  shows "store_line line hdrs =
    (case slot_of line of
       Inl e \<Rightarrow> Inl e
     | Inr None \<Rightarrow> Inr hdrs
     | Inr (Some k) \<Rightarrow> Inr (hdrs[k := line]))"
proof (cases "contains HTTP_Version line")
  case True
  with assms show ?thesis by (simp add: store_line_def slot_of_def hdrs_set_ok)
next
  case False
  show ?thesis
  proof (cases "header_get (str_new line)")
    case (Inl e)
    with False show ?thesis by (cases e) (simp_all add: store_line_def slot_of_def)
  next
    case (Inr p)
    then obtain h i' where p: "header_get (str_new line) = Inr (h, i')" by (cases p) auto
    with header_get_bound have "header_int h \<le> reqln" by (simp add: less_imp_le)
    with False p assms show ?thesis by (simp add: store_line_def slot_of_def hdrs_set_ok)
  qed
qed

lemma store_line_wf [inv_intros]:
  "wf_hdrs hdrs \<Longrightarrow> store_line line hdrs = Inr hdrs' \<Longrightarrow> wf_hdrs hdrs'"
  by (auto simp: store_line_slot wf_hdrs_def split: sum.splits option.splits)

lemma store_lines_wf:
  "wf_hdrs hdrs \<Longrightarrow> fold_res store_line ls hdrs = Inr hdrs' \<Longrightarrow> wf_hdrs hdrs'"
  by (rule fold_res_invariant) (auto intro: inv_intros)

text \<open>After a sequence of lines a slot holds the last line that belongs to it.\<close>

lemma store_lines_slot:
  assumes "wf_hdrs hdrs" and "fold_res store_line ls hdrs = Inr hdrs'" and "k \<le> reqln"
  shows "hdrs' ! k =
    (case filter (\<lambda>l. slot_of l = Inr (Some k)) ls of [] \<Rightarrow> hdrs ! k | xs \<Rightarrow> last xs)"
  using assms(1,2)
proof (induction ls arbitrary: hdrs)
  case Nil
  then show ?case by simp
next
  case (Cons l ls)
  let ?f = "filter (\<lambda>l. slot_of l = Inr (Some k))"
  from Cons.prems obtain h1 where h1: "store_line l hdrs = Inr h1" "fold_res store_line ls h1 = Inr hdrs'"
    by (auto simp: bind_res_Inr)
  have w1: "wf_hdrs h1" using Cons.prems(1) h1(1) by (rule store_line_wf)
  have k1: "h1 ! k = (if slot_of l = Inr (Some k) then l else hdrs ! k)"
    using h1(1) Cons.prems(1) assms(3)
    by (auto simp: store_line_slot wf_hdrs_def reqln_def nth_list_update
        split: sum.splits option.splits)
  have "hdrs' ! k = (case ?f ls of [] \<Rightarrow> h1 ! k | xs \<Rightarrow> last xs)"
    using w1 h1(2) by (rule Cons.IH)
  then show ?case using k1 by (cases "?f ls") auto
qed

section \<open>The parser, line by line\<close>

definition lines_text :: "string list \<Rightarrow> string" where
  "lines_text ls = concat (map (\<lambda>l. l @ CRLF) ls)"

lemma lines_text_simps [simp]:
  "lines_text [] = []" "lines_text (l # ls) = l @ CR # LF # lines_text ls"
  "lines_text (ls @ ms) = lines_text ls @ lines_text ms"
  by (simp_all add: lines_text_def CRLF_def)

definition ok_line :: "size_t \<Rightarrow> string \<Rightarrow> bool" where
  "ok_line mx l \<longleftrightarrow> l \<noteq> [] \<and> CR \<notin> set l \<and> \<not> too_long mx l"

lemma parse_line:
  assumes "good i" and "unread i = l @ CR # LF # rest" and "ok_line mx l"
  shows "parse_hdrs mx i old hdrs =
    bind_res (store_line l hdrs) (parse_hdrs mx (i\<lparr>gpos := gpos i + length l + 2\<rparr>) l)"
proof -
  let ?i1 = "i\<lparr>gpos := gpos i + length l + 1\<rparr>"
  have g: "getline CR i old = (l, ?i1)"
    using assms by (intro getline_hit) (auto simp: ok_line_def)
  have u: "unread ?i1 = LF # rest"
    using unread_advance [of i "l @ [CR]" "LF # rest"] assms(2) by simp
  have g1: "good ?i1" using assms(1) by simp
  have p: "peek ?i1 = (Some LF, ?i1)" using g1 u by (rule peek_Cons)
  have ig: "str_ignore ?i1 = i\<lparr>gpos := gpos i + length l + 2\<rparr>"
    using ignore_Cons [OF g1 u] by simp
  have f: "\<not> failb ?i1" using assms(1) by (simp add: good_def)
  show ?thesis
    by (subst parse_hdrs.simps)
      (use assms(1,3) f p ig in \<open>auto simp: g ok_line_def str_clear_good split: sum.split\<close>)
qed

text \<open>The result does not depend on the line of an earlier round while the stream is good.\<close>

lemma parse_old: "good i \<Longrightarrow> parse_hdrs mx i old hdrs = parse_hdrs mx i old' hdrs"
  by (subst (1 2) parse_hdrs.simps) (simp add: getline_def)

lemma parse_lines:
  assumes "good i" and "unread i = lines_text ls @ rest" and "\<forall>l \<in> set ls. ok_line mx l"
  shows "parse_hdrs mx i old hdrs =
    bind_res (fold_res store_line ls hdrs)
      (parse_hdrs mx (i\<lparr>gpos := gpos i + length (lines_text ls)\<rparr>) old)"
  using assms
proof (induction ls arbitrary: i old hdrs)
  case Nil
  then show ?case by simp
next
  case (Cons l ls)
  let ?i = "i\<lparr>gpos := gpos i + length l + 2\<rparr>"
  have u: "unread ?i = lines_text ls @ rest"
    using unread_advance [of i "l @ [CR, LF]" "lines_text ls @ rest"] Cons.prems(2) by simp
  have "parse_hdrs mx i old hdrs = bind_res (store_line l hdrs) (parse_hdrs mx ?i l)"
    using Cons.prems by (intro parse_line) auto
  moreover have "parse_hdrs mx ?i l h = bind_res (fold_res store_line ls h)
      (parse_hdrs mx (i\<lparr>gpos := gpos i + length (lines_text (l # ls))\<rparr>) old)" for h
  proof -
    have "parse_hdrs mx ?i l h = parse_hdrs mx ?i old h"
      using Cons.prems(1) by (intro parse_old) simp
    also have "\<dots> = bind_res (fold_res store_line ls h)
      (parse_hdrs mx (?i\<lparr>gpos := gpos ?i + length (lines_text ls)\<rparr>) old)"
      using Cons.prems u by (intro Cons.IH) auto
    finally show ?thesis by (simp add: algebra_simps)
  qed
  ultimately show ?case by (cases "store_line l hdrs") simp_all
qed

lemma parse_empty_line:
  assumes "good i" and "unread i = CR # LF # rest"
  shows "parse_hdrs mx i old hdrs = Inr (True, i\<lparr>gpos := gpos i + 2\<rparr>, hdrs)"
proof -
  let ?i1 = "i\<lparr>gpos := gpos i + 1\<rparr>"
  have g: "getline CR i old = ([], ?i1)"
    using assms getline_hit [of i "[]" CR "LF # rest"] by simp
  have u: "unread ?i1 = LF # rest"
    using unread_advance [of i "[CR]" "LF # rest"] assms(2) by simp
  have g1: "good ?i1" using assms(1) by simp
  have "peek ?i1 = (Some LF, ?i1)" using g1 u by (rule peek_Cons)
  moreover have "str_ignore ?i1 = i\<lparr>gpos := gpos i + 2\<rparr>"
    using ignore_Cons [OF g1 u] by simp
  ultimately show ?thesis
    by (subst parse_hdrs.simps) (use assms(1) in \<open>simp add: g parse_end_def str_clear_good\<close>)
qed

text \<open>
  A line whose carriage return has not arrived: the parser asks for more and leaves the
  stream where the line starts.
\<close>

lemma parse_partial:
  assumes "good i" and "wf_istr i" and "CR \<notin> set (unread i)" and "\<not> too_long mx (unread i)"
  shows "parse_hdrs mx i old hdrs = Inr (False, i, hdrs)"
proof -
  let ?r = "unread i"
  let ?i1 = "i\<lparr>gpos := gpos i + length ?r, eofb := True, failb := (?r = [])\<rparr>"
  have g: "getline CR i old = (?r, ?i1)" using assms(1,3) by (rule getline_miss)
  have c: "str_clear ?i1 = i\<lparr>gpos := gpos i + length ?r\<rparr>"
    using assms(1) by (simp add: str_clear_def good_def)
  have rewind: "seek_cur (- int (length ?r)) (i\<lparr>gpos := gpos i + length ?r\<rparr>) = i"
    using assms(1,2) by (simp add: seek_cur_def good_def wf_istr_def)
  show ?thesis
  proof (cases "?r = []")
    case True
    have "unread (str_clear ?i1) = []" by (simp add: c True)
    then have p: "peek (str_clear ?i1) = (None, (str_clear ?i1)\<lparr>eofb := True\<rparr>)"
      by (intro peek_Nil) simp
    show ?thesis
      by (subst parse_hdrs.simps)
        (use True p c rewind in \<open>simp add: g parse_end_def\<close>)
  next
    case False
    have p: "peek ?i1 = (None, ?i1\<lparr>failb := True\<rparr>)"
      by (simp add: peek_def good_def)
    show ?thesis
      by (subst parse_hdrs.simps)
        (use False p c rewind assms(4) in \<open>simp add: g\<close>)
  qed
qed

section \<open>The header block\<close>

lemma parse_block:
  assumes "good i" and "unread i = lines_text ls @ CR # LF # rest"
    and "\<forall>l \<in> set ls. ok_line mx l"
  shows "parse_hdrs mx i old hdrs =
    bind_res (fold_res store_line ls hdrs)
      (\<lambda>h. Inr (True, i\<lparr>gpos := gpos i + length (lines_text ls) + 2\<rparr>, h))"
proof -
  let ?i = "i\<lparr>gpos := gpos i + length (lines_text ls)\<rparr>"
  have "unread ?i = CR # LF # rest" using assms(2) by (rule unread_advance)
  then have "parse_hdrs mx ?i old h = Inr (True, i\<lparr>gpos := gpos i + length (lines_text ls) + 2\<rparr>, h)" for h
    using assms(1) parse_empty_line [of ?i rest] by simp
  then show ?thesis using parse_lines [OF assms] by (cases "fold_res store_line ls hdrs") simp_all
qed

lemma parse_unfinished:
  assumes "good i" and "wf_istr i" and "unread i = lines_text ls @ part"
    and "\<forall>l \<in> set ls. ok_line mx l" and "CR \<notin> set part" and "\<not> too_long mx part"
  shows "parse_hdrs mx i old hdrs =
    bind_res (fold_res store_line ls hdrs)
      (\<lambda>h. Inr (False, i\<lparr>gpos := gpos i + length (lines_text ls)\<rparr>, h))"
proof -
  let ?i = "i\<lparr>gpos := gpos i + length (lines_text ls)\<rparr>"
  have u: "unread ?i = part" using assms(3) by (rule unread_advance)
  have w: "wf_istr ?i" using assms(2,3) by (rule wf_advance)
  have "parse_hdrs mx ?i old h = Inr (False, ?i, h)" for h
    using assms u w by (intro parse_partial) simp_all
  then show ?thesis
    using parse_lines [OF assms(1,3,4)] by (cases "fold_res store_line ls hdrs") simp_all
qed

text \<open>
  Where a header block may be cut: a proper part of it that does not end in a carriage
  return is some complete lines and the beginning of another.
\<close>

lemma block_prefix:
  assumes "prefix p (lines_text ls @ CR # LF # rest)" and "length p < length (lines_text ls) + 2"
    and "p = [] \<or> last p \<noteq> CR" and "\<forall>l \<in> set ls. ok_line mx l"
  shows "\<exists>ls1 ls2 part. ls = ls1 @ ls2 \<and> p = lines_text ls1 @ part \<and> CR \<notin> set part \<and>
    \<not> too_long mx part"
  using assms
proof (induction ls arbitrary: p)
  case Nil
  then have "p = []" by (cases p rule: rev_cases) (auto simp: prefix_Cons)
  then show ?case by (auto simp: too_long_def)
next
  case (Cons l ls)
  have l: "CR \<notin> set l" "\<not> too_long mx l" using Cons.prems(4) by (auto simp: ok_line_def)
  show ?case
  proof (cases "length p \<le> length l")
    case True
    have "prefix p (l @ CR # LF # lines_text ls @ CR # LF # rest)"
      using Cons.prems(1) by simp
    moreover have "prefix l (l @ CR # LF # lines_text ls @ CR # LF # rest)" by simp
    ultimately have "prefix p l" using True by (rule prefix_length_prefix)
    then have "CR \<notin> set p" "\<not> too_long mx p"
      using l set_mono_prefix [of p l] prefix_length_le [of p l] by (auto simp: too_long_def)
    then show ?thesis by (intro exI [of _ "[]"] exI [of _ "l # ls"] exI [of _ p]) simp
  next
    case False
    obtain z where z: "l @ CR # LF # lines_text ls @ CR # LF # rest = p @ z"
      using Cons.prems(1) by (auto simp: prefix_def)
    have "p @ z = (l @ [CR]) @ (LF # lines_text ls @ CR # LF # rest)" using z by simp
    then have "\<exists>q. p = (l @ [CR]) @ q \<and> q @ z = LF # lines_text ls @ CR # LF # rest"
      using False by (intro append_split) simp_all
    then obtain q' where q': "p = l @ CR # q'" "q' @ z = LF # lines_text ls @ CR # LF # rest"
      by auto
    moreover have "q' \<noteq> []" using Cons.prems(3) q'(1) by auto
    ultimately obtain q where q: "p = l @ CR # LF # q" by (cases q') auto
    have "prefix q (lines_text ls @ CR # LF # rest)" using Cons.prems(1) q by simp
    moreover have "q = [] \<or> last q \<noteq> CR" using Cons.prems(3) q by auto
    ultimately obtain ls1 ls2 part where
      "ls = ls1 @ ls2" "q = lines_text ls1 @ part" "CR \<notin> set part" "\<not> too_long mx part"
      using Cons.IH [of q] Cons.prems(2,4) q by auto
    then show ?thesis
      using q by (intro exI [of _ "l # ls1"] exI [of _ ls2] exI [of _ part]) simp
  qed
qed

section \<open>Fragments\<close>

text \<open>
  How the connection feeds the parser: each fragment the socket delivers is appended to
  the buffer and the parser is run again, with the headers it has stored so far, until it
  reports that it is done. Fragments that come later stay in the buffer.
\<close>

fun feed :: "size_t \<Rightarrow> istr \<Rightarrow> structured_hdrs \<Rightarrow> string list \<Rightarrow>
    exc + (bool \<times> istr \<times> structured_hdrs)" where
  "feed mx i hdrs [] = Inr (False, i, hdrs)"
| "feed mx i hdrs (c # cs) =
     (case hdrs_get mx (str_put c i) hdrs of
        Inl e \<Rightarrow> Inl e
      | Inr (fin, i', hdrs') \<Rightarrow>
          if fin then Inr (True, str_put (concat cs) i', hdrs') else feed mx i' hdrs' cs)"

lemma feed_block:
  assumes "good i" and "wf_istr i" and "CR \<notin> set (unread i)"
    and "unread i @ concat cs = lines_text ls @ CR # LF # rest"
    and "\<forall>l \<in> set ls. ok_line mx l"
    and "\<forall>k. 0 < k \<longrightarrow> k < length cs \<longrightarrow>
      (let p = unread i @ concat (take k cs) in p = [] \<or> last p \<noteq> CR)"
  shows "feed mx i hdrs cs = hdrs_get mx (str_put (concat cs) i) hdrs"
  using assms
proof (induction cs arbitrary: i hdrs ls)
  case Nil
  then have "unread i = lines_text ls @ CR # LF # rest" by simp
  then have "CR \<in> set (unread i)" by simp
  with Nil.prems(3) show ?case by blast
next
  case (Cons c cs)
  let ?i = "str_put c i" and ?p = "unread i @ c"
  have g: "good ?i" and w: "wf_istr ?i" using Cons.prems(1,2) by simp_all
  have u: "unread ?i = ?p" using Cons.prems(1,2) by (rule unread_put)
  have put: "str_put (concat (c # cs)) i = str_put (concat cs) ?i"
    using Cons.prems(1) by (simp add: str_put_put)
  have uu: "unread (str_put (concat cs) ?i) = ?p @ concat cs"
    using g w u by (simp add: unread_put)
  have whole: "?p @ concat cs = lines_text ls @ CR # LF # rest" using Cons.prems(4) by simp
  show ?case
  proof (cases "length ?p < length (lines_text ls) + 2")
    case False
    then have "length (lines_text ls @ [CR, LF]) \<le> length ?p" by simp
    moreover have "?p @ concat cs = (lines_text ls @ [CR, LF]) @ rest" using whole by simp
    ultimately have "\<exists>q. ?p = (lines_text ls @ [CR, LF]) @ q \<and> q @ concat cs = rest"
      by (intro append_split)
    then obtain r where r: "?p = lines_text ls @ CR # LF # r" by auto
    have l: "hdrs_get mx ?i hdrs = bind_res (fold_res store_line ls hdrs)
        (\<lambda>h. Inr (True, ?i\<lparr>gpos := gpos ?i + length (lines_text ls) + 2\<rparr>, h))"
      unfolding hdrs_get_def using g u r Cons.prems(5) by (intro parse_block) auto
    have "hdrs_get mx (str_put (concat cs) ?i) hdrs = bind_res (fold_res store_line ls hdrs)
        (\<lambda>h. Inr (True, (str_put (concat cs) ?i)\<lparr>gpos := gpos ?i + length (lines_text ls) + 2\<rparr>, h))"
      unfolding hdrs_get_def using g uu whole Cons.prems(5)
      by (subst parse_block [where rest = rest]) auto
    then show ?thesis using l put
      by (cases "fold_res store_line ls hdrs") (simp_all add: str_put_gpos)
  next
    case True
    have ne: "cs \<noteq> []" using True arg_cong [OF whole, of length] by auto
    then have "?p = [] \<or> last ?p \<noteq> CR"
      using Cons.prems(6) [rule_format, of 1] by (simp add: Let_def)
    moreover have "prefix ?p (lines_text ls @ CR # LF # rest)" using whole by (metis prefixI)
    ultimately obtain ls1 ls2 part where d: "ls = ls1 @ ls2" "?p = lines_text ls1 @ part"
        "CR \<notin> set part" "\<not> too_long mx part"
      using block_prefix [OF _ True _ Cons.prems(5)] by blast
    let ?j = "?i\<lparr>gpos := gpos ?i + length (lines_text ls1)\<rparr>"
    have l: "hdrs_get mx ?i hdrs = bind_res (fold_res store_line ls1 hdrs)
        (\<lambda>h. Inr (False, ?j, h))"
      unfolding hdrs_get_def using g w u d Cons.prems(5) by (intro parse_unfinished) auto
    have uj: "unread ?j = part" using u d(2) by (intro unread_advance) simp
    have wj: "wf_istr ?j" using w u d(2) by (intro wf_advance) auto
    have ih: "feed mx ?j h cs = hdrs_get mx (str_put (concat cs) ?j) h" for h
    proof (rule Cons.IH)
      show "good ?j" using g by simp
      show "wf_istr ?j" by (rule wj)
      show "CR \<notin> set (unread ?j)" using uj d(3) by simp
      show "unread ?j @ concat cs = lines_text ls2 @ CR # LF # rest"
        using uj whole d(1,2) by simp
      show "\<forall>l \<in> set ls2. ok_line mx l" using Cons.prems(5) d(1) by simp
      show "\<forall>k. 0 < k \<longrightarrow> k < length cs \<longrightarrow>
        (let p = unread ?j @ concat (take k cs) in p = [] \<or> last p \<noteq> CR)"
      proof (intro allI impI)
        fix k assume k: "0 < k" "k < length cs"
        have "let p = unread i @ concat (take (Suc k) (c # cs)) in p = [] \<or> last p \<noteq> CR"
          using Cons.prems(6) [rule_format, of "Suc k"] k by simp
        then have "let p = ?p @ concat (take k cs) in p = [] \<or> last p \<noteq> CR" by simp
        then show "let p = unread ?j @ concat (take k cs) in p = [] \<or> last p \<noteq> CR"
          using d(2) uj by (auto simp: Let_def last_append split: if_splits)
      qed
    qed
    have "hdrs_get mx (str_put (concat cs) ?i) hdrs = bind_res (fold_res store_line ls1 hdrs)
        (hdrs_get mx (str_put (concat cs) ?j))"
    proof -
      have "parse_hdrs mx (str_put (concat cs) ?i) [] hdrs =
        bind_res (fold_res store_line ls1 hdrs) (parse_hdrs mx
          ((str_put (concat cs) ?i)\<lparr>gpos := gpos (str_put (concat cs) ?i) + length (lines_text ls1)\<rparr>) [])"
        using g uu d Cons.prems(5) by (intro parse_lines) auto
      then show ?thesis by (simp add: hdrs_get_def [abs_def] str_put_gpos)
    qed
    then show ?thesis using l put ih by (cases "fold_res store_line ls1 hdrs") simp_all
  qed
qed

section \<open>Printing what was parsed\<close>

text \<open>
  What the parser leaves behind: every filled slot holds a line that belongs there and
  that the parser would accept again.
\<close>

definition hdrs_ok :: "size_t \<Rightarrow> structured_hdrs \<Rightarrow> bool" where
  "hdrs_ok mx hdrs \<longleftrightarrow> wf_hdrs hdrs \<and>
     (\<forall>k \<le> reqln. hdrs ! k \<noteq> [] \<longrightarrow> ok_line mx (hdrs ! k) \<and> slot_of (hdrs ! k) = Inr (Some k))"

lemma empty_hdrs_nth: "k \<le> reqln \<Longrightarrow> empty_hdrs ! k = []"
  by (simp add: empty_hdrs_def reqln_def del: replicate.simps)

lemma empty_hdrs_ok [simp]: "hdrs_ok mx empty_hdrs"
  by (simp add: hdrs_ok_def empty_hdrs_nth)

lemma store_line_ok [inv_intros]:
  assumes "hdrs_ok mx hdrs" and "ok_line mx l" and "store_line l hdrs = Inr hdrs'"
  shows "hdrs_ok mx hdrs'"
proof -
  have w: "wf_hdrs hdrs" using assms(1) by (simp add: hdrs_ok_def)
  have w': "wf_hdrs hdrs'" using w assms(3) by (rule store_line_wf)
  have "hdrs' = hdrs \<or> (\<exists>k. slot_of l = Inr (Some k) \<and> hdrs' = hdrs[k := l])"
    using assms(3) w by (auto simp: store_line_slot split: sum.splits option.splits)
  then show ?thesis
  proof (elim disjE exE conjE)
    fix k assume k: "slot_of l = Inr (Some k)" and h: "hdrs' = hdrs[k := l]"
    have "hdrs' ! j = (if j = k then l else hdrs ! j)" if "j \<le> reqln" for j
      using h w that by (auto simp: nth_list_update wf_hdrs_def reqln_def)
    then show ?thesis using assms(1,2) w' k by (auto simp: hdrs_ok_def)
  qed (use assms(1) in simp)
qed

lemma parse_hdrs_ok:
  assumes "parse_hdrs mx i old hdrs = Inr (b, i', hdrs')" and "hdrs_ok mx hdrs" and "good i"
  shows "hdrs_ok mx hdrs'"
  using assms
proof (induction mx i old hdrs rule: parse_hdrs.induct)
  case (1 mx i old hdrs)
  obtain l i1 where g: "getline CR i old = (l, i1)" by fastforce
  obtain c i2 where p: "peek i1 = (c, i2)" by fastforce
  show ?case
  proof (cases "failb i1 \<or> l = [] \<or> too_long mx l \<or> c \<noteq> Some LF")
    case True
    then have "hdrs' = hdrs"
      using 1(2) g p
      by (subst (asm) parse_hdrs.simps) (auto simp: parse_end_def Let_def split: prod.splits if_splits)
    with 1(3) show ?thesis by simp
  next
    case False
    then obtain h1 where h1: "store_line l hdrs = Inr h1"
      and rec: "parse_hdrs mx (str_clear (str_ignore i2)) l h1 = Inr (b, i', hdrs')"
      using 1(2) g p by (subst (asm) (1) parse_hdrs.simps) (auto split: sum.splits)
    have "CR \<notin> set l"
      using g 1(4) by (auto simp: getline_def Let_def dest: set_takeWhileD split: if_splits)
    with False have "ok_line mx l" by (simp add: ok_line_def)
    then have "hdrs_ok mx h1" using 1(3) h1 store_line_ok by blast
    then show ?thesis
      using 1(1) [OF g [symmetric] refl _ _ p [symmetric] refl _ h1 rec] False by simp
  qed
qed

lemma filter_single:
  "distinct xs \<Longrightarrow> filter (\<lambda>j. j = k) xs = (if k \<in> set xs then [k] else [])"
  by (induction xs) auto

lemma hdrs_put_lines:
  "hdrs_put hdrs = lines_text (map ((!) hdrs) (filter (\<lambda>k. hdrs ! k \<noteq> []) put_order)) @ CRLF"
proof -
  have "concat (map (\<lambda>h. if hdrs ! h \<noteq> [] then hdrs ! h @ CRLF else []) ks) =
    lines_text (map ((!) hdrs) (filter (\<lambda>k. hdrs ! k \<noteq> []) ks))" for ks
    by (induction ks) (auto simp: CRLF_def)
  then show ?thesis unfolding hdrs_put_def by (rule arg_cong)
qed

lemma store_lines_defined:
  assumes "wf_hdrs hdrs" and "\<forall>l \<in> set ls. \<exists>k. slot_of l = Inr k"
  shows "\<exists>hdrs'. fold_res store_line ls hdrs = Inr hdrs'"
  using assms
proof (induction ls arbitrary: hdrs)
  case Nil
  then show ?case by simp
next
  case (Cons l ls)
  then obtain k where k: "slot_of l = Inr k" by auto
  obtain h1 where h1: "store_line l hdrs = Inr h1"
    using Cons.prems(1) k by (cases k) (auto simp: store_line_slot)
  then have "wf_hdrs h1" using Cons.prems(1) store_line_wf by blast
  then show ?case using Cons h1 by simp
qed

lemma reparse_lines:
  assumes "hdrs_ok mx hdrs"
    and "ls = map ((!) hdrs) (filter (\<lambda>k. hdrs ! k \<noteq> []) put_order)"
  shows "fold_res store_line ls empty_hdrs = Inr hdrs"
proof -
  let ?ks = "filter (\<lambda>k. hdrs ! k \<noteq> []) put_order"
  have sl: "slot_of (hdrs ! k) = Inr (Some k)" if "k \<in> set ?ks" for k
    using assms(1) that by (auto simp: hdrs_ok_def)
  then obtain h where h: "fold_res store_line ls empty_hdrs = Inr h"
    using store_lines_defined [of empty_hdrs ls] assms(2) by auto
  have "h ! k = hdrs ! k" if k: "k \<le> reqln" for k
  proof -
    have "filter (\<lambda>l. slot_of l = Inr (Some k)) (map ((!) hdrs) ?ks)
        = map ((!) hdrs) (filter (\<lambda>j. j = k) ?ks)"
      using sl by (auto simp: filter_map o_def intro!: arg_cong [where f = "map _"] filter_cong)
    also have "\<dots> = (if hdrs ! k \<noteq> [] then [hdrs ! k] else [])"
      using k by (subst filter_single) (auto simp: distinct_filter)
    finally show ?thesis
      using store_lines_slot [OF wf_empty_hdrs h k] assms(2) empty_hdrs_nth [OF k] by simp
  qed
  moreover have "length h = 48" "length hdrs = 48"
    using store_lines_wf [OF wf_empty_hdrs h] assms(1) by (auto simp: hdrs_ok_def dest: wf_hdrs_length)
  ultimately have "h = hdrs" by (intro nth_equalityI) (auto simp: table_simps)
  with h show ?thesis by simp
qed

text \<open>Parsing a block all of whose lines are stored or dropped.\<close>

lemma block_parse:
  assumes "\<forall>l \<in> set ls. ok_line mx l" and "\<forall>l \<in> set ls. \<exists>k. slot_of l = Inr k"
  shows "\<exists>i' hdrs. hdrs_get mx (str_new (lines_text ls @ CRLF @ rest)) empty_hdrs = Inr (True, i', hdrs) \<and>
    unread i' = rest \<and>
    (\<forall>k \<le> reqln. hdrs ! k =
      (case filter (\<lambda>l. slot_of l = Inr (Some k)) ls of [] \<Rightarrow> [] | xs \<Rightarrow> last xs))"
proof -
  let ?i = "str_new (lines_text ls @ CRLF @ rest)"
  obtain h where h: "fold_res store_line ls empty_hdrs = Inr h"
    using store_lines_defined [OF wf_empty_hdrs assms(2)] by blast
  let ?i' = "?i\<lparr>gpos := gpos ?i + length (lines_text ls @ CRLF)\<rparr>"
  have "hdrs_get mx ?i empty_hdrs = Inr (True, ?i', h)"
    unfolding hdrs_get_def using assms(1) h parse_block [of ?i ls rest mx] by (simp add: CRLF_def)
  moreover have "unread ?i' = rest" by (rule unread_advance) simp
  moreover have "h ! k = (case filter (\<lambda>l. slot_of l = Inr (Some k)) ls of [] \<Rightarrow> [] | xs \<Rightarrow> last xs)"
    if "k \<le> reqln" for k
    using store_lines_slot [OF wf_empty_hdrs h that, unfolded empty_hdrs_nth [OF that]] .
  ultimately show ?thesis by blast
qed

text \<open>A line made of a header's name and a value belongs to that header.\<close>

lemma header_line_slot:
  assumes "\<not> contains HTTP_Version (header_put h @ v)"
  shows "slot_of (header_put h @ v) = Inr (Some (header_int h))"
proof -
  have u: "unread (str_new (header_put h @ v)) =
      [] @ butlast (butlast (header_put h)) @ [] @ CHR '':'' # SP # v"
    by (simp add: header_put_def butlast_append)
  obtain i' where "header_get (str_new (header_put h @ v)) = Inr (h, i')"
    using header_get_print [OF u] by auto
  with assms show ?thesis by (simp add: slot_of_def)
qed

lemma header_put_chars: "CR \<notin> set (header_put h)" "header_put h \<noteq> []"
proof -
  have "header_strs ! header_int h \<in> set header_strs" by (simp add: table_simps header_int_inv)
  then have "\<forall>c \<in> set (header_strs ! header_int h). \<not> isspace c" using header_strs_chars by blast
  then show "CR \<notin> set (header_put h)" by (auto simp: header_put_def isspace_def split: if_splits)
  show "header_put h \<noteq> []" by (simp add: header_put_def)
qed

section \<open>Properties\<close>



text \<open>A block of stored headers that is printed parses to the same headers.\<close>

lemma hdrs_reparse:
  assumes "hdrs_get mx i empty_hdrs = Inr (fin, i', hdrs)" and "good i"
  shows "hdrs_get mx (str_new (hdrs_put hdrs @ rest)) empty_hdrs =
    Inr (True, (str_new (hdrs_put hdrs @ rest))\<lparr>gpos := length (hdrs_put hdrs)\<rparr>, hdrs)"
proof -
  let ?ls = "map ((!) hdrs) (filter (\<lambda>k. hdrs ! k \<noteq> []) put_order)"
  have ok: "hdrs_ok mx hdrs"
    using assms unfolding hdrs_get_def by (rule parse_hdrs_ok [OF _ empty_hdrs_ok])
  then have "\<forall>l \<in> set ?ls. ok_line mx l" by (auto simp: hdrs_ok_def)
  then have "parse_hdrs mx (str_new (hdrs_put hdrs @ rest)) [] empty_hdrs =
      bind_res (fold_res store_line ?ls empty_hdrs) (\<lambda>h. Inr (True,
        (str_new (hdrs_put hdrs @ rest))\<lparr>gpos := length (lines_text ?ls) + 2\<rparr>, h))"
    using parse_block [of "str_new (hdrs_put hdrs @ rest)" ?ls rest mx]
    by (simp add: hdrs_put_lines CRLF_def)
  then show ?thesis
    using reparse_lines [OF ok refl] by (simp add: hdrs_get_def hdrs_put_lines CRLF_def)
qed

text \<open>C25. What the parser stored can be printed and parsed again: the headers a server accepted
  and forwards to another process are, at the other end, the same headers, and the printed
  block is consumed to its last byte.\<close>

theorem hdrs_roundtrip:
  assumes "hdrs_get mx i empty_hdrs = Inr (fin, i', hdrs)" and "good i"
  shows "hdrs_get mx (str_new (hdrs_put hdrs @ rest)) empty_hdrs =
    Inr (True, (str_new (hdrs_put hdrs @ rest))\<lparr>gpos := length (hdrs_put hdrs)\<rparr>, hdrs)"
  using assms by (rule hdrs_reparse)

theorem hdrs_roundtrip_witness:
  "\<exists>i' hdrs. hdrs_get npos (str_new (''GET / HTTP/1.1'' @ CRLF @ ''Host: a'' @ CRLF @ CRLF)) empty_hdrs =
      Inr (True, i', hdrs) \<and> hdr hdrs Host = ''Host: a'' \<and>
    hdrs_get npos (str_new (hdrs_put hdrs @ ''x'')) empty_hdrs =
      Inr (True, (str_new (hdrs_put hdrs @ ''x''))\<lparr>gpos := length (hdrs_put hdrs)\<rparr>, hdrs)"
proof -
  let ?t = "''GET / HTTP/1.1'' @ CRLF @ ''Host: a'' @ CRLF @ CRLF"
  let ?h = "(empty_hdrs[reqln := ''GET / HTTP/1.1''])[header_int Host := ''Host: a'']"
  have "hdrs_get npos (str_new ?t) empty_hdrs = Inr (True, (str_new ?t)\<lparr>gpos := 27\<rparr>, ?h)"
    by code_simp
  moreover have "good (str_new ?t)" by simp
  moreover have "hdr ?h Host = ''Host: a''" by code_simp
  ultimately show ?thesis using hdrs_roundtrip [of npos "str_new ?t"] by blast
qed

text \<open>Which line a slot holds when a block has been parsed: the last line of the block that
  belongs to it, an empty string if there is none; what follows the block is left in the
  buffer. In particular every line with the text \<open>HTTP/1.1\<close> in it, wherever it stands,
  belongs to the request line's slot.\<close>

theorem parsed_slots:
  assumes "hdrs_get mx (str_new (lines_text ls @ CRLF @ rest)) empty_hdrs = Inr (fin, i', hdrs)"
    and "\<forall>l \<in> set ls. ok_line mx l" and "k \<le> reqln"
  shows "fin \<and> unread i' = rest \<and>
    hdrs ! k = (case filter (\<lambda>l. slot_of l = Inr (Some k)) ls of [] \<Rightarrow> [] | xs \<Rightarrow> last xs) \<and>
    (\<forall>l. contains HTTP_Version l \<longrightarrow> slot_of l = Inr (Some reqln))"
proof -
  let ?i = "str_new (lines_text ls @ CRLF @ rest)"
  have "hdrs_get mx ?i empty_hdrs = bind_res (fold_res store_line ls empty_hdrs)
      (\<lambda>h. Inr (True, ?i\<lparr>gpos := gpos ?i + length (lines_text ls) + 2\<rparr>, h))"
    unfolding hdrs_get_def using assms(2) by (intro parse_block) (auto simp: CRLF_def)
  then have h: "fold_res store_line ls empty_hdrs = Inr hdrs"
    and e: "fin" "i' = ?i\<lparr>gpos := gpos ?i + length (lines_text ls @ CRLF)\<rparr>"
    using assms(1) by (auto simp: bind_res_Inr CRLF_def)
  have "unread i' = rest" unfolding e(2) by (rule unread_advance) simp
  moreover have "slot_of l = Inr (Some reqln)" if "contains HTTP_Version l" for l
    using that by (simp add: slot_of_def)
  ultimately show ?thesis
    using e(1) store_lines_slot [OF wf_empty_hdrs h assms(3), unfolded empty_hdrs_nth [OF assms(3)]]
    by simp
qed

theorem parsed_slots_witness:
  "\<exists>i' hdrs. hdrs_get npos (str_new (lines_text [''GET / HTTP/1.1'', ''Via: HTTP/1.1 x''] @ CRLF @ ''''))
      empty_hdrs = Inr (True, i', hdrs) \<and> hdrs ! reqln = ''Via: HTTP/1.1 x''"
proof -
  let ?ls = "[''GET / HTTP/1.1'', ''Via: HTTP/1.1 x'']"
  have *: "hdrs_get npos (str_new (lines_text ?ls @ CRLF @ '''')) empty_hdrs =
      Inr (True, (str_new (lines_text ?ls @ CRLF @ ''''))\<lparr>gpos := 35\<rparr>,
        empty_hdrs[reqln := ''Via: HTTP/1.1 x''])"
    by code_simp
  have f: "filter (\<lambda>l. slot_of l = Inr (Some reqln)) ?ls = ?ls" by code_simp
  have o: "\<forall>l \<in> set ?ls. ok_line npos l" by code_simp
  have "empty_hdrs[reqln := ''Via: HTTP/1.1 x''] ! reqln = ''Via: HTTP/1.1 x''"
    using parsed_slots [OF * o, of reqln] unfolding f by simp
  with * show ?thesis by blast
qed

section \<open>Bounds\<close>

lemma getline_advance:
  assumes "getline d i old = (l, i1)" and "good i" and "wf_istr i"
  shows "sbuf i1 = sbuf i \<and> gpos i + length l \<le> gpos i1 \<and> wf_istr i1"
  using assms getline_wf [OF assms(3,1)] by (auto simp: getline_def Let_def split: if_splits)

lemma rewind_ok:
  assumes "good j" and "wf_istr j" and "sbuf j = sbuf i" and "gpos i + n \<le> gpos j"
  shows "let j' = seek_cur (- int n) j in
    good j' \<and> wf_istr j' \<and> sbuf j' = sbuf i \<and> gpos i \<le> gpos j'"
  using assms by (auto simp: seek_cur_def good_def wf_istr_def Let_def)

lemma peek_same:
  "peek i = (c, i2) \<Longrightarrow> sbuf i2 = sbuf i \<and> gpos i2 = gpos i \<and> wf_istr i2 = wf_istr i"
  by (auto simp: peek_def wf_istr_def split: if_splits list.splits)

lemma peek_Some:
  "peek i = (Some c, i2) \<Longrightarrow> good i \<and> i2 = i \<and> (\<exists>r. unread i = c # r)"
  by (auto simp: peek_def split: if_splits list.splits)

lemma ignore_advance:
  assumes "peek i = (Some c, i2)" and "wf_istr i"
  shows "good (str_ignore i2) \<and> wf_istr (str_ignore i2) \<and> sbuf (str_ignore i2) = sbuf i \<and>
    gpos (str_ignore i2) = gpos i + 1"
proof -
  obtain r where r: "good i" "i2 = i" "unread i = c # r" using peek_Some [OF assms(1)] by blast
  have "wf_istr (i\<lparr>gpos := gpos i + length [c]\<rparr>)"
    using assms(2) r(3) by (intro wf_advance) simp_all
  then show ?thesis using r by (simp add: str_ignore_def)
qed

text \<open>What every way out of the parser guarantees of the stream it leaves.\<close>

definition stream_kept :: "istr \<Rightarrow> istr \<Rightarrow> bool" where
  "stream_kept i i' \<longleftrightarrow> good i' \<and> wf_istr i' \<and> sbuf i' = sbuf i \<and> gpos i \<le> gpos i'"

lemma parse_end_kept:
  assumes "parse_end l i1 hdrs = (fin, i', hdrs')" and "wf_istr i1" and "sbuf i1 = sbuf i"
    and "gpos i + length l \<le> gpos i1"
  shows "stream_kept i i'"
proof -
  obtain c i2 where p: "peek (str_clear i1) = (c, i2)" by fastforce
  show ?thesis
  proof (cases "l = [] \<and> c = Some LF")
    case True
    with assms(1) p have "i' = str_ignore i2" by (simp add: parse_end_def)
    with True p assms ignore_advance [of "str_clear i1" LF i2] show ?thesis
      by (simp add: stream_kept_def)
  next
    case False
    with assms(1) p have "i' = seek_cur (- int (length l)) (str_clear i2)"
      by (auto simp: parse_end_def)
    with p assms rewind_ok [of "str_clear i2" i "length l"] peek_same [OF p] show ?thesis
      by (simp add: stream_kept_def Let_def)
  qed
qed

lemma parse_hdrs_kept:
  assumes "parse_hdrs mx i old hdrs = Inr (fin, i', hdrs')" and "good i" and "wf_istr i"
  shows "stream_kept i i'"
  using assms
proof (induction mx i old hdrs rule: parse_hdrs.induct)
  case (1 mx i old hdrs)
  obtain l i1 where g: "getline CR i old = (l, i1)" by fastforce
  obtain c i2 where p: "peek i1 = (c, i2)" by fastforce
  note adv = getline_advance [OF g 1(3,4)] and same = peek_same [OF p]
  show ?case
  proof (cases "failb i1 \<or> l = []")
    case True
    then have "parse_end l i1 hdrs = (fin, i', hdrs')"
      using 1(2) g by (subst (asm) parse_hdrs.simps) simp
    then show ?thesis using adv by (auto intro: parse_end_kept)
  next
    case False
    then have ntl: "\<not> too_long mx l"
      using 1(2) g by (subst (asm) parse_hdrs.simps) (auto split: if_splits)
    show ?thesis
    proof (cases "c = Some LF")
      case nl: False
      then have "i' = seek_cur (- int (length l)) (str_clear i2)"
        using 1(2) g p False ntl by (subst (asm) parse_hdrs.simps) simp
      then show ?thesis using rewind_ok [of "str_clear i2" i "length l"] adv same
        by (simp add: stream_kept_def Let_def)
    next
      case True
      note ig = ignore_advance [OF p [unfolded True]]
      obtain h1 where h1: "store_line l hdrs = Inr h1"
        and rec: "parse_hdrs mx (str_clear (str_ignore i2)) l h1 = Inr (fin, i', hdrs')"
        using 1(2) g p False ntl True by (subst (asm) (1) parse_hdrs.simps) (auto split: sum.splits)
      have "stream_kept (str_clear (str_ignore i2)) i'"
        using 1(1) [OF g [symmetric] refl False ntl p [symmetric] refl _ h1 rec] True ig adv by simp
      then show ?thesis using ig adv by (auto simp: stream_kept_def)
    qed
  qed
qed

lemma header_get_error: "header_get i = Inl e \<Longrightarrow> e = UB \<or> e = HTTP_oops Bad_Request"
  by (auto simp: header_get_def trim_name_def Let_def bind_res_Inl split: if_splits prod.splits option.splits)

lemma store_line_error: "wf_hdrs hdrs \<Longrightarrow> store_line l hdrs = Inl e \<Longrightarrow> e = UB"
  by (auto simp: store_line_slot slot_of_def dest!: header_get_error
      split: sum.splits option.splits if_splits exc.splits)

lemma parse_hdrs_error:
  assumes "parse_hdrs mx i old hdrs = Inl e" and "wf_hdrs hdrs"
  shows "e = UB \<or> e = HTTP_oops Bad_Request"
  using assms
proof (induction mx i old hdrs rule: parse_hdrs.induct)
  case (1 mx i old hdrs)
  obtain l i1 where g: "getline CR i old = (l, i1)" by fastforce
  obtain c i2 where p: "peek i1 = (c, i2)" by fastforce
  have nf: "\<not> (failb i1 \<or> l = [])"
    using 1(2) g by (subst (asm) parse_hdrs.simps) (auto split: if_splits)
  show ?case
  proof (cases "too_long mx l")
    case True
    then show ?thesis using 1(2) g p nf by (subst (asm) parse_hdrs.simps) simp
  next
    case ntl: False
    then have c: "c = Some LF"
      using 1(2) g p nf by (subst (asm) parse_hdrs.simps) (auto split: if_splits)
    show ?thesis
    proof (cases "store_line l hdrs")
      case (Inl e')
      then have "e = e'" using 1(2) g p nf ntl c by (subst (asm) parse_hdrs.simps) simp
      then show ?thesis using store_line_error [OF 1(3) Inl] by simp
    next
      case (Inr h1)
      then have "parse_hdrs mx (str_clear (str_ignore i2)) l h1 = Inl e"
        using 1(2) g p nf ntl c by (subst (asm) (1) parse_hdrs.simps) simp
      then show ?thesis
        using 1(1) [OF g [symmetric] refl nf ntl p [symmetric] refl _ Inr] c
          store_line_wf [OF 1(3) Inr] by simp
    qed
  qed
qed

lemma parse_hdrs_wf:
  assumes "parse_hdrs mx i old hdrs = Inr (fin, i', hdrs')" and "wf_hdrs hdrs"
  shows "wf_hdrs hdrs'"
  using assms
proof (induction mx i old hdrs rule: parse_hdrs.induct)
  case (1 mx i old hdrs)
  obtain l i1 where g: "getline CR i old = (l, i1)" by fastforce
  obtain c i2 where p: "peek i1 = (c, i2)" by fastforce
  show ?case
  proof (cases "failb i1 \<or> l = [] \<or> too_long mx l \<or> c \<noteq> Some LF")
    case True
    then have "hdrs' = hdrs"
      using 1(2) g p
      by (subst (asm) parse_hdrs.simps) (auto simp: parse_end_def Let_def split: prod.splits if_splits)
    with 1(3) show ?thesis by simp
  next
    case False
    then obtain h1 where h1: "store_line l hdrs = Inr h1"
      and rec: "parse_hdrs mx (str_clear (str_ignore i2)) l h1 = Inr (fin, i', hdrs')"
      using 1(2) g p by (subst (asm) (1) parse_hdrs.simps) (auto split: sum.splits)
    show ?thesis
      using 1(1) [OF g [symmetric] refl _ _ p [symmetric] refl _ h1 rec] False
        store_line_wf [OF 1(3) h1] by simp
  qed
qed



text \<open>The cut that C1 excludes. When a fragment ends with the carriage return of a line, the parser
  steps back by the length of the line although the carriage return has been read too: the
  first character of the line is skipped, and the line is stored under another name or not
  at all once the newline arrives.\<close>

theorem parse_cut_crlf:
  assumes "good i" and "wf_istr i" and "unread i = line @ [CR]" and "ok_line mx line"
  shows "hdrs_get mx i hdrs = Inr (False, i\<lparr>gpos := gpos i + 1\<rparr>, hdrs) \<and>
    unread (i\<lparr>gpos := gpos i + 1\<rparr>) = tl line @ [CR]"
proof
  let ?i1 = "i\<lparr>gpos := gpos i + length line + 1\<rparr>"
  have g: "getline CR i [] = (line, ?i1)"
    using assms by (intro getline_hit [where rest = "[]"]) (auto simp: ok_line_def)
  have u: "unread ?i1 = []" using unread_advance [of i "line @ [CR]" "[]"] assms(3) by simp
  have p: "peek ?i1 = (None, ?i1\<lparr>eofb := True\<rparr>)" using assms(1) u by (intro peek_Nil) simp_all
  have l: "length (sbuf i) = gpos i + length line + 1"
    using assms(2) arg_cong [OF assms(3), of length]
    unfolding unread_length wf_istr_def by simp
  have "seek_cur (- int (length line)) (str_clear (?i1\<lparr>eofb := True\<rparr>)) = i\<lparr>gpos := gpos i + 1\<rparr>"
    using assms(1) l by (simp add: seek_cur_def str_clear_good good_def str_clear_def)
  then show "hdrs_get mx i hdrs = Inr (False, i\<lparr>gpos := gpos i + 1\<rparr>, hdrs)"
    unfolding hdrs_get_def
    by (subst parse_hdrs.simps)
      (use assms(1,4) p [simplified] in \<open>simp add: g ok_line_def good_def\<close>)
  obtain c line' where c: "line = c # line'" using assms(4) by (cases line) (auto simp: ok_line_def)
  show "unread (i\<lparr>gpos := gpos i + 1\<rparr>) = tl line @ [CR]"
    using unread_advance [of i "[c]" "line' @ [CR]"] assms(3) c by simp
qed

theorem parse_cut_crlf_witness:
  "hdrs_get npos (str_new (''Host: a'' @ [CR])) empty_hdrs =
     Inr (False, (str_new (''Host: a'' @ [CR]))\<lparr>gpos := 1\<rparr>, empty_hdrs) \<and>
   (case feed npos (str_new []) empty_hdrs [''Host: a'' @ [CR], LF # CRLF] of
      Inr (fin, i, h) \<Rightarrow> fin \<and> h = empty_hdrs | _ \<Rightarrow> False)"
proof
  have *: "ok_line npos ''Host: a''" by code_simp
  show "hdrs_get npos (str_new (''Host: a'' @ [CR])) empty_hdrs =
     Inr (False, (str_new (''Host: a'' @ [CR]))\<lparr>gpos := 1\<rparr>, empty_hdrs)"
    using parse_cut_crlf [OF _ _ _ *, of "str_new (''Host: a'' @ [CR])" empty_hdrs] by simp
  have "case feed npos (str_new []) empty_hdrs [''Host: a'' @ [CR], LF # CRLF] of
     Inr (fin, i, h) \<Rightarrow> fin \<and> h = empty_hdrs | _ \<Rightarrow> False" by code_simp
  then show "case feed npos (str_new []) empty_hdrs [''Host: a'' @ [CR], LF # CRLF] of
     Inr (fin, i, h) \<Rightarrow> fin \<and> h = empty_hdrs | _ \<Rightarrow> False" .
qed

end
