(* ===== verification/Work.thy ===== *)
theory Work
  imports Streams
begin

text \<open>
  \<open>Work.hpp\<close>, \<open>Work.cpp\<close>: a unit of work at a file descriptor, the two read loops and the
  write loop every connection uses, and the destructor that closes the descriptor. The
  kernel's answers to \<open>read\<close> and \<open>write\<close> are a list of events, a parameter of the loops.
\<close>

section \<open>A unit of work\<close>

datatype work_mode = mode_read | mode_write

record work =
  wfd :: fd
  wmode :: work_mode
  deleteme :: bool

definition work_new :: "fd \<Rightarrow> work_mode \<Rightarrow> bool \<Rightarrow> work" where
  "work_new d m del = \<lparr>wfd = d, wmode = m, deleteme = del\<rparr>"

text \<open>The destructor closes the descriptor unless it is the listening socket. The result is
  the list of open descriptors.\<close>

definition work_destroy :: "fd \<Rightarrow> 'a work_scheme \<Rightarrow> fd list \<Rightarrow> fd list" where
  "work_destroy listenfd w open_fds =
     (if wfd w \<noteq> listenfd then remove1 (wfd w) open_fds else open_fds)"

section \<open>What the kernel delivers\<close>

text \<open>
  Incoming: bytes that have arrived, the end of the stream, a failing call. When the list is
  used up the socket would block. A call for at most \<open>n\<close> bytes gets at most that many; the
  rest stays.
\<close>

datatype rd_event = Data string | Eof | Fault errno

fun sys_read :: "nat \<Rightarrow> rd_event list \<Rightarrow> (errno + string) \<times> rd_event list" where
  "sys_read n [] = (Inl EAGAIN, [])"
| "sys_read n (Fault e # ev) = (Inl e, ev)"
| "sys_read n (Eof # ev) = (Inr [], Eof # ev)"
| "sys_read n (Data b # ev) =
     (Inr (take n b), if n < length b then Data (drop n b) # ev else ev)"

text \<open>Outgoing: room for some bytes, or a failing call.\<close>

datatype wr_event = Room nat | WFault errno

fun sys_write :: "string \<Rightarrow> wr_event list \<Rightarrow> (errno + nat) \<times> wr_event list" where
  "sys_write b [] = (Inl EAGAIN, [])"
| "sys_write b (WFault e # ev) = (Inl e, ev)"
| "sys_write b (Room k # ev) = (Inr (min k (length b)), ev)"

definition rd_size :: "rd_event list \<Rightarrow> nat" where
  "rd_size ev = sum_list (map (\<lambda>e. case e of Data b \<Rightarrow> Suc (length b) | _ \<Rightarrow> 1) ev)"

lemma rd_size_simps [simp]:
  "rd_size [] = 0" "rd_size (Data b # ev) = Suc (length b + rd_size ev)"
  "rd_size (Fault e # ev) = Suc (rd_size ev)" "rd_size (Eof # ev) = Suc (rd_size ev)"
  by (simp_all add: rd_size_def)

text \<open>A call that gets bytes or is interrupted uses up part of the list: the loops end.\<close>

lemma sys_read_less:
  "(Inr got, ev') = sys_read n ev \<Longrightarrow> got \<noteq> [] \<Longrightarrow> rd_size ev' < rd_size ev"
  "(Inl EINTR, ev') = sys_read n ev \<Longrightarrow> rd_size ev' < rd_size ev"
  by (induction n ev rule: sys_read.induct) (auto split: if_splits)

lemma sys_write_less:
  "(Inr k, ev') = sys_write b ev \<Longrightarrow> length ev' < length ev"
  "(Inl EINTR, ev') = sys_write b ev \<Longrightarrow> length ev' < length ev"
  by (induction b ev rule: sys_write.induct) auto

section \<open>The loops\<close>

text \<open>
  \<open>rduntil(inbuf, rdbuf, rdbufsz)\<close>: read until the socket would block. The text is pushed
  as a C string, so what follows a NUL in one read is lost. The result is \<open>errno\<close>, which a
  successful call leaves as it was.
\<close>

function rduntil_loop :: "size_t \<Rightarrow> rd_event list \<Rightarrow> istr \<Rightarrow> errno \<Rightarrow> errno \<times> istr \<times> rd_event list" where
  "rduntil_loop rdbufsz ev inbuf err =
     (case sys_read (unat (rdbufsz - 1)) ev of
        (Inr nread, ev') \<Rightarrow>
          if nread \<noteq> [] then rduntil_loop rdbufsz ev' (str_put (c_string nread) inbuf) err
          else (err, inbuf, ev')
      | (Inl e, ev') \<Rightarrow>
          if e = EINTR then rduntil_loop rdbufsz ev' inbuf e
          else (e, inbuf, ev'))"
  by pat_completeness auto

termination rduntil_loop
  by (relation "measure (\<lambda>(n, ev, i, e). rd_size ev)") (auto dest: sys_read_less)

definition rduntil :: "size_t \<Rightarrow> rd_event list \<Rightarrow> istr \<Rightarrow> errno \<times> istr \<times> rd_event list" where
  "rduntil rdbufsz ev inbuf = rduntil_loop rdbufsz ev inbuf E0"

text \<open>
  \<open>rduntil(s, rdbuf, rdbufsz, tord)\<close>: read a known number of bytes. Each call asks for a
  whole buffer, whatever \<open>tord\<close> still is, and \<open>tord\<close> is unsigned. \<open>err\<close> is \<open>errno\<close> at the
  entry.
\<close>

function rduntil_n :: "size_t \<Rightarrow> rd_event list \<Rightarrow> string \<Rightarrow> size_t \<Rightarrow> errno \<Rightarrow>
    errno \<times> string \<times> size_t \<times> rd_event list" where
  "rduntil_n rdbufsz ev s tord err =
     (if tord = 0 then (E0, s, tord, ev)
      else case sys_read (unat (rdbufsz - 1)) ev of
        (Inr nread, ev') \<Rightarrow>
          if nread \<noteq> []
          then rduntil_n rdbufsz ev' (s @ c_string nread) (tord - of_nat (length nread)) err
          else (err, s, tord, ev')
      | (Inl e, ev') \<Rightarrow>
          if e = EINTR then rduntil_n rdbufsz ev' s tord e
          else (e, s, tord, ev'))"
  by pat_completeness auto

termination rduntil_n
  by (relation "measure (\<lambda>(n, ev, s, t, e). rd_size ev)") (auto dest: sys_read_less)

text \<open>\<open>wruntil(outbuf, towrite)\<close>: \<open>outbuf\<close> is the text from the pointer on, and \<open>sent\<close> what
  has gone out.\<close>

function wruntil :: "wr_event list \<Rightarrow> string \<Rightarrow> size_t \<Rightarrow> errno \<Rightarrow> string \<Rightarrow>
    errno \<times> string \<times> size_t \<times> string \<times> wr_event list" where
  "wruntil ev outbuf towrite err sent =
     (if towrite = 0 then (E0, outbuf, towrite, sent, ev)
      else case sys_write (take (unat towrite) outbuf) ev of
        (Inr nwritten, ev') \<Rightarrow>
          if 0 < nwritten
          then wruntil ev' (drop nwritten outbuf) (towrite - of_nat nwritten) err
            (sent @ take nwritten outbuf)
          else (err, outbuf, towrite, sent, ev')
      | (Inl e, ev') \<Rightarrow>
          if e = EINTR then wruntil ev' outbuf towrite e sent
          else (e, outbuf, towrite, sent, ev'))"
  by pat_completeness auto

termination wruntil
  by (relation "measure (\<lambda>(ev, ob, t, e, s). length ev)") (auto dest: sys_write_less)

declare rduntil_loop.simps [simp del] rduntil_n.simps [simp del] wruntil.simps [simp del]

section \<open>What the loops do, without the loop\<close>

text \<open>The bytes that arrive before the connection pauses, ends or fails, and the value of
  \<open>errno\<close> then.\<close>

fun arrived :: "rd_event list \<Rightarrow> string" where
  "arrived [] = []"
| "arrived (Eof # ev) = []"
| "arrived (Fault e # ev) = (if e = EINTR then arrived ev else [])"
| "arrived (Data b # ev) = (if b = [] then [] else b @ arrived ev)"

fun stop_errno :: "errno \<Rightarrow> rd_event list \<Rightarrow> errno" where
  "stop_errno err [] = EAGAIN"
| "stop_errno err (Eof # ev) = err"
| "stop_errno err (Fault e # ev) = (if e = EINTR then stop_errno EINTR ev else e)"
| "stop_errno err (Data b # ev) = (if b = [] then err else stop_errno err ev)"

fun room :: "wr_event list \<Rightarrow> nat" where
  "room [] = 0"
| "room (WFault e # ev) = (if e = EINTR then room ev else 0)"
| "room (Room k # ev) = (if k = 0 then 0 else k + room ev)"

lemma arrived_read:
  assumes "(Inr got, ev') = sys_read n ev" and "0 < n" and "got \<noteq> []"
  shows "arrived ev = got @ arrived ev' \<and> stop_errno err ev = stop_errno err ev'"
  using assms by (induction n ev rule: sys_read.induct) (auto split: if_splits)

lemma arrived_end:
  assumes "(Inr [], ev') = sys_read n ev" and "0 < n"
  shows "arrived ev = [] \<and> stop_errno err ev = err"
  using assms by (induction n ev rule: sys_read.induct) (auto split: if_splits)

lemma arrived_fault:
  assumes "(Inl e, ev') = sys_read n ev"
  shows "if e = EINTR then arrived ev = arrived ev' \<and> stop_errno err ev = stop_errno e ev'
    else arrived ev = [] \<and> stop_errno err ev = e"
  using assms by (induction n ev rule: sys_read.induct) (auto split: if_splits)

lemma room_write:
  assumes "(Inr k, ev') = sys_write b ev" and "b \<noteq> []"
  shows "if k = 0 then room ev = 0
    else k \<le> length b \<and> min (length b) (room ev) = k + min (length b - k) (room ev')"
  using assms by (induction b ev rule: sys_write.induct) (auto simp: min_def)

lemma room_fault:
  assumes "(Inl e, ev') = sys_write b ev"
  shows "room ev = (if e = EINTR then room ev' else 0)"
  using assms by (induction b ev rule: sys_write.induct) auto

lemma unat_pred_pos: "1 < (n :: size_t) \<Longrightarrow> 0 < unat (n - 1)"
proof -
  assume "1 < n"
  then have "n - 1 \<noteq> 0" by auto
  then show ?thesis by (simp add: unat_gt_0)
qed

lemma unat_diff_of_nat:
  "k \<le> unat (n :: size_t) \<Longrightarrow> unat (n - of_nat k) = unat n - k"
proof -
  assume k: "k \<le> unat n"
  have "unat n < 2 ^ LENGTH(64)" by (rule unsigned_less)
  with k have "k < 2 ^ 64" by simp
  then have u: "unat (of_nat k :: size_t) = k" by (simp add: unsigned_of_nat take_bit_nat_eq_self)
  with k have "of_nat k \<le> n" by (simp add: word_le_nat_alt)
  with u show ?thesis by (simp add: unat_sub)
qed

lemma rduntil_loop_arrived:
  assumes "1 < rdbufsz" and "good i" and "NUL \<notin> set (arrived ev)"
  shows "\<exists>ev'. rduntil_loop rdbufsz ev i err = (stop_errno err ev, str_put (arrived ev) i, ev')"
  using assms
proof (induction rdbufsz ev i err rule: rduntil_loop.induct)
  case (1 rdbufsz ev i err)
  have n: "0 < unat (rdbufsz - 1)" using 1(3) by (rule unat_pred_pos)
  show ?case
  proof (cases "sys_read (unat (rdbufsz - 1)) ev")
    case (Pair r ev')
    show ?thesis
    proof (cases r)
      case (Inl e)
      then show ?thesis
        using 1 Pair arrived_fault [of e ev' "unat (rdbufsz - 1)" ev err]
        by (subst rduntil_loop.simps) (auto simp: str_put_Nil split: if_splits)
    next
      case (Inr got)
      show ?thesis
      proof (cases "got = []")
        case True
        then show ?thesis
          using 1 Pair Inr n arrived_end [of ev' "unat (rdbufsz - 1)" ev err]
          by (subst rduntil_loop.simps) (simp add: str_put_Nil)
      next
        case False
        have a: "arrived ev = got @ arrived ev' \<and> stop_errno err ev = stop_errno err ev'"
          using Pair Inr n False by (intro arrived_read) auto
        moreover have c: "c_string got = got" using a 1(5) by (intro c_string_id) auto
        ultimately have "\<exists>ev2. rduntil_loop rdbufsz ev' (str_put got i) err =
            (stop_errno err ev', str_put (arrived ev') (str_put got i), ev2)"
          using 1(2) [OF Pair [symmetric] Inr False] 1(3,4,5) by simp
        then show ?thesis
          using 1(4) Pair Inr False a c
          by (subst rduntil_loop.simps) (simp add: str_put_put)
      qed
    qed
  qed
qed

lemma rduntil_n_arrived:
  assumes "1 < rdbufsz" and "NUL \<notin> set (arrived ev)" and "length (arrived ev) \<le> unat tord"
  shows "\<exists>ev'. rduntil_n rdbufsz ev s tord err =
    (let left = tord - of_nat (length (arrived ev)) in
      (if left = 0 then E0 else stop_errno err ev, s @ arrived ev, left, ev'))"
  using assms
proof (induction rdbufsz ev s tord err rule: rduntil_n.induct)
  case (1 rdbufsz ev s tord err)
  have n: "0 < unat (rdbufsz - 1)" using 1(3) by (rule unat_pred_pos)
  show ?case
  proof (cases "tord = 0")
    case True
    then show ?thesis using 1(5) by (subst rduntil_n.simps) simp
  next
    case pos: False
    obtain r ev' where p: "sys_read (unat (rdbufsz - 1)) ev = (r, ev')" by fastforce
    show ?thesis
    proof (cases r)
      case (Inl e)
      note af = arrived_fault [of e ev' "unat (rdbufsz - 1)" ev err]
      show ?thesis
      proof (cases "e = EINTR")
        case True
        then have a: "arrived ev = arrived ev'" "stop_errno err ev = stop_errno e ev'"
          using af p Inl by simp_all
        then obtain ev2 where "rduntil_n rdbufsz ev' s tord e =
          (let left = tord - of_nat (length (arrived ev')) in
            (if left = 0 then E0 else stop_errno e ev', s @ arrived ev', left, ev2))"
          using 1(1) [OF pos p [symmetric] Inl True] 1(3,4,5) by auto
        with True a pos p Inl show ?thesis by (subst rduntil_n.simps) simp
      next
        case False
        then show ?thesis using pos p Inl af by (subst rduntil_n.simps) simp
      qed
    next
      case (Inr got)
      show ?thesis
      proof (cases "got = []")
        case True
        then show ?thesis
          using pos p Inr n arrived_end [of ev' "unat (rdbufsz - 1)" ev err]
          by (subst rduntil_n.simps) simp
      next
        case False
        have a: "arrived ev = got @ arrived ev'" "stop_errno err ev = stop_errno err ev'"
          using arrived_read [of got ev' _ ev err] p Inr n False by metis+
        have c: "c_string got = got" using a(1) 1(4) by (intro c_string_id) auto
        have l: "unat (tord - of_nat (length got)) = unat tord - length got"
          using a(1) 1(5) by (intro unat_diff_of_nat) simp
        have nul: "NUL \<notin> set (arrived ev')" using a(1) 1(4) by simp
        have len: "length (arrived ev') \<le> unat tord - length got" using a(1) 1(5) by simp
        obtain ev2 where "rduntil_n rdbufsz ev' (s @ got) (tord - of_nat (length got)) err =
          (let left = tord - of_nat (length got) - of_nat (length (arrived ev')) in
            (if left = 0 then E0 else stop_errno err ev', (s @ got) @ arrived ev', left, ev2))"
          using 1(2) [OF pos p [symmetric] Inr False 1(3), unfolded c l, OF nul len] by blast
        then show ?thesis
          using pos p Inr False a c
          by (subst rduntil_n.simps) (simp add: Let_def algebra_simps)
      qed
    qed
  qed
qed

lemma wruntil_room:
  assumes "unat towrite \<le> length outbuf"
  shows "\<exists>r ev'. let k = min (unat towrite) (room ev) in
    wruntil ev outbuf towrite err sent =
      (r, drop k outbuf, towrite - of_nat k, sent @ take k outbuf, ev') \<and>
    (k = unat towrite \<longrightarrow> r = E0)"
  using assms
proof (induction ev outbuf towrite err sent rule: wruntil.induct)
  case (1 ev outbuf towrite err sent)
  show ?case
  proof (cases "towrite = 0")
    case True
    then show ?thesis by (subst wruntil.simps) simp
  next
    case pos: False
    let ?b = "take (unat towrite) outbuf"
    have b: "?b \<noteq> []" "length ?b = unat towrite"
      using pos 1(3) by (auto simp: unat_eq_0)
    obtain r ev' where p: "sys_write ?b ev = (r, ev')" by fastforce
    show ?thesis
    proof (cases r)
      case (Inl e)
      have "e = EINTR \<Longrightarrow> ?thesis"
        using 1(1) [OF pos p [symmetric] Inl] 1(3) pos p Inl room_fault [of e ev' ?b ev]
        by (subst wruntil.simps) simp
      moreover have "e \<noteq> EINTR \<Longrightarrow> ?thesis"
        using pos p Inl room_fault [of e ev' ?b ev]
        by (subst wruntil.simps) (simp add: unat_eq_0)
      ultimately show ?thesis by blast
    next
      case (Inr n)
      have rw: "if n = 0 then room ev = 0
        else n \<le> unat towrite \<and> min (unat towrite) (room ev) = n + min (unat towrite - n) (room ev')"
        using room_write [of n ev' ?b ev, unfolded b(2)] p Inr b(1) by simp
      show ?thesis
      proof (cases "n = 0")
        case True
        then show ?thesis using pos p Inr rw by (subst wruntil.simps) (simp add: unat_eq_0)
      next
        case False
        have l: "unat (towrite - of_nat n) = unat towrite - n"
          using rw False by (intro unat_diff_of_nat) simp
        have le: "unat towrite - n \<le> length (drop n outbuf)" using 1(3) by simp
        let ?k = "min (unat towrite - n) (room ev')"
        obtain r2 ev2 where ih: "wruntil ev' (drop n outbuf) (towrite - of_nat n) err (sent @ take n outbuf) =
            (r2, drop ?k (drop n outbuf), towrite - of_nat n - of_nat ?k,
              (sent @ take n outbuf) @ take ?k (drop n outbuf), ev2)"
            "?k = unat towrite - n \<longrightarrow> r2 = E0"
          using 1(2) [OF pos p [symmetric] Inr] False le unfolding l Let_def by blast
        have m: "min (unat towrite) (room ev) = n + ?k" using rw False by simp
        have "sent @ take n outbuf @ take ?k (drop n outbuf) = sent @ take (n + ?k) outbuf"
          by (simp add: take_add)
        then show ?thesis
          using ih pos p Inr False rw unfolding m
          by (subst wruntil.simps) (auto simp: Let_def drop_drop add.commute algebra_simps)
      qed
    qed
  qed
qed

section \<open>Properties\<close>

text \<open>Reading until the connection pauses appends to the input buffer exactly the bytes that have
  arrived, in order, whatever the sizes in which the kernel delivers them and however often the calls
  are interrupted, and reports the \<open>errno\<close> of the pause; bytes after a NUL are the exception. When the
  peer has closed the connection it reports 0, or \<open>EINTR\<close> if a call was interrupted before.\<close>

theorem rduntil_arrived:
  assumes "1 < rdbufsz" and "good i" and "NUL \<notin> set (arrived ev)"
  shows "(\<exists>ev'. rduntil rdbufsz ev i = (stop_errno E0 ev, str_put (arrived ev) i, ev')) \<and>
    fst (rduntil rdbufsz (Fault EINTR # Eof # ev) i) = EINTR \<and>
    fst (rduntil rdbufsz (Eof # ev) i) = E0"
  using rduntil_loop_arrived [OF assms, of E0] rduntil_loop_arrived [OF assms(1,2), of "Eof # ev" E0]
    rduntil_loop_arrived [OF assms(1,2), of "Fault EINTR # Eof # ev" E0]
  by (auto simp: rduntil_def)

theorem rduntil_arrived_witness:
  "\<exists>ev'. rduntil 4 [Data ''GET / HT'', Fault EINTR, Data ''TP''] (str_new ''a'') =
    (EAGAIN, str_put ''GET / HTTP'' (str_new ''a''), ev')"
  using rduntil_arrived [of 4 "str_new ''a''" "[Data ''GET / HT'', Fault EINTR, Data ''TP'']"] by simp

text \<open>Reading a body of known length: as long as no more than the missing bytes arrive, the body
  gets exactly them and the count goes down by their number, the result being 0 exactly when
  nothing is missing any more (or when \<open>errno\<close> is 0 at the end of the stream). When the peer sends more than that in one piece, the
  unsigned count wraps around to a huge number, the extra bytes are in the body, and the
  loop goes on to ask for more.\<close>

theorem rduntil_body:
  assumes "1 < rdbufsz" and "NUL \<notin> set (arrived ev)" and "NUL \<notin> set extra"
    and "length (arrived ev) \<le> unat tord" and "unat tord < length extra"
    and "length extra \<le> unat (rdbufsz - 1)" and "tord \<noteq> 0"
  shows "(\<exists>ev'. rduntil_n rdbufsz ev s tord err =
      (if length (arrived ev) = unat tord then E0 else stop_errno err ev, s @ arrived ev,
       tord - of_nat (length (arrived ev)), ev')) \<and>
    (let left = tord - of_nat (length extra) in
      rduntil_n rdbufsz [Data extra] s tord err = (EAGAIN, s @ extra, left, []) \<and>
      unat left = 2 ^ 64 + unat tord - length extra)"
proof
  have "unat (tord - of_nat (length (arrived ev))) = unat tord - length (arrived ev)"
    using assms(4) by (rule unat_diff_of_nat)
  then have "tord - of_nat (length (arrived ev)) = 0 \<longleftrightarrow> length (arrived ev) = unat tord"
    using assms(4) by (metis unat_eq_0 diff_is_0_eq diff_self_eq_0 le_antisym)
  then show "\<exists>ev'. rduntil_n rdbufsz ev s tord err =
      (if length (arrived ev) = unat tord then E0 else stop_errno err ev, s @ arrived ev,
       tord - of_nat (length (arrived ev)), ev')"
    using rduntil_n_arrived [OF assms(1,2,4), of s err] unfolding Let_def by simp
  let ?left = "tord - of_nat (length extra)"
  have ne: "extra \<noteq> []" using assms(5) by auto
  have "unat (rdbufsz - 1) < 2 ^ LENGTH(64)" by (rule unsigned_less)
  then have lt: "length extra < 2 ^ 64" using assms(6) by simp
  then have "unat (of_nat (length extra) :: size_t) = length extra"
    by (simp add: unsigned_of_nat take_bit_nat_eq_self)
  then have u: "unat ?left = 2 ^ 64 + unat tord - length extra"
    using assms(5) by (simp add: unat_sub_if' word_size)
  then have "unat ?left \<noteq> 0" using lt by simp
  then have "?left \<noteq> 0" by auto
  moreover have "rduntil_n rdbufsz [] s' ?left err = (EAGAIN, s', ?left, [])" if "?left \<noteq> 0" for s'
    using that by (subst rduntil_n.simps) simp
  ultimately have "rduntil_n rdbufsz [Data extra] s tord err = (EAGAIN, s @ extra, ?left, [])"
    using assms(3,6,7) ne by (subst rduntil_n.simps) (simp add: c_string_id)
  with u show "let left = ?left in
      rduntil_n rdbufsz [Data extra] s tord err = (EAGAIN, s @ extra, left, []) \<and>
      unat left = 2 ^ 64 + unat tord - length extra" by simp
qed

theorem rduntil_body_witness:
  "\<exists>ev'. rduntil_n 4096 [Data ''ab'', Fault EINTR, Data ''c''] ''x'' 3 E0 = (E0, ''xabc'', 0, ev') \<and>
    rduntil_n 4096 [Data ''abcd''] ''x'' 3 E0 = (EAGAIN, ''xabcd'', - 1, [])"
  using rduntil_body [of 4096 "[Data ''ab'', Fault EINTR, Data ''c'']" "''abcd''" 3 "''x''" E0]
  by (simp add: Let_def)

text \<open>Writing sends a contiguous piece of the buffer: as many bytes as there is room for, from the
  pointer on, nothing twice and nothing left out, and afterwards pointer and count stand for
  exactly what is left, so that the next call continues there. Once everything is sent the
  result is 0.\<close>

theorem wruntil_exact:
  assumes "unat towrite \<le> length outbuf"
  shows "\<exists>r ev'. let k = min (unat towrite) (room ev); left = towrite - of_nat k in
    wruntil ev outbuf towrite err sent = (r, drop k outbuf, left, sent @ take k outbuf, ev') \<and>
    unat left = unat towrite - k \<and> unat left \<le> length (drop k outbuf) \<and>
    (unat towrite \<le> room ev \<longrightarrow> r = E0 \<and> left = 0)"
proof -
  let ?k = "min (unat towrite) (room ev)"
  have u: "unat (towrite - of_nat ?k) = unat towrite - ?k" by (rule unat_diff_of_nat) simp
  moreover have "unat towrite \<le> room ev \<Longrightarrow> towrite - of_nat ?k = 0"
    using u by (metis diff_self_eq_0 min.absorb1 unat_eq_0)
  ultimately show ?thesis
    using wruntil_room [OF assms, of ev err sent] assms by (auto simp: Let_def min_def)
qed

theorem wruntil_exact_witness:
  "\<exists>r ev'. wruntil [Room 2, WFault EINTR, Room 1] ''hello'' 5 E0 [] = (r, ''lo'', 2, ''hel'', ev')"
  using wruntil_exact [of 5 "''hello''" "[Room 2, WFault EINTR, Room 1]" E0 "[]"]
  by (auto simp: Let_def)

end
