(* ===== verification/Cache.thy ===== *)
theory Cache
  imports Prelude "HOL-Library.Multiset"
begin

text \<open>
  \<open>Cache.hpp\<close>: the reference-counted cache. The critical sections (what the code does between
  taking and releasing one of its two locks) and the atomic instructions outside them are
  functions on the cache; the operations are put together from them twice, once for a single
  thread as functions, and once for any number of threads as a step relation in which the
  sections of different threads interleave.
\<close>

section \<open>State\<close>

text \<open>
  \<open>_Stuff\<close>. The identity of the object, \<open>eid\<close>, stands for its address; \<open>freed\<close> lists the
  deleted objects and \<open>next_id\<close> is the next address, none of which the code reads.
\<close>

record 's entry =
  stuff :: 's
  refcnt :: int
  invalid :: bool
  esz :: size_t
  eid :: nat

record ('h, 's) cache =
  table :: "'h \<Rightarrow> 's entry option"
  toevict :: "'h list"
  cur :: size_t
  cmax :: size_t
  freed :: "nat list"
  next_id :: nat

definition cache_new :: "size_t \<Rightarrow> ('h, 's) cache" where
  "cache_new mx = \<lparr>table = (\<lambda>_. None), toevict = [], cur = 0, cmax = mx, freed = [], next_id = 0\<rparr>"

section \<open>Critical sections\<close>

text \<open>\<open>get\<close>, under the read lock.\<close>

definition cs_get :: "'h \<Rightarrow> ('h, 's) cache \<Rightarrow> 's entry option \<times> ('h, 's) cache" where
  "cs_get h c =
     (case table c h of
        None \<Rightarrow> (None, c)
      | Some e \<Rightarrow> (Some e, c\<lparr>table := (table c)(h \<mapsto> e\<lparr>refcnt := refcnt e + 1\<rparr>)\<rparr>))"

text \<open>\<open>unget\<close>, under the read lock: \<open>(doenq, doevict)\<close>.\<close>

definition cs_unget :: "'h \<Rightarrow> ('h, 's) cache \<Rightarrow> (bool \<times> bool) \<times> ('h, 's) cache" where
  "cs_unget h c =
     (case table c h of
        None \<Rightarrow> ((False, False), c)
      | Some e \<Rightarrow>
          let e' = e\<lparr>refcnt := refcnt e - 1\<rparr>; doenq = (refcnt e' = 0) in
          ((doenq, doenq \<and> invalid e'), c\<lparr>table := (table c)(h \<mapsto> e')\<rparr>))"

text \<open>\<open>toevict.insert(h)\<close> and \<open>toevict.begin()\<close> with \<open>erase\<close>, under the eviction lock. The list
  is the set in the order of its iterator.\<close>

definition cs_enq :: "'h \<Rightarrow> ('h, 's) cache \<Rightarrow> ('h, 's) cache" where
  "cs_enq h c = c\<lparr>toevict := List.insert h (toevict c)\<rparr>"

definition cs_pop :: "'h \<Rightarrow> ('h, 's) cache \<Rightarrow> ('h, 's) cache" where
  "cs_pop h c = c\<lparr>toevict := removeAll h (toevict c)\<rparr>"

text \<open>The two lookups of \<open>put\<close>, the second with the insertion under the write lock.\<close>

definition cs_already :: "'h \<Rightarrow> ('h, 's) cache \<Rightarrow> bool" where
  "cs_already h c \<longleftrightarrow> table c h \<noteq> None"

definition stuff_new :: "'s \<Rightarrow> size_t \<Rightarrow> ('h, 's) cache \<Rightarrow> 's entry \<times> ('h, 's) cache" where
  "stuff_new s sz c =
     (\<lparr>stuff = s, refcnt = 1, invalid = False, esz = sz, eid = next_id c\<rparr>,
      c\<lparr>next_id := next_id c + 1\<rparr>)"

definition cs_insert :: "'h \<Rightarrow> 's entry \<Rightarrow> ('h, 's) cache \<Rightarrow> bool \<times> ('h, 's) cache" where
  "cs_insert h e c =
     (if cs_already h c then (False, c) else (True, c\<lparr>table := (table c)(h \<mapsto> e)\<rparr>))"

text \<open>The atomic additions to and subtractions from \<open>cur\<close>; the first tells whether the sum is
  beyond the limit.\<close>

definition cs_reserve :: "size_t \<Rightarrow> ('h, 's) cache \<Rightarrow> bool \<times> ('h, 's) cache" where
  "cs_reserve sz c = (cur c + sz > cmax c, c\<lparr>cur := cur c + sz\<rparr>)"

definition cs_release :: "size_t \<Rightarrow> ('h, 's) cache \<Rightarrow> ('h, 's) cache" where
  "cs_release sz c = c\<lparr>cur := cur c - sz\<rparr>"

text \<open>\<open>evict(h)\<close>, under the write lock.\<close>

definition cs_evict :: "'h \<Rightarrow> ('h, 's) cache \<Rightarrow> bool \<times> ('h, 's) cache" where
  "cs_evict h c =
     (case table c h of
        Some e \<Rightarrow>
          if refcnt e = 0
          then (True, (cs_release (esz e) c)\<lparr>table := (table c)(h := None), freed := eid e # freed c\<rparr>)
          else (False, c)
      | None \<Rightarrow> (False, c))"

text \<open>\<open>flush\<close>, under the write lock: \<open>hs\<close> are the handles in the order of the iterator.\<close>

definition cs_flush :: "'h list \<Rightarrow> ('h, 's) cache \<Rightarrow> ('h, 's) cache" where
  "cs_flush hs c =
     c\<lparr>freed := map (\<lambda>h. eid (the (table c h))) hs @ freed c, cur := 0, table := (\<lambda>_. None)\<rparr>"

text \<open>\<open>advise_evict\<close>, under the read lock.\<close>

definition cs_advise :: "'h \<Rightarrow> ('h, 's) cache \<Rightarrow> ('h, 's) cache" where
  "cs_advise h c =
     (case table c h of
        None \<Rightarrow> c
      | Some e \<Rightarrow> c\<lparr>table := (table c)(h \<mapsto> e\<lparr>invalid := True\<rparr>)\<rparr>)"

section \<open>The operations of a single thread\<close>

definition cache_get :: "'h \<Rightarrow> ('h, 's) cache \<Rightarrow> 's option \<times> ('h, 's) cache" where
  "cache_get h c = (let (r, c') = cs_get h c in (map_option stuff r, c'))"

definition cache_unget :: "'h \<Rightarrow> ('h, 's) cache \<Rightarrow> ('h, 's) cache" where
  "cache_unget h c =
     (let ((doenq, doevict), c1) = cs_unget h c in
      if doenq then
        if doevict then
          let (ev, c2) = cs_evict h c1 in if ev then c2 else cs_enq h c2
        else cs_enq h c1
      else c1)"

text \<open>\<open>evict()\<close>: candidates are taken out of \<open>toevict\<close> until one can be evicted.\<close>

lemma cs_simps [simp]:
  "toevict (cs_release sz c) = toevict c" "table (cs_release sz c) = table c"
  "cmax (cs_release sz c) = cmax c" "freed (cs_release sz c) = freed c"
  "next_id (cs_release sz c) = next_id c" "toevict (snd (cs_evict h c)) = toevict c"
  "cmax (snd (cs_evict h c)) = cmax c" "cmax (cs_pop h c) = cmax c"
  "toevict (cs_pop h c) = removeAll h (toevict c)" "table (cs_pop h c) = table c"
  by (auto simp: cs_release_def cs_evict_def cs_pop_def split: option.split)

function evict_any :: "('h, 's) cache \<Rightarrow> bool \<times> ('h, 's) cache" where
  "evict_any c =
     (case toevict c of
        [] \<Rightarrow> (False, c)
      | h # _ \<Rightarrow>
          let (ev, c') = cs_evict h (cs_pop h c) in
          if ev then (True, c') else evict_any c')"
  by pat_completeness auto

lemma evict_pop_less:
  "toevict c = h # hs \<Longrightarrow> length (toevict (snd (cs_evict h (cs_pop h c)))) < length (toevict c)"
  by (simp add: less_Suc_eq_le)

termination evict_any
  by (relation "measure (\<lambda>c. length (toevict c))") (simp, metis evict_pop_less in_measure snd_conv)

declare evict_any.simps [simp del]

lemma evict_any_less:
  "evict_any c = (ev, c') \<Longrightarrow>
     length (toevict c') \<le> length (toevict c) \<and> (ev \<longrightarrow> length (toevict c') < length (toevict c))"
proof (induction c arbitrary: ev c' rule: evict_any.induct)
  case (1 c)
  show ?case
  proof (cases "toevict c")
    case Nil
    then show ?thesis using 1(2) by (subst (asm) evict_any.simps) simp
  next
    case (Cons h hs)
    obtain b c1 where e: "cs_evict h (cs_pop h c) = (b, c1)" by fastforce
    have l: "length (toevict c1) < length (toevict c)" using evict_pop_less [OF Cons] e by simp
    show ?thesis
    proof (cases b)
      case True
      then show ?thesis using 1(2) Cons e l by (subst (asm) evict_any.simps) simp
    next
      case False
      then have "evict_any c1 = (ev, c')"
        using 1(2) Cons e by (subst (asm) evict_any.simps) simp
      then show ?thesis using 1(1) [OF Cons e [symmetric] refl False] l by fastforce
    qed
  qed
qed

text \<open>The part of \<open>put\<close> from the label \<open>put_tryagain\<close> on; \<open>mem\<close> tells whether the allocation
  succeeds.\<close>

function put_tryagain :: "bool \<Rightarrow> 'h \<Rightarrow> 's \<Rightarrow> size_t \<Rightarrow> ('h, 's) cache \<Rightarrow> bool \<times> ('h, 's) cache" where
  "put_tryagain mem h s sz c =
     (let (full, c1) = cs_reserve sz c in
      if full then
        let (ev, c2) = evict_any (cs_release sz c1) in
        if ev then put_tryagain mem h s sz c2 else (False, c2)
      else if \<not> mem then (False, cs_release sz c1)
      else let (e, c2) = stuff_new s sz c1 in cs_insert h e c2)"
  by pat_completeness auto

termination put_tryagain
  by (relation "measure (\<lambda>(m, h, s, sz, c). length (toevict c))")
    (auto simp: cs_reserve_def cs_release_def dest!: sym [of _ "evict_any _"] evict_any_less)

declare put_tryagain.simps [simp del]

definition cache_put :: "bool \<Rightarrow> 'h \<Rightarrow> 's \<Rightarrow> size_t \<Rightarrow> ('h, 's) cache \<Rightarrow> bool \<times> ('h, 's) cache" where
  "cache_put mem h s sz c =
     (if sz > cmax c then (False, c)
      else if cs_already h c then (False, c)
      else put_tryagain mem h s sz c)"

section \<open>Many threads\<close>

text \<open>Where a thread is between two critical sections; \<open>Idle\<close> is outside the cache.\<close>

datatype ('h, 's) pc =
  Idle
| PutReserve 'h 's size_t
| PutUndo 'h 's size_t
| PutEvict 'h 's size_t
| PutEvicting 'h 's size_t 'h
| PutAlloc 'h 's size_t
| PutInsert 'h "'s entry"
| UngetEvict 'h
| UngetEnq 'h

text \<open>
  A configuration: the cache, the program counters, and for the specification the references
  the clients hold (from a successful \<open>get\<close> or \<open>put\<close> to the corresponding \<open>unget\<close>),
  the bytes reserved for entries that were lost, and whether the cache was ever flushed.
\<close>

record ('h, 's) conf =
  shared :: "('h, 's) cache"
  pcs :: "('h, 's) pc list"
  held :: "('h \<times> nat) multiset"
  leaked :: nat
  flushed :: bool

definition goto :: "nat \<Rightarrow> ('h, 's) pc \<Rightarrow> ('h, 's) cache \<Rightarrow> ('h, 's) conf \<Rightarrow> ('h, 's) conf" where
  "goto i p s c = c\<lparr>shared := s, pcs := (pcs c)[i := p]\<rparr>"

text \<open>The thread \<open>i\<close> is at \<open>p\<close>.\<close>

definition at :: "nat \<Rightarrow> ('h, 's) pc \<Rightarrow> ('h, 's) conf \<Rightarrow> bool" where
  "at i p c \<longleftrightarrow> i < length (pcs c) \<and> pcs c ! i = p"

inductive cstep :: "('h, 's) conf \<Rightarrow> ('h, 's) conf \<Rightarrow> bool" where
  get_hit: "at i Idle c \<Longrightarrow> cs_get h (shared c) = (Some e, s) \<Longrightarrow>
    cstep c ((goto i Idle s c)\<lparr>held := add_mset (h, eid e) (held c)\<rparr>)"
| get_miss: "at i Idle c \<Longrightarrow> cs_get h (shared c) = (None, s) \<Longrightarrow> cstep c (goto i Idle s c)"
| unget: "at i Idle c \<Longrightarrow> (h, k) \<in># held c \<Longrightarrow>
    cs_unget h (shared c) = ((doenq, doevict), s) \<Longrightarrow>
    cstep c ((goto i (if doenq then if doevict then UngetEvict h else UngetEnq h else Idle) s c)
      \<lparr>held := held c - {#(h, k)#}\<rparr>)"
| unget_evict: "at i (UngetEvict h) c \<Longrightarrow> cs_evict h (shared c) = (ev, s) \<Longrightarrow>
    cstep c (goto i (if ev then Idle else UngetEnq h) s c)"
| unget_enq: "at i (UngetEnq h) c \<Longrightarrow> cstep c (goto i Idle (cs_enq h (shared c)) c)"
| put_refused: "at i Idle c \<Longrightarrow> sz > cmax (shared c) \<or> cs_already h (shared c) \<Longrightarrow>
    cstep c (goto i Idle (shared c) c)"
| put_start: "at i Idle c \<Longrightarrow> \<not> sz > cmax (shared c) \<Longrightarrow> \<not> cs_already h (shared c) \<Longrightarrow>
    cstep c (goto i (PutReserve h v sz) (shared c) c)"
| put_reserve: "at i (PutReserve h v sz) c \<Longrightarrow> cs_reserve sz (shared c) = (full, s) \<Longrightarrow>
    cstep c (goto i (if full then PutUndo h v sz else PutAlloc h v sz) s c)"
| put_undo: "at i (PutUndo h v sz) c \<Longrightarrow>
    cstep c (goto i (PutEvict h v sz) (cs_release sz (shared c)) c)"
| put_full: "at i (PutEvict h v sz) c \<Longrightarrow> toevict (shared c) = [] \<Longrightarrow>
    cstep c (goto i Idle (shared c) c)"
| put_pop: "at i (PutEvict h v sz) c \<Longrightarrow> g \<in> set (toevict (shared c)) \<Longrightarrow>
    cstep c (goto i (PutEvicting h v sz g) (cs_pop g (shared c)) c)"
| put_evict: "at i (PutEvicting h v sz g) c \<Longrightarrow> cs_evict g (shared c) = (ev, s) \<Longrightarrow>
    cstep c (goto i (if ev then PutReserve h v sz else PutEvict h v sz) s c)"
| put_nomem: "at i (PutAlloc h v sz) c \<Longrightarrow> cstep c (goto i Idle (cs_release sz (shared c)) c)"
| put_alloc: "at i (PutAlloc h v sz) c \<Longrightarrow> stuff_new v sz (shared c) = (e, s) \<Longrightarrow>
    cstep c (goto i (PutInsert h e) s c)"
| put_insert: "at i (PutInsert h e) c \<Longrightarrow> cs_insert h e (shared c) = (True, s) \<Longrightarrow>
    cstep c ((goto i Idle s c)\<lparr>held := add_mset (h, eid e) (held c)\<rparr>)"
| put_lost: "at i (PutInsert h e) c \<Longrightarrow> cs_insert h e (shared c) = (False, s) \<Longrightarrow>
    cstep c ((goto i Idle s c)\<lparr>leaked := leaked c + unat (esz e)\<rparr>)"
| advise: "at i Idle c \<Longrightarrow> cstep c (goto i Idle (cs_advise h (shared c)) c)"
| flush: "at i Idle c \<Longrightarrow> distinct hs \<Longrightarrow> set hs = dom (table (shared c)) \<Longrightarrow>
    cstep c ((goto i Idle (cs_flush hs (shared c)) c)\<lparr>flushed := True\<rparr>)"

definition cinit :: "nat \<Rightarrow> size_t \<Rightarrow> ('h, 's) conf" where
  "cinit n mx = \<lparr>shared = cache_new mx, pcs = replicate n Idle, held = {#}, leaked = 0, flushed = False\<rparr>"

inductive reach :: "nat \<Rightarrow> size_t \<Rightarrow> ('h, 's) conf \<Rightarrow> bool" for n mx where
  reach_init: "reach n mx (cinit n mx)"
| reach_step: "reach n mx c \<Longrightarrow> cstep c c' \<Longrightarrow> reach n mx c'"

inductive_cases reach_elim: "reach n mx c"
inductive_simps cstep_simps: "cstep c c'"

lemma goto_simps [simp]:
  "shared (goto i p s c) = s" "pcs (goto i p s c) = (pcs c)[i := p]" "held (goto i p s c) = held c"
  "leaked (goto i p s c) = leaked c" "flushed (goto i p s c) = flushed c"
  by (simp_all add: goto_def)

text \<open>A flushed cache stays marked.\<close>

lemma flushed_step: "cstep c c' \<Longrightarrow> \<not> flushed c' \<Longrightarrow> \<not> flushed c"
  by (induction rule: cstep.induct) auto

lemma at_goto:
  "at j q (goto i p s c) \<longleftrightarrow> j < length (pcs c) \<and> (if i = j then q = p else pcs c ! j = q)"
  by (auto simp: at_def nth_list_update)

lemma at_upd [simp]:
  "at j q (c\<lparr>held := H\<rparr>) = at j q c" "at j q (c\<lparr>leaked := l\<rparr>) = at j q c"
  "at j q (c\<lparr>flushed := f\<rparr>) = at j q c"
  by (simp_all add: at_def)

lemmas cs_defs = cs_get_def cs_unget_def cs_enq_def cs_pop_def cs_already_def stuff_new_def
  cs_insert_def cs_reserve_def cs_release_def cs_evict_def cs_flush_def cs_advise_def

section \<open>References\<close>

text \<open>The reference count of an entry is the number of references its clients hold, and each of
  them is to the entry that is in the table now. An entry about to be inserted counts the
  reference of the thread that puts it.\<close>

definition refs_of :: "('h \<times> nat) multiset \<Rightarrow> 'h \<Rightarrow> ('h \<times> nat) multiset" where
  "refs_of H h = filter_mset (\<lambda>p. fst p = h) H"

fun entry_refs :: "('h \<times> nat) multiset \<Rightarrow> 'h \<Rightarrow> 's entry option \<Rightarrow> bool" where
  "entry_refs R h None \<longleftrightarrow> R = {#}"
| "entry_refs R h (Some e) \<longleftrightarrow> 0 \<le> refcnt e \<and> R = replicate_mset (nat (refcnt e)) (h, eid e)"

definition table_refs :: "('h \<times> nat) multiset \<Rightarrow> ('h \<Rightarrow> 's entry option) \<Rightarrow> bool" where
  "table_refs H tb \<longleftrightarrow> (\<forall>h. entry_refs (refs_of H h) h (tb h))"

fun pc_refs :: "('h, 's) pc \<Rightarrow> bool" where
  "pc_refs (PutInsert h e) \<longleftrightarrow> refcnt e = 1"
| "pc_refs _ \<longleftrightarrow> True"

definition refs_ok :: "('h, 's) conf \<Rightarrow> bool" where
  "refs_ok c \<longleftrightarrow> table_refs (held c) (table (shared c)) \<and> list_all pc_refs (pcs c)"

lemma refs_of_simps [simp]:
  "refs_of (add_mset (h, k) H) h' = (if h = h' then add_mset (h, k) (refs_of H h') else refs_of H h')"
  "refs_of {#} h' = {#}"
  "refs_of (H - {#(h, k)#}) h' = (if h = h' then refs_of H h' - {#(h, k)#} else refs_of H h')"
  by (auto simp: refs_of_def)

lemma list_all_update: "list_all P xs \<Longrightarrow> P x \<Longrightarrow> list_all P (xs[i := x])"
  by (auto simp: list_all_iff dest: set_update_subset_insert [THEN subsetD])

lemma at_all: "at i p c \<Longrightarrow> list_all P (pcs c) \<Longrightarrow> P p"
  by (auto simp: at_def list_all_iff)

lemma table_refs_upd:
  assumes "table_refs H tb" and "\<forall>h'. h' \<noteq> h \<longrightarrow> refs_of H' h' = refs_of H h'"
    and "entry_refs (refs_of H' h) h oe"
  shows "table_refs H' (tb(h := oe))"
  using assms by (simp add: table_refs_def)

lemma table_refs_at: "table_refs H tb \<Longrightarrow> entry_refs (refs_of H h) h (tb h)"
  by (simp add: table_refs_def)

lemma table_refs_held:
  assumes "table_refs H tb" and "(h, k) \<in># H"
  shows "\<exists>e. tb h = Some e \<and> eid e = k \<and> 0 < refcnt e"
proof -
  have m: "(h, k) \<in># refs_of H h" using assms(2) by (simp add: refs_of_def)
  then show ?thesis using table_refs_at [OF assms(1), of h] by (cases "tb h") (auto split: if_splits)
qed

text \<open>What each section does to the references.\<close>

lemma refs_get:
  assumes "table_refs H (table c)" and "cs_get h c = (r, c')"
  shows "table_refs (case r of None \<Rightarrow> H | Some e \<Rightarrow> add_mset (h, eid e) H) (table c')"
proof (cases "table c h")
  case None
  with assms show ?thesis by (auto simp: cs_get_def)
next
  case (Some e)
  have "entry_refs (add_mset (h, eid e) (refs_of H h)) h (Some (e\<lparr>refcnt := refcnt e + 1\<rparr>))"
    using table_refs_at [OF assms(1), of h] Some by (simp add: nat_add_distrib)
  moreover have "r = Some e" "table c' = (table c)(h \<mapsto> e\<lparr>refcnt := refcnt e + 1\<rparr>)"
    using assms(2) Some by (auto simp: cs_get_def)
  ultimately show ?thesis using assms(1) by (simp add: table_refs_upd [where H = H])
qed

lemma refs_unget:
  assumes "table_refs H (table c)" and "cs_unget h c = (r, c')" and "(h, k) \<in># H"
  shows "table_refs (H - {#(h, k)#}) (table c')"
proof -
  obtain e where e: "table c h = Some e" "eid e = k" "0 < refcnt e"
    using table_refs_held [OF assms(1,3)] by blast
  then have "refs_of H h = replicate_mset (nat (refcnt e)) (h, k)"
    using table_refs_at [OF assms(1), of h] by simp
  moreover have "nat (refcnt e) = Suc (nat (refcnt e - 1))" using e(3) by simp
  ultimately have "entry_refs (refs_of H h - {#(h, k)#}) h (Some (e\<lparr>refcnt := refcnt e - 1\<rparr>))"
    using e by simp
  with assms e show ?thesis
    by (auto simp: cs_unget_def Let_def intro!: table_refs_upd [where H = H])
qed

lemma refs_evict:
  assumes "table_refs H (table c)" and "cs_evict h c = (ev, c')"
  shows "table_refs H (table c')"
proof -
  have "table_refs H ((table c)(h := None))" if "table c h = Some e" "refcnt e = 0" for e
    using assms(1) table_refs_at [OF assms(1), of h] that by (intro table_refs_upd) auto
  then show ?thesis using assms by (auto simp: cs_evict_def split: option.splits if_splits)
qed

lemma refs_insert:
  assumes "table_refs H (table c)" and "cs_insert h e c = (True, c')" and "refcnt e = 1"
  shows "table_refs (add_mset (h, eid e) H) (table c')"
proof -
  have n: "table c h = None" and c': "table c' = (table c)(h \<mapsto> e)"
    using assms(2) by (auto simp: cs_insert_def cs_already_def split: if_splits)
  then have "refs_of H h = {#}" using table_refs_at [OF assms(1), of h] by simp
  with assms(1,3) show ?thesis unfolding c' by (intro table_refs_upd [where H = H]) auto
qed

lemma refs_advise:
  assumes "table_refs H (table c)"
  shows "table_refs H (table (cs_advise h c))"
proof (cases "table c h")
  case (Some e)
  then show ?thesis using assms table_refs_at [OF assms, of h]
    by (auto simp: cs_advise_def intro!: table_refs_upd [where H = H])
qed (use assms in \<open>simp add: cs_advise_def\<close>)

lemma cs_table:
  "table (cs_enq h c) = table c" "table (cs_pop h c) = table c" "table (cs_release sz c) = table c"
  "table (snd (cs_reserve sz c)) = table c" "table (snd (stuff_new s sz c)) = table c"
  "refcnt (fst (stuff_new s sz c)) = 1" "cs_insert h e c = (False, c') \<Longrightarrow> c' = c"
  by (auto simp: cs_enq_def cs_pop_def cs_release_def cs_reserve_def stuff_new_def cs_insert_def
      split: if_splits)

lemmas at_refs = at_all [where P = pc_refs, unfolded pc_refs.simps]

lemma refs_step:
  assumes "cstep c c'" and "refs_ok c" and "\<not> flushed c'"
  shows "refs_ok c'"
  using assms
proof (induction rule: cstep.induct)
  case (get_hit i c h e s)
  then show ?case using refs_get [of "held c" "shared c" h "Some e" s]
    by (simp add: refs_ok_def list_all_update)
next
  case (get_miss i c h s)
  then show ?case using refs_get [of "held c" "shared c" h None s]
    by (simp add: refs_ok_def list_all_update)
next
  case (unget i c h k doenq doevict s)
  then show ?case using refs_unget [of "held c" "shared c" h _ s k]
    by (simp add: refs_ok_def list_all_update)
next
  case (unget_evict i h c ev s)
  then show ?case using refs_evict [of "held c" "shared c" h ev s]
    by (simp add: refs_ok_def list_all_update)
next
  case (put_evict i h v sz g c ev s)
  then show ?case using refs_evict [of "held c" "shared c" g ev s]
    by (simp add: refs_ok_def list_all_update)
next
  case (put_reserve i h v sz c full s)
  then show ?case using cs_table(4) [of sz "shared c"] by (simp add: refs_ok_def list_all_update)
next
  case (put_alloc i h v sz c e s)
  then show ?case using cs_table(5,6) [of v sz "shared c"]
    by (simp add: refs_ok_def list_all_update)
next
  case (put_insert i h e c s)
  then show ?case
    using refs_insert [of "held c" "shared c" h e s] at_all [OF put_insert(1), of pc_refs]
    by (simp add: refs_ok_def list_all_update)
next
  case (advise i c h)
  then show ?case by (simp add: refs_ok_def list_all_update refs_advise)
next
  case (put_lost i h e c s)
  then show ?case using cs_table(7) [OF put_lost(2)] by (simp add: refs_ok_def list_all_update)
qed (auto simp: refs_ok_def list_all_update cs_table)

section \<open>Objects\<close>

text \<open>Every entry object is in one place: in the table under one handle, with the thread about to
  insert it, or deleted.\<close>

definition tab_id :: "('h, 's) cache \<Rightarrow> 'h \<Rightarrow> nat \<Rightarrow> bool" where
  "tab_id s h k \<longleftrightarrow> (case table s h of None \<Rightarrow> False | Some e \<Rightarrow> eid e = k)"

definition pend_id :: "('h, 's) conf \<Rightarrow> nat \<Rightarrow> nat \<Rightarrow> bool" where
  "pend_id c i k \<longleftrightarrow> i < length (pcs c) \<and>
     (case pcs c ! i of PutInsert h e \<Rightarrow> eid e = k | _ \<Rightarrow> False)"

definition ids_inv :: "('h \<Rightarrow> nat \<Rightarrow> bool) \<Rightarrow> (nat \<Rightarrow> nat \<Rightarrow> bool) \<Rightarrow> nat set \<Rightarrow> nat \<Rightarrow> bool" where
  "ids_inv tab pend fr nx \<longleftrightarrow>
     (\<forall>h k. tab h k \<longrightarrow> k < nx \<and> k \<notin> fr) \<and> (\<forall>h h' k. tab h k \<longrightarrow> tab h' k \<longrightarrow> h = h') \<and>
     (\<forall>k \<in> fr. k < nx) \<and>
     (\<forall>i k. pend i k \<longrightarrow> k < nx \<and> k \<notin> fr \<and> (\<forall>h. \<not> tab h k)) \<and>
     (\<forall>i j k. pend i k \<longrightarrow> pend j k \<longrightarrow> i = j)"

definition ids_ok :: "('h, 's) conf \<Rightarrow> bool" where
  "ids_ok c \<longleftrightarrow>
     ids_inv (tab_id (shared c)) (pend_id c) (set (freed (shared c))) (next_id (shared c))"

fun pc_id :: "('h, 's) pc \<Rightarrow> nat option" where
  "pc_id (PutInsert h e) = Some (eid e)"
| "pc_id _ = None"

lemma pend_goto:
  "i < length (pcs c) \<Longrightarrow>
     pend_id (goto i p s c) = (\<lambda>j k. if i = j then pc_id p = Some k else pend_id c j k)"
  by (cases p) (auto simp: pend_id_def fun_eq_iff)

lemma pend_upd [simp]:
  "pend_id (c\<lparr>held := H\<rparr>) = pend_id c" "pend_id (c\<lparr>leaked := l\<rparr>) = pend_id c"
  by (simp_all add: pend_id_def fun_eq_iff)

lemma ids_upd [simp]:
  "ids_ok (c\<lparr>held := H\<rparr>) = ids_ok c" "ids_ok (c\<lparr>leaked := l\<rparr>) = ids_ok c"
  by (simp_all add: ids_ok_def)

text \<open>Most steps leave the objects where they are.\<close>

lemma ids_same:
  assumes "ids_ok c" and "at i q c" and "pc_id p = None"
    and "\<And>h. map_option eid (table s h) = map_option eid (table (shared c) h)"
    and "freed s = freed (shared c)" and "next_id s = next_id (shared c)"
  shows "ids_ok (goto i p s c)"
proof -
  have "tab_id s = tab_id (shared c)"
    using assms(4) by (fastforce simp: tab_id_def fun_eq_iff map_option_case split: option.splits)
  moreover have "i < length (pcs c)" using assms(2) by (simp add: at_def)
  ultimately show ?thesis using assms(1,3,5,6)
    by (auto simp: ids_ok_def ids_inv_def pend_goto)
qed

lemma ids_evict:
  assumes "ids_ok c" and "at i q c" and "cs_evict h (shared c) = (ev, s)" and "pc_id p = None"
  shows "ids_ok (goto i p s c)"
proof (cases ev)
  case False
  then have "s = shared c" using assms(3) by (auto simp: cs_evict_def split: option.splits if_splits)
  then show ?thesis using assms by (intro ids_same) auto
next
  case True
  then obtain e where e: "table (shared c) h = Some e"
    and s: "table s = (table (shared c))(h := None)" "freed s = eid e # freed (shared c)"
      "next_id s = next_id (shared c)"
    using assms(3)
    by (auto simp: cs_evict_def cs_release_def split: option.splits if_splits)
  have t: "tab_id s = (\<lambda>h' k. h' \<noteq> h \<and> tab_id (shared c) h' k)" "tab_id (shared c) h (eid e)"
    using e s(1) by (auto simp: tab_id_def fun_eq_iff)
  have "i < length (pcs c)" using assms(2) by (simp add: at_def)
  then show ?thesis
    using assms(1,4) t s(2,3) unfolding ids_ok_def ids_inv_def
    by (auto simp: pend_goto)
qed

lemma ids_step:
  assumes "cstep c c'" and "ids_ok c" and "\<not> flushed c'"
  shows "ids_ok c'"
  using assms
proof (induction rule: cstep.induct)
  case (unget_evict i h c ev s)
  then show ?case by (intro ids_evict) auto
next
  case (put_evict i h v sz g c ev s)
  then show ?case by (intro ids_evict) auto
next
  case (put_alloc i h v sz c e s)
  then have s: "tab_id s = tab_id (shared c)" "freed s = freed (shared c)"
      "next_id s = Suc (next_id (shared c))" "eid e = next_id (shared c)"
    by (auto simp: stuff_new_def tab_id_def fun_eq_iff)
  have "i < length (pcs c)" using put_alloc(1) by (simp add: at_def)
  then show ?case
    using put_alloc(3) s unfolding ids_ok_def ids_inv_def
    by (auto simp: pend_goto less_Suc_eq)
next
  case (put_insert i h e c s)
  then have s: "table s = (table (shared c))(h \<mapsto> e)" "freed s = freed (shared c)"
      "next_id s = next_id (shared c)" "table (shared c) h = None"
    by (auto simp: cs_insert_def cs_already_def split: if_splits)
  have t: "tab_id s = (\<lambda>h' k. if h' = h then k = eid e else tab_id (shared c) h' k)"
    using s(1) by (auto simp: tab_id_def fun_eq_iff)
  have i: "i < length (pcs c)" "pend_id c i (eid e)"
    using put_insert(1) by (simp_all add: at_def pend_id_def)
  then show ?case
    using put_insert(3) s(2,3) t unfolding ids_upd ids_ok_def ids_inv_def
    by (auto simp: pend_goto split: if_splits)
qed (auto simp: cs_defs Let_def split: option.splits if_splits intro!: ids_same)

section \<open>Accounting\<close>

definition used :: "('h \<Rightarrow> 's entry option) \<Rightarrow> nat" where
  "used tb = (\<Sum>h \<in> dom tb. unat (esz (the (tb h))))"

text \<open>What a thread has added to \<open>cur\<close> for an entry that is not in the table: in any case, and
  with the limit respected.\<close>

fun resv :: "('h, 's) pc \<Rightarrow> nat" where
  "resv (PutUndo h v sz) = unat sz"
| "resv (PutAlloc h v sz) = unat sz"
| "resv (PutInsert h e) = unat (esz e)"
| "resv _ = 0"

fun granted :: "('h, 's) pc \<Rightarrow> nat" where
  "granted (PutAlloc h v sz) = unat sz"
| "granted (PutInsert h e) = unat (esz e)"
| "granted _ = 0"

fun pc_fits :: "nat \<Rightarrow> ('h, 's) pc \<Rightarrow> bool" where
  "pc_fits m (PutReserve h v sz) \<longleftrightarrow> unat sz \<le> m"
| "pc_fits m (PutUndo h v sz) \<longleftrightarrow> unat sz \<le> m"
| "pc_fits m (PutEvict h v sz) \<longleftrightarrow> unat sz \<le> m"
| "pc_fits m (PutEvicting h v sz g) \<longleftrightarrow> unat sz \<le> m"
| "pc_fits m _ \<longleftrightarrow> True"

definition total :: "(('h, 's) pc \<Rightarrow> nat) \<Rightarrow> ('h, 's) pc list \<Rightarrow> nat" where
  "total f ps = sum_list (map f ps)"

definition acct_ok :: "nat \<Rightarrow> size_t \<Rightarrow> ('h, 's) conf \<Rightarrow> bool" where
  "acct_ok n mx c \<longleftrightarrow>
     cmax (shared c) = mx \<and> length (pcs c) = n \<and> finite (dom (table (shared c))) \<and>
     list_all (pc_fits (unat mx)) (pcs c) \<and>
     unat (cur (shared c)) = used (table (shared c)) + total resv (pcs c) + leaked c \<and>
     used (table (shared c)) + total granted (pcs c) + leaked c \<le> unat mx"

lemma used_insert:
  "finite (dom tb) \<Longrightarrow> tb h = None \<Longrightarrow> used (tb(h \<mapsto> e)) = used tb + unat (esz e)"
proof -
  assume f: "finite (dom tb)" and n: "tb h = None"
  have "(\<Sum>x \<in> dom tb. unat (esz (the ((tb(h \<mapsto> e)) x)))) = (\<Sum>x \<in> dom tb. unat (esz (the (tb x))))"
    using n by (intro sum.cong) auto
  then show ?thesis using f n by (simp add: used_def domIff)
qed

lemma used_remove:
  "finite (dom tb) \<Longrightarrow> tb h = Some e \<Longrightarrow> used tb = used (tb(h := None)) + unat (esz e)"
  using used_insert [of "tb(h := None)" h e] by (simp add: fun_upd_idem)

lemma used_update:
  assumes "finite (dom tb)" and "tb h = Some e" and "esz e' = esz e"
  shows "used (tb(h \<mapsto> e')) = used tb"
  using used_remove [OF assms(1,2)] used_insert [of "tb(h := None)" h e'] assms by simp

lemma total_update:
  "at i q c \<Longrightarrow> total f ((pcs c)[i := p]) + f q = total f (pcs c) + f p"
proof -
  have "i < length ps \<Longrightarrow> total f (ps[i := p]) + f (ps ! i) = total f ps + f p" for ps
  proof (induction ps arbitrary: i)
    case (Cons a ps)
    then show ?case by (cases i) (simp_all add: total_def)
  qed simp
  then show "at i q c \<Longrightarrow> ?thesis" by (auto simp: at_def)
qed

lemma total_slack:
  assumes "list_all (\<lambda>p. f p \<le> g p + m) ps" and "i < length ps" and "f (ps ! i) = 0"
  shows "total f ps + m \<le> total g ps + length ps * m"
  using assms
proof (induction ps arbitrary: i)
  case (Cons a ps)
  have *: "list_all (\<lambda>p. f p \<le> g p + m) ps \<Longrightarrow> total f ps \<le> total g ps + length ps * m" for ps
    by (induction ps) (auto simp: total_def)
  show ?case
  proof (cases i)
    case 0
    then show ?thesis using Cons.prems * [of ps] by (simp add: total_def)
  next
    case (Suc j)
    then show ?thesis using Cons.IH [of j] Cons.prems by (simp add: total_def)
  qed
qed simp

text \<open>A sum of sizes that fits is computed without wrap-around.\<close>

lemma reserve_no_wrap:
  assumes "acct_ok n mx c" and "at i (PutReserve h v sz) c" and "(n + 1) * unat mx < 2 ^ 64"
  shows "unat (cur (shared c) + sz) = unat (cur (shared c)) + unat sz"
proof -
  have a: "unat (cur (shared c)) = used (table (shared c)) + total resv (pcs c) + leaked c"
    "used (table (shared c)) + total granted (pcs c) + leaked c \<le> unat mx"
    "list_all (pc_fits (unat mx)) (pcs c)" "length (pcs c) = n"
    using assms(1) unfolding acct_ok_def by blast+
  have "pc_fits (unat mx) p \<Longrightarrow> resv p \<le> granted p + unat mx" for p :: "('a, 'b) pc" by (cases p) auto
  then have "total resv (pcs c) + unat mx \<le> total granted (pcs c) + n * unat mx"
    using total_slack [of resv granted "unat mx" "pcs c" i] a(3,4) assms(2)
    by (simp add: at_def list_all_iff)
  moreover have "unat sz \<le> unat mx" using at_all [OF assms(2) a(3)] by simp
  moreover have "(n + 1) * unat mx = n * unat mx + unat mx" by simp
  ultimately have "unat (cur (shared c)) + unat sz < 2 ^ 64"
    using a(1,2) assms(3) by linarith
  then have "unat (cur (shared c)) + unat sz < 2 ^ LENGTH(64)" by simp
  then show ?thesis by (simp only: unat_add_lem)
qed

lemma goto_leaked: "goto i p s c = (goto i p s c)\<lparr>leaked := leaked c\<rparr>"
  by (simp add: goto_def)

text \<open>A step that leaves the table's sizes and \<open>cur\<close> alone and moves between program counters that
  reserve the same.\<close>

lemma acct_move:
  assumes "acct_ok n mx c" and "at i q c" and "used (table s) + granted p + l \<le> used (table (shared c)) + granted q + leaked c"
    and "cmax s = cmax (shared c)" and "finite (dom (table s))" and "pc_fits (unat mx) p"
    and "unat (cur s) + used (table (shared c)) + resv q + leaked c =
      unat (cur (shared c)) + used (table s) + resv p + l"
  shows "acct_ok n mx ((goto i p s c)\<lparr>leaked := l\<rparr>)"
proof -
  have a: "cmax (shared c) = mx" "length (pcs c) = n" "list_all (pc_fits (unat mx)) (pcs c)"
    "unat (cur (shared c)) = used (table (shared c)) + total resv (pcs c) + leaked c"
    "used (table (shared c)) + total granted (pcs c) + leaked c \<le> unat mx"
    using assms(1) unfolding acct_ok_def by blast+
  have r: "total resv ((pcs c)[i := p]) + resv q = total resv (pcs c) + resv p"
    and g: "total granted ((pcs c)[i := p]) + granted q = total granted (pcs c) + granted p"
    using total_update [OF assms(2)] by blast+
  have "unat (cur s) = used (table s) + total resv ((pcs c)[i := p]) + l"
    using a(4) r assms(7) by linarith
  moreover have "used (table s) + total granted ((pcs c)[i := p]) + l \<le> unat mx"
    using a(5) g assms(3) by linarith
  moreover have "list_all (pc_fits (unat mx)) ((pcs c)[i := p])"
    using a(3) assms(6) by (rule list_all_update)
  moreover have "cmax s = mx" using a(1) assms(4) by simp
  ultimately show ?thesis using a(2) assms(5) unfolding acct_ok_def
    by simp
qed

text \<open>The same for the steps that do not touch the table.\<close>

lemma acct_same:
  assumes "acct_ok n mx c" and "at i q c" and "used (table s) = used (table (shared c))"
    and "cmax s = cmax (shared c)" and "dom (table s) = dom (table (shared c))"
    and "pc_fits (unat mx) p" and "granted p \<le> granted q"
    and "unat (cur s) + resv q = unat (cur (shared c)) + resv p"
  shows "acct_ok n mx (goto i p s c)"
proof -
  have "finite (dom (table (shared c)))" using assms(1) by (simp add: acct_ok_def)
  then have "acct_ok n mx ((goto i p s c)\<lparr>leaked := leaked c\<rparr>)"
    using assms by (intro acct_move [OF assms(1,2)]) simp_all
  then show ?thesis by (simp flip: goto_leaked)
qed

lemma acct_evict:
  assumes "acct_ok n mx c" and "at i q c" and "cs_evict h (shared c) = (ev, s)"
    and "pc_fits (unat mx) p" and "granted p = 0" and "resv p = 0" and "resv q = 0"
  shows "acct_ok n mx (goto i p s c)"
proof (cases ev)
  case False
  then have "s = shared c" using assms(3) by (auto simp: cs_evict_def split: option.splits if_splits)
  then show ?thesis using assms by (intro acct_same [OF assms(1,2)]) auto
next
  case True
  then obtain e where e: "table (shared c) h = Some e"
    and s: "table s = (table (shared c))(h := None)" "cur s = cur (shared c) - esz e"
      "cmax s = cmax (shared c)"
    using assms(3)
    by (auto simp: cs_evict_def cs_release_def split: option.splits if_splits)
  have f: "finite (dom (table (shared c)))"
    and a: "unat (cur (shared c)) = used (table (shared c)) + total resv (pcs c) + leaked c"
    using assms(1) by (auto simp: acct_ok_def)
  have u: "used (table (shared c)) = used (table s) + unat (esz e)"
    using used_remove [OF f e] s(1) by simp
  have "esz e \<le> cur (shared c)" using a u by (simp add: word_le_nat_alt)
  then have "unat (cur s) = unat (cur (shared c)) - unat (esz e)" using s(2) by (simp add: unat_sub)
  then have "acct_ok n mx ((goto i p s c)\<lparr>leaked := leaked c\<rparr>)"
    using assms u a s f by (intro acct_move [OF assms(1,2)]) simp_all
  then show ?thesis by (simp flip: goto_leaked)
qed

lemma acct_upd [simp]: "acct_ok n mx (c\<lparr>held := H\<rparr>) = acct_ok n mx c"
  by (simp add: acct_ok_def)

lemma table_upd_same:
  assumes "finite (dom tb)" and "tb h = Some e" and "esz e' = esz e"
  shows "used (tb(h \<mapsto> e')) = used tb \<and> dom (tb(h \<mapsto> e')) = dom tb"
  using used_update [OF assms] assms(2) by (simp add: insert_absorb domI)

lemma used_cs_get:
  assumes "cs_get h c = (r, s)" and "finite (dom (table c))"
  shows "used (table s) = used (table c) \<and> dom (table s) = dom (table c)"
proof (cases "table c h")
  case (Some e)
  then have "table s = (table c)(h \<mapsto> e\<lparr>refcnt := refcnt e + 1\<rparr>)"
    using assms(1) by (auto simp: cs_get_def)
  then show ?thesis using table_upd_same [OF assms(2) Some] by simp
qed (use assms in \<open>simp add: cs_get_def\<close>)

lemma used_cs_unget:
  assumes "cs_unget h c = (r, s)" and "finite (dom (table c))"
  shows "used (table s) = used (table c) \<and> dom (table s) = dom (table c)"
proof (cases "table c h")
  case (Some e)
  then have "table s = (table c)(h \<mapsto> e\<lparr>refcnt := refcnt e - 1\<rparr>)"
    using assms(1) by (auto simp: cs_unget_def Let_def)
  then show ?thesis using table_upd_same [OF assms(2) Some] by simp
qed (use assms in \<open>simp add: cs_unget_def\<close>)

lemma used_cs_advise:
  assumes "finite (dom (table c))"
  shows "used (table (cs_advise h c)) = used (table c) \<and> dom (table (cs_advise h c)) = dom (table c)"
proof (cases "table c h")
  case (Some e)
  then have "table (cs_advise h c) = (table c)(h \<mapsto> e\<lparr>invalid := True\<rparr>)"
    by (simp add: cs_advise_def)
  then show ?thesis using table_upd_same [OF assms Some] by simp
qed (simp add: cs_advise_def)

lemma cur_simps:
  "cs_get h c = (r, s) \<Longrightarrow> cur s = cur c \<and> cmax s = cmax c"
  "cs_unget h c = (r', s) \<Longrightarrow> cur s = cur c \<and> cmax s = cmax c"
  "cur (cs_advise h c) = cur c \<and> cmax (cs_advise h c) = cmax c"
  by (auto simp: cs_get_def cs_unget_def cs_advise_def Let_def split: option.splits)

lemma acct_cur_ge:
  assumes "acct_ok n mx c" and "at i q c"
  shows "resv q \<le> unat (cur (shared c))"
  using assms(1) total_update [OF assms(2), of resv Idle] unfolding acct_ok_def by simp

lemma acct_release:
  assumes "acct_ok n mx c" and "at i q c" and "resv q = unat sz"
    and "pc_fits (unat mx) p" and "resv p = 0" and "granted p = 0"
  shows "acct_ok n mx (goto i p (cs_release sz (shared c)) c)"
proof -
  have "sz \<le> cur (shared c)" using acct_cur_ge [OF assms(1,2)] assms(3) by (simp add: word_le_nat_alt)
  then have "unat (cur (shared c) - sz) + resv q = unat (cur (shared c))"
    using assms(3) acct_cur_ge [OF assms(1,2)] by (simp add: unat_sub)
  then show ?thesis
    using assms by (intro acct_same [OF assms(1,2)]) (simp_all add: cs_release_def)
qed

lemma acct_step:
  assumes "cstep c c'" and "acct_ok n mx c" and "\<not> flushed c'" and "(n + 1) * unat mx < 2 ^ 64"
  shows "acct_ok n mx c'"
  using assms
proof (induction rule: cstep.induct)
  case (get_hit i c h e s)
  have "finite (dom (table (shared c)))" using get_hit by (simp add: acct_ok_def)
  with get_hit used_cs_get [OF get_hit(2)] cur_simps(1) [OF get_hit(2)] show ?case
    by (simp, intro acct_same) auto
next
  case (get_miss i c h s)
  then have "s = shared c" by (auto simp: cs_get_def split: option.splits)
  with get_miss show ?case by (intro acct_same [OF get_miss(3,1)]) auto
next
  case (unget i c h k doenq doevict s)
  have "finite (dom (table (shared c)))" using unget by (simp add: acct_ok_def)
  with unget used_cs_unget [OF unget(3)] cur_simps(2) [OF unget(3)] show ?case
    unfolding acct_upd by (intro acct_same [OF unget(4,1)]) auto
next
  case (unget_evict i h c ev s)
  then show ?case by (intro acct_evict [OF unget_evict(3,1,2)]) auto
next
  case (unget_enq i h c)
  then show ?case by (intro acct_same [OF unget_enq(2,1)]) (auto simp: cs_enq_def)
next
  case (put_refused i c sz h)
  then show ?case by (intro acct_same [OF put_refused(3,1)]) auto
next
  case (put_start i c sz h v)
  have "unat sz \<le> unat mx"
    using put_start(2,4) by (simp add: acct_ok_def word_less_nat_alt)
  with put_start show ?case by (intro acct_same [OF put_start(4,1)]) auto
next
  case (put_reserve i h v sz c full s)
  have s: "s = (shared c)\<lparr>cur := cur (shared c) + sz\<rparr>" "full = (cur (shared c) + sz > cmax (shared c))"
    using put_reserve(2) by (auto simp: cs_reserve_def)
  have u: "unat (cur s) = unat (cur (shared c)) + unat sz"
    using reserve_no_wrap [OF put_reserve(3,1,5)] s(1) by simp
  have fits: "unat sz \<le> unat mx"
    using put_reserve(1,3) at_all [of i _ c "pc_fits (unat mx)"] unfolding acct_ok_def by force
  show ?case
  proof (cases full)
    case True
    then show ?thesis using s u fits put_reserve
      by (intro acct_same [OF put_reserve(3,1)]) auto
  next
    case False
    have le: "unat (cur (shared c)) + unat sz \<le> unat mx"
      using False s u put_reserve(3) by (simp add: acct_ok_def word_less_nat_alt)
    have a: "unat (cur (shared c)) = used (table (shared c)) + total resv (pcs c) + leaked c"
      "cmax (shared c) = mx" "length (pcs c) = n" "finite (dom (table (shared c)))"
      "list_all (pc_fits (unat mx)) (pcs c)"
      using put_reserve(3) unfolding acct_ok_def by blast+
    let ?p = "PutAlloc h v sz"
    have g: "total granted ps \<le> total resv ps" for ps :: "('a, 'b) pc list"
    proof (induction ps)
      case (Cons p ps)
      then show ?case by (cases p) (simp_all add: total_def)
    qed (simp add: total_def)
    have r: "total resv ((pcs c)[i := ?p]) = total resv (pcs c) + unat sz"
      using total_update [OF put_reserve(1), of resv ?p] by simp
    have "used (table s) + total granted ((pcs c)[i := ?p]) + leaked c \<le> unat mx"
      using g [of "(pcs c)[i := ?p]"] r le a(1) s(1) by simp
    moreover have "unat (cur s) = used (table s) + total resv ((pcs c)[i := ?p]) + leaked c"
      using u r a(1) s(1) by simp
    ultimately show ?thesis using False a(2-5) s(1)
      unfolding acct_ok_def by (simp add: list_all_update)
  qed
next
  case (put_undo i h v sz c)
  have "unat sz \<le> unat mx"
    using put_undo(1,2) at_all [of i _ c "pc_fits (unat mx)"] unfolding acct_ok_def by force
  with put_undo show ?case by (intro acct_release [OF put_undo(2,1)]) auto
next
  case (put_full i h v sz c)
  then show ?case by (intro acct_same [OF put_full(3,1)]) auto
next
  case (put_pop i h v sz c g)
  have "unat sz \<le> unat mx"
    using put_pop(1,3) at_all [of i _ c "pc_fits (unat mx)"] unfolding acct_ok_def by force
  with put_pop show ?case by (intro acct_same [OF put_pop(3,1)]) (auto simp: cs_pop_def)
next
  case (put_evict i h v sz g c ev s)
  have "unat sz \<le> unat mx"
    using put_evict(1,3) at_all [of i _ c "pc_fits (unat mx)"] unfolding acct_ok_def by force
  with put_evict show ?case by (intro acct_evict [OF put_evict(3,1,2)]) auto
next
  case (put_nomem i h v sz c)
  then show ?case by (intro acct_release [OF put_nomem(2,1)]) auto
next
  case (put_alloc i h v sz c e s)
  then have "s = (shared c)\<lparr>next_id := next_id (shared c) + 1\<rparr>" "esz e = sz"
    by (auto simp: stuff_new_def)
  with put_alloc show ?case by (intro acct_same [OF put_alloc(3,1)]) auto
next
  case (put_insert i h e c s)
  then have s: "s = (shared c)\<lparr>table := (table (shared c))(h \<mapsto> e)\<rparr>" "table (shared c) h = None"
    by (auto simp: cs_insert_def cs_already_def split: if_splits)
  have f: "finite (dom (table (shared c)))" using put_insert(3) by (simp add: acct_ok_def)
  then have "used (table s) = used (table (shared c)) + unat (esz e)"
    using s used_insert by simp
  with put_insert s f have "acct_ok n mx ((goto i Idle s c)\<lparr>leaked := leaked c\<rparr>)"
    by (intro acct_move [OF put_insert(3,1)]) simp_all
  then show ?case by (simp flip: goto_leaked)
next
  case (put_lost i h e c s)
  then have s: "s = shared c" by (auto simp: cs_insert_def split: if_splits)
  have "finite (dom (table (shared c)))" using put_lost(3) by (simp add: acct_ok_def)
  with put_lost s show ?case by (intro acct_move [OF put_lost(3,1)]) simp_all
next
  case (advise i c h)
  have "finite (dom (table (shared c)))" using advise(2) by (simp add: acct_ok_def)
  with advise used_cs_advise [of "shared c" h] cur_simps(3) [of h "shared c"] show ?case
    by (intro acct_same [OF advise(2,1)]) auto
next
  case (flush i c hs)
  then show ?case by simp
qed

section \<open>Eviction candidates\<close>

text \<open>An entry nobody refers to is a candidate for eviction, or a thread is about to evict it or to
  make it one.\<close>

fun about :: "'h \<Rightarrow> ('h, 's) pc \<Rightarrow> bool" where
  "about h (UngetEvict g) \<longleftrightarrow> g = h"
| "about h (UngetEnq g) \<longleftrightarrow> g = h"
| "about h (PutEvicting h' v sz g) \<longleftrightarrow> g = h"
| "about h _ \<longleftrightarrow> False"

definition cares :: "'h \<Rightarrow> ('h, 's) pc list \<Rightarrow> bool" where
  "cares h ps \<longleftrightarrow> list_ex (about h) ps"

definition unreferenced :: "'s entry option \<Rightarrow> bool" where
  "unreferenced oe \<longleftrightarrow> (case oe of None \<Rightarrow> False | Some e \<Rightarrow> refcnt e = 0)"

definition evictable :: "('h, 's) conf \<Rightarrow> bool" where
  "evictable c \<longleftrightarrow> (\<forall>h. unreferenced (table (shared c) h) \<longrightarrow>
     h \<in> set (toevict (shared c)) \<or> cares h (pcs c))"

lemma cares_new: "at i q c \<Longrightarrow> about h p \<Longrightarrow> cares h ((pcs c)[i := p])"
  by (auto simp: cares_def list_ex_iff at_def set_update_memI intro!: bexI [of _ p])

lemma cares_update:
  assumes "at i q c" and "cares h (pcs c)" and "about h q \<longrightarrow> about h p"
  shows "cares h ((pcs c)[i := p])"
proof (cases "about h p")
  case True
  with assms(1) show ?thesis by (rule cares_new)
next
  case False
  obtain j where j: "j < length (pcs c)" "about h (pcs c ! j)"
    using assms(2) by (auto simp: cares_def list_ex_iff in_set_conv_nth)
  then have "i \<noteq> j" using assms(1,3) False by (auto simp: at_def)
  with j have "((pcs c)[i := p]) ! j \<in> set ((pcs c)[i := p]) \<and> about h (((pcs c)[i := p]) ! j)"
    by (intro conjI nth_mem) simp_all
  then show ?thesis by (auto simp: cares_def list_ex_iff)
qed

text \<open>A step that makes no entry unreferenced and no candidate disappear.\<close>

lemma evictable_same:
  assumes "evictable c" and "at i q c" and "\<And>h. about h q \<Longrightarrow> about h p \<or> h \<in> set (toevict s) \<or> \<not> unreferenced (table s h)"
    and "\<And>h. unreferenced (table s h) \<Longrightarrow> unreferenced (table (shared c) h) \<or> about h p"
    and "\<And>h. h \<in> set (toevict (shared c)) \<Longrightarrow> h \<in> set (toevict s) \<or> about h p"
  shows "evictable (goto i p s c)"
  unfolding evictable_def goto_simps
proof (intro allI impI)
  fix h assume u: "unreferenced (table s h)"
  show "h \<in> set (toevict s) \<or> cares h ((pcs c)[i := p])"
  proof (cases "about h p")
    case True
    then show ?thesis using cares_new [OF assms(2)] by blast
  next
    case False
    then have "h \<in> set (toevict (shared c)) \<or> cares h (pcs c)"
      using assms(1,4) u by (auto simp: evictable_def)
    then show ?thesis using assms(3,5) False u cares_update [OF assms(2)] by blast
  qed
qed

lemma evictable_upd [simp]:
  "evictable (c\<lparr>held := H\<rparr>) = evictable c" "evictable (c\<lparr>leaked := l\<rparr>) = evictable c"
  by (simp_all add: evictable_def)

lemma evict_effect:
  "cs_evict h c = (ev, s) \<Longrightarrow> toevict s = toevict c \<and> \<not> (ev \<and> unreferenced (table s h)) \<and>
     (\<not> ev \<longrightarrow> s = c \<and> \<not> unreferenced (table c h)) \<and>
     (\<forall>g. unreferenced (table s g) \<longrightarrow> unreferenced (table c g))"
  by (auto simp: cs_evict_def cs_release_def unreferenced_def split: option.splits if_splits)

lemma refs_nonneg: "refs_ok c \<Longrightarrow> table (shared c) h = Some e \<Longrightarrow> 0 \<le> refcnt e"
  using table_refs_at [of "held c" "table (shared c)" h] by (simp add: refs_ok_def)

lemma evictable_step:
  assumes "cstep c c'" and "evictable c" and "refs_ok c" and "\<not> flushed c'"
  shows "evictable c'"
  using assms
proof (induction rule: cstep.induct)
  case (get_hit i c h e s)
  then have "0 \<le> refcnt e" using refs_nonneg [of c h e] by (auto simp: cs_get_def split: option.splits)
  with get_hit show ?case
    by (auto simp: cs_get_def unreferenced_def split: option.splits if_splits
        intro!: evictable_same [of c i Idle Idle])
next
  case (get_miss i c h s)
  then show ?case
    by (auto simp: cs_get_def split: option.splits intro!: evictable_same [of c i Idle Idle])
next
  case (unget i c h k doenq doevict s)
  then show ?case unfolding evictable_upd
    by (intro evictable_same [OF unget(4,1)])
      (auto simp: cs_unget_def unreferenced_def Let_def split: option.splits if_splits)
next
  case (unget_evict i h c ev s)
  then show ?case using evict_effect [OF unget_evict(2)]
    by (intro evictable_same [OF unget_evict(3,1)]) auto
next
  case (unget_enq i h c)
  then show ?case by (intro evictable_same [OF unget_enq(2,1)]) (auto simp: cs_enq_def)
next
  case (put_refused i c sz h)
  then show ?case by (intro evictable_same [OF put_refused(3,1)]) auto
next
  case (put_start i c sz h v)
  then show ?case by (intro evictable_same [OF put_start(4,1)]) auto
next
  case (put_reserve i h v sz c full s)
  then show ?case by (intro evictable_same [OF put_reserve(3,1)]) (auto simp: cs_reserve_def)
next
  case (put_undo i h v sz c)
  then show ?case by (intro evictable_same [OF put_undo(2,1)]) auto
next
  case (put_full i h v sz c)
  then show ?case by (intro evictable_same [OF put_full(3,1)]) auto
next
  case (put_pop i h v sz c g)
  then show ?case by (intro evictable_same [OF put_pop(3,1)]) auto
next
  case (put_evict i h v sz g c ev s)
  then show ?case using evict_effect [OF put_evict(2)]
    by (intro evictable_same [OF put_evict(3,1)]) auto
next
  case (put_nomem i h v sz c)
  then show ?case by (intro evictable_same [OF put_nomem(2,1)]) auto
next
  case (put_alloc i h v sz c e s)
  then show ?case by (intro evictable_same [OF put_alloc(3,1)]) (auto simp: stuff_new_def)
next
  case (put_insert i h e c s)
  have "refcnt e = 1"
    using put_insert(4) at_all [OF put_insert(1), of pc_refs] by (simp add: refs_ok_def)
  with put_insert show ?case unfolding evictable_upd
    by (intro evictable_same [OF put_insert(3,1)])
      (auto simp: cs_insert_def unreferenced_def split: if_splits)
next
  case (put_lost i h e c s)
  then show ?case unfolding evictable_upd
    by (intro evictable_same [OF put_lost(3,1)]) (auto simp: cs_insert_def split: if_splits)
next
  case (advise i c h)
  then show ?case
    by (intro evictable_same [OF advise(2,1)])
      (auto simp: cs_advise_def unreferenced_def split: option.splits if_splits)
next
  case (flush i c hs)
  then show ?case by simp
qed

section \<open>Reachable configurations\<close>

lemma total_replicate: "total f (replicate n p) = n * f p"
  by (induction n) (simp_all add: total_def)

lemma init_ok:
  "refs_ok (cinit n mx)" "ids_ok (cinit n mx)" "acct_ok n mx (cinit n mx)" "evictable (cinit n mx)"
proof -
  show "refs_ok (cinit n mx)"
    by (simp add: refs_ok_def cinit_def cache_new_def table_refs_def list_all_iff)
  show "ids_ok (cinit n mx)"
    by (auto simp: ids_ok_def ids_inv_def cinit_def cache_new_def tab_id_def pend_id_def)
  show "acct_ok n mx (cinit n mx)"
    by (simp add: acct_ok_def cinit_def cache_new_def used_def list_all_iff total_replicate)
  show "evictable (cinit n mx)"
    by (simp add: evictable_def cinit_def cache_new_def unreferenced_def)
qed

lemma reach_ok:
  "reach n mx c \<Longrightarrow> \<not> flushed c \<Longrightarrow> refs_ok c \<and> ids_ok c \<and> evictable c"
proof (induction rule: reach.induct)
  case reach_init
  show ?case by (simp add: init_ok)
next
  case (reach_step c c')
  then show ?case
    using flushed_step refs_step ids_step evictable_step by blast
qed

lemma reach_acct:
  "reach n mx c \<Longrightarrow> \<not> flushed c \<Longrightarrow> (n + 1) * unat mx < 2 ^ 64 \<Longrightarrow> acct_ok n mx c"
proof (induction rule: reach.induct)
  case reach_init
  show ?case by (rule init_ok)
next
  case (reach_step c c')
  then show ?case using flushed_step acct_step by blast
qed

section \<open>Executing the step relation\<close>

text \<open>What a thread is asked to do: start an operation, or go on with the one it is in (the flag
  says whether an allocation succeeds, the handle which candidate the iterator yields).\<close>

datatype ('h, 's) act = Get 'h | Unget 'h nat | Put 'h 's size_t | Advise 'h | Go bool | Pop 'h

fun exec :: "nat \<Rightarrow> ('h, 's) act \<Rightarrow> ('h, 's) pc \<Rightarrow> ('h, 's) conf \<Rightarrow> ('h, 's) conf option" where
  "exec i (Get h) Idle c = (let (r, s) = cs_get h (shared c) in
     case r of
       None \<Rightarrow> Some (goto i Idle s c)
     | Some e \<Rightarrow> Some ((goto i Idle s c)\<lparr>held := add_mset (h, eid e) (held c)\<rparr>))"
| "exec i (Unget h k) Idle c =
     (if (h, k) \<in># held c then
        let ((doenq, doevict), s) = cs_unget h (shared c) in
        Some ((goto i (if doenq then if doevict then UngetEvict h else UngetEnq h else Idle) s c)
          \<lparr>held := held c - {#(h, k)#}\<rparr>)
      else None)"
| "exec i (Put h v sz) Idle c =
     Some (goto i (if sz > cmax (shared c) \<or> cs_already h (shared c) then Idle else PutReserve h v sz)
       (shared c) c)"
| "exec i (Advise h) Idle c = Some (goto i Idle (cs_advise h (shared c)) c)"
| "exec i (Go m) (UngetEvict h) c = (let (ev, s) = cs_evict h (shared c) in
     Some (goto i (if ev then Idle else UngetEnq h) s c))"
| "exec i (Go m) (UngetEnq h) c = Some (goto i Idle (cs_enq h (shared c)) c)"
| "exec i (Go m) (PutReserve h v sz) c = (let (full, s) = cs_reserve sz (shared c) in
     Some (goto i (if full then PutUndo h v sz else PutAlloc h v sz) s c))"
| "exec i (Go m) (PutUndo h v sz) c = Some (goto i (PutEvict h v sz) (cs_release sz (shared c)) c)"
| "exec i (Go m) (PutEvict h v sz) c =
     (if toevict (shared c) = [] then Some (goto i Idle (shared c) c) else None)"
| "exec i (Pop g) (PutEvict h v sz) c =
     (if g \<in> set (toevict (shared c))
      then Some (goto i (PutEvicting h v sz g) (cs_pop g (shared c)) c) else None)"
| "exec i (Go m) (PutEvicting h v sz g) c = (let (ev, s) = cs_evict g (shared c) in
     Some (goto i (if ev then PutReserve h v sz else PutEvict h v sz) s c))"
| "exec i (Go m) (PutAlloc h v sz) c =
     (if m then let (e, s) = stuff_new v sz (shared c) in Some (goto i (PutInsert h e) s c)
      else Some (goto i Idle (cs_release sz (shared c)) c))"
| "exec i (Go m) (PutInsert h e) c = (let (done, s) = cs_insert h e (shared c) in
     Some (if done then (goto i Idle s c)\<lparr>held := add_mset (h, eid e) (held c)\<rparr>
       else (goto i Idle s c)\<lparr>leaked := leaked c + unat (esz e)\<rparr>))"
| "exec i _ _ c = None"

fun run :: "(nat \<times> ('h, 's) act) list \<Rightarrow> ('h, 's) conf \<Rightarrow> ('h, 's) conf option" where
  "run [] c = Some c"
| "run ((i, a) # as) c =
     (if i < length (pcs c)
      then case exec i a (pcs c ! i) c of None \<Rightarrow> None | Some c' \<Rightarrow> run as c'
      else None)"

lemmas cstep_branches =
  cstep.unget [where doenq = True and doevict = True, simplified]
  cstep.unget [where doenq = True and doevict = False, simplified]
  cstep.unget [where doenq = False, simplified]
  cstep.unget_evict [where ev = True, simplified] cstep.unget_evict [where ev = False, simplified]
  cstep.put_reserve [where full = True, simplified] cstep.put_reserve [where full = False, simplified]
  cstep.put_evict [where ev = True, simplified] cstep.put_evict [where ev = False, simplified]

lemma exec_step: "exec i a p c = Some c' \<Longrightarrow> at i p c \<Longrightarrow> cstep c c'"
  by (induction i a p c rule: exec.induct)
    (auto simp: Let_def split: prod.splits option.splits if_splits bool.splits intro: cstep.intros cstep_branches)

lemma run_reach: "run as c = Some c' \<Longrightarrow> reach n mx c \<Longrightarrow> reach n mx c'"
proof (induction as c rule: run.induct)
  case (1 c)
  then show ?case by simp
next
  case (2 i a as c)
  then show ?case
    using exec_step [of i a "pcs c ! i" c]
    by (auto simp: at_def split: if_splits option.splits intro: reach_step)
qed

section \<open>Properties\<close>







text \<open>Flushing does not wait for the clients: if a client holds an entry when another thread
  flushes the cache, the entry is deleted under the client, whose reference is now dangling.\<close>

theorem cache_flush_dangling:
  assumes "reach n mx c" and "\<not> flushed c" and "(h, k) \<in># held c" and "at i Idle c"
    and "finite (dom (table (shared c)))"
  shows "\<exists>c'. cstep c c' \<and> (h, k) \<in># held c' \<and> k \<in> set (freed (shared c')) \<and>
    table (shared c') h = None \<and> cur (shared c') = 0"
proof -
  obtain hs where hs: "set hs = dom (table (shared c))" "distinct hs"
    using finite_distinct_list [OF assms(5)] by blast
  let ?c = "(goto i Idle (cs_flush hs (shared c)) c)\<lparr>flushed := True\<rparr>"
  have s: "cstep c ?c" using assms(4) hs(2,1) by (rule cstep.flush)
  obtain e where e: "table (shared c) h = Some e" "eid e = k"
    using reach_ok [OF assms(1,2)] assms(3) by (auto simp: refs_ok_def dest: table_refs_held)
  have "k \<in> set (freed (shared ?c))" using e hs(1) by (force simp: cs_flush_def)
  with s assms(3) show ?thesis by (intro exI [of _ ?c]) (simp add: cs_flush_def)
qed

theorem cache_flush_dangling_witness:
  "\<exists>c c' :: (string, bool) conf. reach 2 100 c \<and> cstep c c' \<and> (''a'', 0) \<in># held c' \<and> 0 \<in> set (freed (shared c'))"
proof -
  let ?as = "[(0, Put ''a'' True 10), (0, Go True), (0, Go True), (0, Go True)]"
  have "case run ?as (cinit 2 100) of None \<Rightarrow> False
    | Some c \<Rightarrow> \<not> flushed c \<and> (''a'', 0) \<in># held c \<and> pcs c = [Idle, Idle]" by code_simp
  then obtain c where c: "run ?as (cinit 2 100) = Some c" "\<not> flushed c" "(''a'', 0) \<in># held c"
    "pcs c = [Idle, Idle]" by (auto split: option.splits)
  have r: "reach 2 100 c" using c(1) reach_init by (rule run_reach)
  have "finite (dom (table (shared c)))"
    using reach_acct [OF r c(2)] by (simp add: acct_ok_def)
  then show ?thesis
    using cache_flush_dangling [OF r c(2,3), of 1] r c(4) by (auto simp: at_def)
qed

text \<open>Two threads that put under the same handle: both find it free and reserve the space, one
  of them loses at the insertion, and its reservation is never given back. Here the cache is empty
  afterwards, no thread is inside it and nobody holds a reference, but half of it is lost for
  good: an entry that fits is refused.\<close>

theorem cache_put_race_leaks:
  "\<exists>c :: (string, bool) conf. reach 2 120 c \<and> pcs c = [Idle, Idle] \<and> held c = {#} \<and> \<not> flushed c \<and>
    (\<forall>h. table (shared c) h = None) \<and> cur (shared c) = 60 \<and>
    (\<exists>s. cache_put True ''b'' True 100 (shared c) = (False, s))"
proof -
  let ?as = "[(0, Put ''a'' True 60), (1, Put ''a'' True 60), (0, Go True), (1, Go True),
    (0, Go True), (1, Go True), (0, Go True), (1, Go True), (0, Advise ''a''),
    (0, Unget ''a'' 0), (0, Go True)]"
  let ?c = "(cinit 2 120 :: (string, bool) conf)\<lparr>shared := (cache_new 120)\<lparr>cur := 60, freed := [0],
    next_id := 2\<rparr>, leaked := 60\<rparr>"
  have two: "replicate 2 x = [x, x]" for x :: 'x by (simp add: numeral_2_eq_2)
  have "run ?as (cinit 2 120) = Some ?c"
    by (simp add: cinit_def cache_new_def goto_def cs_defs Let_def two)
  then have "reach 2 120 ?c" using reach_init by (rule run_reach)
  moreover have "fst (cache_put True ''b'' True 100 (shared ?c)) = False" by code_simp
  ultimately show ?thesis
    by (intro exI [of _ ?c]) (simp add: cinit_def cache_new_def prod_eq_iff two)
qed

section \<open>The operations as runs of the threads\<close>

text \<open>The functions on the cache are what a thread does when no other interferes.\<close>

lemma goto_goto [simp]: "goto i p s (goto i q t c) = goto i p s c"
  by (simp add: goto_def)

lemma at_goto_same: "at i q c \<Longrightarrow> at i p (goto i p s c)"
  by (simp add: at_def goto_def)

lemma step_then: "cstep c c1 \<Longrightarrow> cstep\<^sup>*\<^sup>* c1 c2 \<Longrightarrow> cstep\<^sup>*\<^sup>* c c2"
  by (rule converse_rtranclp_into_rtranclp)

lemma evict_any_steps:
  assumes "evict_any (shared c) = (ev, s)" and "at i (PutEvict h v sz) c"
  shows "cstep\<^sup>*\<^sup>* c (goto i (if ev then PutReserve h v sz else Idle) s c)"
  using assms
proof (induction "shared c" arbitrary: c ev s rule: evict_any.induct)
  case 1
  show ?case
  proof (cases "toevict (shared c)")
    case Nil
    then have "ev = False" "s = shared c"
      using 1(2) by (subst (asm) evict_any.simps, simp)+
    then show ?thesis using put_full [OF 1(3) Nil] by auto
  next
    case (Cons g gs)
    obtain b s1 where e: "cs_evict g (cs_pop g (shared c)) = (b, s1)" by fastforce
    let ?c1 = "goto i (PutEvicting h v sz g) (cs_pop g (shared c)) c"
    let ?c2 = "goto i (if b then PutReserve h v sz else PutEvict h v sz) s1 c"
    have s1: "cstep c ?c1" using 1(3) Cons by (intro put_pop) simp_all
    have s2: "cstep ?c1 ?c2"
      using put_evict [of i h v sz g ?c1 b s1] at_goto_same [OF 1(3)] e by simp
    show ?thesis
    proof (cases b)
      case True
      then have "ev" "s = s1" using 1(2) Cons e by (subst (asm) evict_any.simps, simp)+
      then show ?thesis using s1 s2 True by (auto intro: step_then)
    next
      case False
      then have r: "evict_any (shared ?c2) = (ev, s)"
        using 1(2) Cons e by (subst (asm) evict_any.simps) simp
      have "cstep\<^sup>*\<^sup>* ?c2 (goto i (if ev then PutReserve h v sz else Idle) s ?c2)"
        using 1(1) [OF Cons refl _ False, of ?c2 ev s] e r at_goto_same [OF 1(3)] False by simp
      then show ?thesis using s1 s2 by (auto intro: step_then)
    qed
  qed
qed

text \<open>A run of one thread's operation, from outside the cache to outside the cache.\<close>

definition op_run :: "nat \<Rightarrow> ('h, 's) conf \<Rightarrow> ('h, 's) cache \<Rightarrow> ('h \<times> nat) multiset \<Rightarrow> bool" where
  "op_run i c s H \<longleftrightarrow> (\<exists>c'. cstep\<^sup>*\<^sup>* c c' \<and> shared c' = s \<and> pcs c' = (pcs c)[i := Idle] \<and>
     held c' = H \<and> flushed c' = flushed c)"

lemma op_run_goto: "cstep\<^sup>*\<^sup>* c (goto i Idle s c) \<Longrightarrow> op_run i c s (held c)"
  by (auto simp: op_run_def)

lemma op_run_after:
  "cstep\<^sup>*\<^sup>* c (goto i p t c) \<Longrightarrow> op_run i (goto i p t c) s H \<Longrightarrow> op_run i c s H"
  unfolding op_run_def by (elim exE conjE) (auto dest: rtranclp_trans)

lemma put_tryagain_run:
  assumes "put_tryagain mem h v sz (shared c) = (ok, s)" and "at i (PutReserve h v sz) c"
  shows "\<exists>k. op_run i c s (if ok then add_mset (h, k) (held c) else held c)"
  using assms
proof (induction mem h v sz "shared c" arbitrary: c ok s rule: put_tryagain.induct)
  case (1 mem h v sz)
  obtain full s1 where r: "cs_reserve sz (shared c) = (full, s1)" by fastforce
  show ?case
  proof (cases full)
    case True
    let ?c1 = "goto i (PutUndo h v sz) s1 c"
    let ?c2 = "goto i (PutEvict h v sz) (cs_release sz s1) c"
    have st: "cstep c ?c1" using put_reserve [OF 1(3) r] True by simp
    have st2: "cstep ?c1 ?c2" using put_undo [of i h v sz ?c1] at_goto_same [OF 1(3)] by simp
    obtain ev s3 where e: "evict_any (cs_release sz s1) = (ev, s3)" by fastforce
    let ?c3 = "goto i (if ev then PutReserve h v sz else Idle) s3 c"
    have "cstep\<^sup>*\<^sup>* ?c2 ?c3"
      using evict_any_steps [of ?c2 ev s3 i h v sz] e at_goto_same [OF 1(3)] by simp
    with st st2 have steps: "cstep\<^sup>*\<^sup>* c ?c3" by (blast intro: step_then)
    show ?thesis
    proof (cases ev)
      case ev: True
      then have "put_tryagain mem h v sz (shared ?c3) = (ok, s)"
        using 1(2) True r e by (subst (asm) put_tryagain.simps) simp
      then obtain k where "op_run i ?c3 s (if ok then add_mset (h, k) (held ?c3) else held ?c3)"
        using 1(1) [OF r [symmetric] refl True _ refl ev, of ?c3 ok s] e at_goto_same [OF 1(3)] ev
        by auto
      then have "op_run i ?c3 s (if ok then add_mset (h, k) (held c) else held c)"
        by (simp only: goto_simps)
      then have "op_run i c s (if ok then add_mset (h, k) (held c) else held c)"
        by (rule op_run_after [OF steps])
      then show ?thesis by (rule exI)
    next
      case False
      then have "\<not> ok" "s = s3" using 1(2) True r e by (subst (asm) put_tryagain.simps, simp)+
      then show ?thesis using steps False by (auto intro: op_run_goto)
    qed
  next
    case False
    let ?c1 = "goto i (PutAlloc h v sz) s1 c"
    have st: "cstep c ?c1" using put_reserve [OF 1(3) r] False by simp
    note at1 = at_goto_same [OF 1(3), of "PutAlloc h v sz" s1]
    show ?thesis
    proof (cases mem)
      case True
      obtain e s2 where a: "stuff_new v sz s1 = (e, s2)" by fastforce
      have st2: "cstep ?c1 (goto i (PutInsert h e) s2 c)" using put_alloc [OF at1] a by simp
      note at2 = at_goto_same [OF 1(3), of "PutInsert h e" s2]
      have ins: "cs_insert h e s2 = (ok, s)"
        using 1(2) False True r a by (subst (asm) put_tryagain.simps) simp
      let ?c3 = "if ok then (goto i Idle s c)\<lparr>held := add_mset (h, eid e) (held c)\<rparr>
        else (goto i Idle s c)\<lparr>leaked := leaked c + unat (esz e)\<rparr>"
      have "cstep (goto i (PutInsert h e) s2 c) ?c3"
        using put_insert [OF at2] put_lost [OF at2] ins by (cases ok) simp_all
      with st st2 have "cstep\<^sup>*\<^sup>* c ?c3" by (blast intro: step_then)
      then show ?thesis by (auto simp: op_run_def intro!: exI [of _ "eid e"] exI [of _ ?c3])
    next
      case nomem: False
      then have "\<not> ok" "s = cs_release sz s1"
        using 1(2) False r by (subst (asm) put_tryagain.simps, simp)+
      have "cstep ?c1 (goto i Idle (cs_release sz s1) c)" using put_nomem [OF at1] by simp
      with st have "cstep\<^sup>*\<^sup>* c (goto i Idle (cs_release sz s1) c)"
        by (rule step_then [OF _ r_into_rtranclp])
      then show ?thesis using op_run_goto \<open>\<not> ok\<close> \<open>s = cs_release sz s1\<close> by auto
    qed
  qed
qed



section \<open>What a client relies on\<close>

text \<open>
  The interface the HTTP work uses: lookups, reference counts and the four operations with
  their laws. Inside, the guarantee that follows from them: an entry stays, with its value, as
  long as the references taken are not all given back.
\<close>

datatype ('h, 's) cache_op = OpGet 'h | OpPut bool 'h 's size_t | OpUnget 'h | OpAdvise 'h

locale refcounted =
  fixes lookup :: "'h \<Rightarrow> 'c \<Rightarrow> 's option"
    and refs :: "'h \<Rightarrow> 'c \<Rightarrow> int"
    and get :: "'h \<Rightarrow> 'c \<Rightarrow> 's option \<times> 'c"
    and put :: "bool \<Rightarrow> 'h \<Rightarrow> 's \<Rightarrow> size_t \<Rightarrow> 'c \<Rightarrow> bool \<times> 'c"
    and unget :: "'h \<Rightarrow> 'c \<Rightarrow> 'c"
    and advise :: "'h \<Rightarrow> 'c \<Rightarrow> 'c"
  assumes get_result: "fst (get h c) = lookup h c"
    and get_keeps: "lookup g (snd (get h c)) = lookup g c"
    and get_counts: "lookup h c \<noteq> None \<Longrightarrow>
      refs g (snd (get h c)) = refs g c + (if g = h then 1 else 0)"
    and get_misses: "lookup h c = None \<Longrightarrow> snd (get h c) = c"
    and put_stores: "fst (put m h s n c) \<Longrightarrow>
      lookup h c = None \<and> lookup h (snd (put m h s n c)) = Some s \<and> refs h (snd (put m h s n c)) = 1"
    and put_keeps: "lookup g c = Some v \<Longrightarrow> 0 < refs g c \<Longrightarrow>
      lookup g (snd (put m h s n c)) = Some v \<and> refs g (snd (put m h s n c)) = refs g c"
    and unget_counts: "lookup h c = Some v \<Longrightarrow> 1 < refs h c \<Longrightarrow>
      lookup h (unget h c) = Some v \<and> refs h (unget h c) = refs h c - 1"
    and unget_other: "g \<noteq> h \<Longrightarrow> lookup g c = Some v \<Longrightarrow> 0 < refs g c \<Longrightarrow>
      lookup g (unget h c) = Some v \<and> refs g (unget h c) = refs g c"
    and advise_keeps: "lookup g (advise h c) = lookup g c" "refs g (advise h c) = refs g c"
begin

fun apply_op :: "('h, 's) cache_op \<Rightarrow> 'c \<Rightarrow> 'c" where
  "apply_op (OpGet h) c = snd (get h c)"
| "apply_op (OpPut m h s n) c = snd (put m h s n c)"
| "apply_op (OpUnget h) c = unget h c"
| "apply_op (OpAdvise h) c = advise h c"

fun ungets :: "'h \<Rightarrow> ('h, 's) cache_op list \<Rightarrow> int" where
  "ungets h [] = 0"
| "ungets h (OpUnget g # ops) = (if g = h then 1 else 0) + ungets h ops"
| "ungets h (OpGet g # ops) = ungets h ops"
| "ungets h (OpPut m g s n # ops) = ungets h ops"
| "ungets h (OpAdvise g # ops) = ungets h ops"

lemma ungets_nonneg: "0 \<le> ungets h ops"
  by (induction h ops rule: ungets.induct) auto

lemma op_keeps:
  assumes "lookup g c = Some v" and "ungets g [op] < refs g c"
  shows "lookup g (apply_op op c) = Some v \<and> refs g c - ungets g [op] \<le> refs g (apply_op op c)"
proof (cases op)
  case (OpGet h)
  then show ?thesis using assms get_keeps get_counts [of h c g] get_misses [of h c] by (cases "lookup h c") auto
next
  case (OpPut m h s n)
  then show ?thesis using assms put_keeps [of g c v m h s n] by simp
next
  case (OpUnget h)
  then show ?thesis using assms unget_counts [of h c v] unget_other [of g h c v] by (cases "g = h") auto
next
  case (OpAdvise h)
  then show ?thesis using assms advise_keeps by simp
qed

lemma stays:
  assumes "lookup g c = Some v" and "ungets g ops < refs g c"
  shows "lookup g (fold apply_op ops c) = Some v"
  using assms
proof (induction ops arbitrary: c)
  case Nil
  then show ?case by simp
next
  case (Cons op ops)
  have u: "ungets g (op # ops) = ungets g [op] + ungets g ops" by (cases op) auto
  then have "ungets g [op] < refs g c" using Cons.prems(2) ungets_nonneg [of g ops] by linarith
  then have "lookup g (apply_op op c) = Some v" "refs g c - ungets g [op] \<le> refs g (apply_op op c)"
    using op_keeps [OF Cons.prems(1)] by blast+
  then show ?case using Cons.IH [of "apply_op op c"] Cons.prems(2) u by simp
qed

lemma got_stays:
  assumes "get g c = (Some v, c')" and "0 \<le> refs g c" and "ungets g ops \<le> refs g c"
  shows "lookup g (fold apply_op ops c') = Some v"
proof (rule stays)
  have r: "fst (get g c) = Some v" "snd (get g c) = c'" using assms(1) by simp_all
  then show "lookup g c' = Some v" using get_result get_keeps by metis
  have "refs g c' = refs g c + 1" using r get_result [of g c] get_counts [of g c g] by simp
  then show "ungets g ops < refs g c'" using assms(3) by simp
qed

end

definition cache_lookup :: "'h \<Rightarrow> ('h, 's) cache \<Rightarrow> 's option" where
  "cache_lookup h c = map_option stuff (table c h)"

definition cache_refs :: "'h \<Rightarrow> ('h, 's) cache \<Rightarrow> int" where
  "cache_refs h c = (case table c h of None \<Rightarrow> 0 | Some e \<Rightarrow> refcnt e)"

text \<open>Eviction only removes entries nobody refers to.\<close>

lemma cs_evict_keeps:
  assumes "table c g = Some e" and "0 < refcnt e"
  shows "table (snd (cs_evict h c)) g = Some e"
  using assms by (auto simp: cs_evict_def split: option.splits)

lemma evict_any_keeps:
  assumes "table c g = Some e" and "0 < refcnt e"
  shows "table (snd (evict_any c)) g = Some e"
  using assms
proof (induction c rule: evict_any.induct)
  case (1 c)
  show ?case
  proof (cases "toevict c")
    case Nil
    then show ?thesis using 1(2) by (subst evict_any.simps) simp
  next
    case (Cons h hs)
    obtain ev c1 where e: "cs_evict h (cs_pop h c) = (ev, c1)" by fastforce
    then have "table c1 g = Some e"
      using cs_evict_keeps [of "cs_pop h c" g e h] 1(2,3) by simp
    then show ?thesis
      using Cons e 1(1) [OF Cons e [symmetric] refl] 1(3) by (subst evict_any.simps) auto
  qed
qed

lemma evict_any_None: "table c g = None \<Longrightarrow> table (snd (evict_any c)) g = None"
proof (induction c rule: evict_any.induct)
  case (1 c)
  show ?case
  proof (cases "toevict c")
    case Nil
    then show ?thesis using 1(2) by (subst evict_any.simps) simp
  next
    case (Cons h hs)
    obtain ev c1 where e: "cs_evict h (cs_pop h c) = (ev, c1)" by fastforce
    then have "table c1 g = None"
      using 1(2) by (auto simp: cs_evict_def split: option.splits if_splits)
    then show ?thesis
      using Cons e 1(1) [OF Cons e [symmetric] refl] by (subst evict_any.simps) auto
  qed
qed

lemma put_tryagain_keeps:
  assumes "table c g = Some e" and "0 < refcnt e"
  shows "table (snd (put_tryagain mem h s sz c)) g = Some e"
  using assms
proof (induction mem h s sz c rule: put_tryagain.induct)
  case (1 mem h s sz c)
  obtain full c1 where r: "cs_reserve sz c = (full, c1)" by fastforce
  then have t1: "table c1 = table c" by (auto simp: cs_reserve_def)
  obtain ev c2 where e: "evict_any (cs_release sz c1) = (ev, c2)" by fastforce
  then have t2: "table c2 g = Some e"
    using evict_any_keeps [of "cs_release sz c1" g e] 1(2,3) t1 by simp
  obtain e' c3 where n: "stuff_new s sz c1 = (e', c3)" by fastforce
  then have t3: "table c3 = table c" using t1 by (auto simp: stuff_new_def)
  show ?case
    using r e n t1 t2 t3 1(1) [OF r [symmetric] refl _ e [symmetric] refl] 1(2,3)
    by (subst put_tryagain.simps) (auto simp: cs_insert_def cs_already_def)
qed

lemma put_tryagain_stores:
  assumes "put_tryagain mem h s sz c = (True, c')" and "table c h = None"
  shows "\<exists>e. table c' h = Some e \<and> stuff e = s \<and> refcnt e = 1"
  using assms
proof (induction mem h s sz c rule: put_tryagain.induct)
  case (1 mem h s sz c)
  obtain full c1 where r: "cs_reserve sz c = (full, c1)" by fastforce
  then have t1: "table c1 = table c" by (auto simp: cs_reserve_def)
  obtain ev c2 where e: "evict_any (cs_release sz c1) = (ev, c2)" by fastforce
  then have t2: "table c2 h = None"
    using evict_any_None [of "cs_release sz c1" h] 1(3) t1 by simp
  show ?case
  proof (cases full)
    case True
    then have ev and "put_tryagain mem h s sz c2 = (True, c')"
      using 1(2) r e by (subst (asm) put_tryagain.simps, auto split: if_splits)+
    then show ?thesis using 1(1) [OF r [symmetric] refl True e [symmetric] refl] t2 by blast
  next
    case False
    then show ?thesis
      using 1(2,3) r t1
      by (subst (asm) put_tryagain.simps)
        (auto simp: stuff_new_def cs_insert_def cs_already_def split: if_splits)
  qed
qed

lemma unget_table:
  assumes "table c h = Some e" and "1 < refcnt e"
  shows "table (cache_unget h c) h = Some (e\<lparr>refcnt := refcnt e - 1\<rparr>)"
  using assms by (simp add: cache_unget_def cs_unget_def)

lemma unget_table_other:
  assumes "g \<noteq> h"
  shows "table (cache_unget h c) g = table c g"
  using assms by (auto simp: cache_unget_def cs_unget_def cs_evict_def cs_enq_def Let_def
      split: option.splits prod.splits if_splits)

interpretation hc: refcounted cache_lookup cache_refs cache_get cache_put cache_unget cs_advise
proof
  fix h g :: 'a and c :: "('a, 'b) cache" and m s n v
  show "fst (cache_get h c) = cache_lookup h c"
    by (simp add: cache_get_def cs_get_def cache_lookup_def split: option.split)
  show "cache_lookup g (snd (cache_get h c)) = cache_lookup g c"
    by (simp add: cache_get_def cs_get_def cache_lookup_def split: option.split)
  show "cache_lookup h c \<noteq> None \<Longrightarrow>
      cache_refs g (snd (cache_get h c)) = cache_refs g c + (if g = h then 1 else 0)"
    by (auto simp: cache_get_def cs_get_def cache_lookup_def cache_refs_def split: option.split)
  show "cache_lookup h c = None \<Longrightarrow> snd (cache_get h c) = c"
    by (simp add: cache_get_def cs_get_def cache_lookup_def)
  show "fst (cache_put m h s n c) \<Longrightarrow>
      cache_lookup h c = None \<and> cache_lookup h (snd (cache_put m h s n c)) = Some s \<and>
      cache_refs h (snd (cache_put m h s n c)) = 1"
    using put_tryagain_stores [of m h s n c "snd (put_tryagain m h s n c)"]
    by (auto simp: cache_put_def cache_lookup_def cache_refs_def cs_already_def prod_eq_iff
        split: if_splits)
  show "cache_lookup g c = Some v \<Longrightarrow> 0 < cache_refs g c \<Longrightarrow>
      cache_lookup g (snd (cache_put m h s n c)) = Some v \<and>
      cache_refs g (snd (cache_put m h s n c)) = cache_refs g c"
    using put_tryagain_keeps [of c g _ m h s n]
    by (auto simp: cache_put_def cache_lookup_def cache_refs_def)
  show "cache_lookup h c = Some v \<Longrightarrow> 1 < cache_refs h c \<Longrightarrow>
      cache_lookup h (cache_unget h c) = Some v \<and> cache_refs h (cache_unget h c) = cache_refs h c - 1"
    by (auto simp: cache_lookup_def cache_refs_def unget_table)
  show "g \<noteq> h \<Longrightarrow> cache_lookup g c = Some v \<Longrightarrow> 0 < cache_refs g c \<Longrightarrow>
      cache_lookup g (cache_unget h c) = Some v \<and> cache_refs g (cache_unget h c) = cache_refs g c"
    by (simp add: cache_lookup_def cache_refs_def unget_table_other)
  show "cache_lookup g (cs_advise h c) = cache_lookup g c"
    by (simp add: cs_advise_def cache_lookup_def split: option.split)
  show "cache_refs g (cs_advise h c) = cache_refs g c"
    by (simp add: cs_advise_def cache_refs_def split: option.split)
qed

end
