(* ===== verification/HTTP_CacheEntry.thy ===== *)
theory HTTP_CacheEntry
  imports HTTP_parsing
begin

text \<open>
  \<open>HTTP_CacheEntry.hpp\<close>, \<open>HTTP_CacheEntry.cpp\<close>: a response kept in the cache, with its
  headers, its age and freshness as the HTTP standard defines them, and the printer of its
  status line and headers. The clock is a parameter.
\<close>

section \<open>The entry\<close>

text \<open>The status is not initialised by the constructor: \<open>None\<close> until one is pushed.\<close>

record centry =
  szondisk :: size_t
  szincache :: size_t
  request_time :: time_t
  response_time :: time_t
  last_modified :: time_t
  ebuf :: string
  use_expires :: bool
  use_max_age :: bool
  max_age_value :: time_t
  enc :: content_coding
  date_value :: time_t
  age_value :: time_t
  expires_value :: time_t
  estat :: "status option"
  hdrmap :: "header \<Rightarrow> string option"
  omit_body :: bool
  asif_uncompressed :: bool

definition centry_new ::
  "size_t \<Rightarrow> size_t \<Rightarrow> time_t \<Rightarrow> time_t \<Rightarrow> time_t \<Rightarrow> string \<Rightarrow> content_coding \<Rightarrow> centry" where
  "centry_new ondisk incache reqt respt lastm b c =
     \<lparr>szondisk = ondisk, szincache = incache, request_time = reqt, response_time = respt,
      last_modified = lastm, ebuf = b, use_expires = False, use_max_age = False,
      max_age_value = 0, enc = c, date_value = respt, age_value = 0, expires_value = 0,
      estat = None, hdrmap = (\<lambda>_. None), omit_body = False, asif_uncompressed = False\<rparr>"

text \<open>Pushing a header, a status, a manipulator.\<close>

definition entry_hdr :: "header \<Rightarrow> string \<Rightarrow> centry \<Rightarrow> centry" where
  "entry_hdr h v c = c\<lparr>hdrmap := (hdrmap c)(h \<mapsto> v)\<rparr>"

definition entry_status :: "status \<Rightarrow> centry \<Rightarrow> centry" where
  "entry_status st c = c\<lparr>estat := Some st\<rparr>"

datatype manip = as_HEAD | as_identity

definition entry_manip :: "manip \<Rightarrow> centry \<Rightarrow> centry" where
  "entry_manip mp c =
     (case mp of as_HEAD \<Rightarrow> c\<lparr>omit_body := True\<rparr> | as_identity \<Rightarrow> c\<lparr>asif_uncompressed := True\<rparr>)"

section \<open>Age and freshness\<close>

definition corrected_received_age :: "time_t \<Rightarrow> centry \<Rightarrow> time_t" where
  "corrected_received_age now c =
     (let tmp = now - date_value c in if tmp > age_value c then tmp else age_value c)"

definition response_delay :: "centry \<Rightarrow> time_t" where
  "response_delay c = response_time c - request_time c"

definition corrected_initial_age :: "time_t \<Rightarrow> centry \<Rightarrow> time_t" where
  "corrected_initial_age now c = corrected_received_age now c + response_delay c"

definition resident_time :: "time_t \<Rightarrow> centry \<Rightarrow> time_t" where
  "resident_time now c = now - response_time c"

definition current_age :: "time_t \<Rightarrow> centry \<Rightarrow> time_t" where
  "current_age now c = corrected_initial_age now c + resident_time now c"

definition freshness_lifetime :: "centry \<Rightarrow> time_t" where
  "freshness_lifetime c =
     (if use_max_age c then max_age_value c else expires_value c - date_value c)"

definition response_is_fresh :: "time_t \<Rightarrow> centry \<Rightarrow> bool" where
  "response_is_fresh now c \<longleftrightarrow> freshness_lifetime c > current_age now c"

section \<open>Printing\<close>

definition package_name :: string where
  "package_name = ''filth''"

text \<open>
  \<open>o << c\<close>: the text, and the entry with the manipulators reset. \<open>ord\<close> is the order in
  which the iterator of the header map goes through it. A status that was never set is read
  uninitialised.
\<close>

definition content_length_of :: "centry \<Rightarrow> nat" where
  "content_length_of c =
     (if omit_body c then 0 else if asif_uncompressed c then unat (szondisk c)
      else unat (szincache c))"

definition entry_put :: "header list \<Rightarrow> centry \<Rightarrow> exc + (string \<times> centry)" where
  "entry_put ord c =
     (case estat c of
        None \<Rightarrow> Inl UB
      | Some st \<Rightarrow> Inr (
          HTTP_Version @ '' '' @ status_put st @ CRLF @
          header_put Content_Length @ show_nat (content_length_of c) @ CRLF @
          header_put Content_Encoding @
            content_coding_put (if asif_uncompressed c then identity else enc c) @ CRLF @
          header_put Server @ package_name @ CRLF @
          concat (map (\<lambda>h. header_put h @ the (hdrmap c h) @ CRLF) ord) @ CRLF,
          c\<lparr>omit_body := False, asif_uncompressed := False\<rparr>))"

section \<open>Lines\<close>

text \<open>The header lines in the order they are printed.\<close>

definition entry_fields :: "header list \<Rightarrow> centry \<Rightarrow> (header \<times> string) list" where
  "entry_fields ord c =
     [(Content_Length, show_nat (content_length_of c)),
      (Content_Encoding, content_coding_put (if asif_uncompressed c then identity else enc c)),
      (Server, package_name)] @ map (\<lambda>h. (h, the (hdrmap c h))) ord"

definition field_line :: "header \<times> string \<Rightarrow> string" where
  "field_line p = header_put (fst p) @ snd p"

definition status_line :: "status \<Rightarrow> string" where
  "status_line st = HTTP_Version @ '' '' @ status_put st"

lemma entry_put_lines:
  "estat c = Some st \<Longrightarrow> fst (projr (entry_put ord c)) =
     lines_text (status_line st # map field_line (entry_fields ord c)) @ CRLF"
  by (simp add: entry_put_def entry_fields_def field_line_def status_line_def lines_text_def CRLF_def
      o_def)

text \<open>The value of a field is the last one printed for it.\<close>

fun last_field :: "header \<Rightarrow> (header \<times> string) list \<Rightarrow> string option" where
  "last_field h [] = None"
| "last_field h ((g, v) # fs) =
     (case last_field h fs of Some w \<Rightarrow> Some w | None \<Rightarrow> if g = h then Some v else None)"

definition field_ok :: "header \<times> string \<Rightarrow> bool" where
  "field_ok p \<longleftrightarrow> CR \<notin> set (snd p) \<and> \<not> contains HTTP_Version (field_line p)"

lemma field_ok_line: "field_ok p \<Longrightarrow> ok_line npos (field_line p)"
  using header_put_chars [of "fst p"]
  by (auto simp: field_ok_def ok_line_def field_line_def too_long_def)

lemma field_slot: "field_ok p \<Longrightarrow> slot_of (field_line p) = Inr (Some (header_int (fst p)))"
  by (simp add: field_ok_def field_line_def header_line_slot)

lemma status_line_slot: "slot_of (status_line st) = Inr (Some reqln)"
  by (simp add: slot_of_def status_line_def contains_iff)

lemma status_put_no_CR: "CR \<notin> set (status_put st)"
proof -
  have "list_all (\<lambda>st. CR \<notin> set (status_put st)) all_status" by code_simp
  then show ?thesis using all_status_UNIV by (metis UNIV_I list_all_iff)
qed

lemma status_line_ok: "ok_line npos (status_line st)"
  using status_put_no_CR [of st] by (simp add: ok_line_def status_line_def HTTP_Version_def too_long_def)

lemma filter_fields:
  assumes "list_all field_ok fs"
  shows "(case filter (\<lambda>l. slot_of l = Inr (Some (header_int h))) (map field_line fs) of
      [] \<Rightarrow> None | xs \<Rightarrow> Some (last xs)) = map_option (\<lambda>v. field_line (h, v)) (last_field h fs)"
  using assms
proof (induction fs)
  case Nil
  then show ?case by simp
next
  case (Cons p fs)
  obtain g v where p: "p = (g, v)" by (cases p)
  have s: "slot_of (field_line p) = Inr (Some (header_int h)) \<longleftrightarrow> g = h"
    using Cons.prems field_slot [of p] header_int_inj by (auto simp: p)
  let ?F = "filter (\<lambda>l. slot_of l = Inr (Some (header_int h))) (map field_line fs)"
  have ih: "(case ?F of [] \<Rightarrow> None | xs \<Rightarrow> Some (last xs)) =
      map_option (\<lambda>v. field_line (h, v)) (last_field h fs)" using Cons by simp
  show ?case
  proof (cases "last_field h fs")
    case None
    then have "?F = []" using ih by (cases ?F) auto
    then show ?thesis using None s by (simp add: p)
  next
    case (Some w)
    then obtain x xs where "?F = x # xs" using ih by (cases ?F) auto
    then show ?thesis using Some ih s by (simp add: p)
  qed
qed

lemma last_field_map:
  "distinct ord \<Longrightarrow> last_field h (map (\<lambda>h. (h, f h)) ord) = (if h \<in> set ord then Some (f h) else None)"
  by (induction ord) auto

lemma last_field_append:
  "last_field h (xs @ ys) = (case last_field h ys of Some v \<Rightarrow> Some v | None \<Rightarrow> last_field h xs)"
  by (induction xs) (auto split: option.split prod.split)

definition entry_default :: "header \<Rightarrow> centry \<Rightarrow> string option" where
  "entry_default h c =
     (if h = Content_Length then Some (show_nat (content_length_of c))
      else if h = Content_Encoding
      then Some (content_coding_put (if asif_uncompressed c then identity else enc c))
      else if h = Server then Some package_name else None)"

lemma last_entry_field:
  assumes "distinct ord" and "set ord = {h. hdrmap c h \<noteq> None}"
  shows "last_field h (entry_fields ord c) =
    (case hdrmap c h of Some v \<Rightarrow> Some v | None \<Rightarrow> entry_default h c)"
proof -
  have "last_field h (map (\<lambda>h. (h, the (hdrmap c h))) ord) = hdrmap c h"
    using assms by (auto simp: last_field_map)
  then show ?thesis unfolding entry_fields_def
    by (subst last_field_append) (auto simp: entry_default_def split: option.split)
qed

section \<open>Properties\<close>

lemma entry_reparse:
  assumes "entry_put ord c = Inr (out, c')" and "distinct ord" and "set ord = {h. hdrmap c h \<noteq> None}"
    and "list_all field_ok (entry_fields ord c)"
  shows "\<exists>i' hdrs st. hdrs_get npos (str_new (out @ body)) empty_hdrs = Inr (True, i', hdrs) \<and>
    unread i' = body \<and> estat c = Some st \<and>
    hdrs ! reqln = HTTP_Version @ '' '' @ status_put st \<and>
    (\<forall>h. hdr hdrs h = (case hdrmap c h of Some v \<Rightarrow> header_put h @ v
      | None \<Rightarrow> (case entry_default h c of Some v \<Rightarrow> header_put h @ v | None \<Rightarrow> []))) \<and>
    c' = c\<lparr>omit_body := False, asif_uncompressed := False\<rparr>"
proof -
  obtain st where st: "estat c = Some st"
    using assms(1) by (auto simp: entry_put_def split: option.splits)
  have c': "c' = c\<lparr>omit_body := False, asif_uncompressed := False\<rparr>"
    using assms(1) st by (auto simp: entry_put_def)
  let ?fs = "entry_fields ord c" and ?ls = "status_line st # map field_line (entry_fields ord c)"
  have out: "out @ body = lines_text ?ls @ CRLF @ body"
    using entry_put_lines [OF st, of ord] assms(1) by simp
  have ok: "\<forall>l \<in> set ?ls. ok_line npos l"
    using assms(4) status_line_ok field_ok_line by (auto simp: list_all_iff)
  have sl: "\<forall>l \<in> set ?ls. \<exists>k. slot_of l = Inr k"
    using assms(4) status_line_slot field_slot by (fastforce simp: list_all_iff)
  obtain i' hdrs where p: "hdrs_get npos (str_new (out @ body)) empty_hdrs = Inr (True, i', hdrs)"
    "unread i' = body"
    and slots: "\<And>k. k \<le> reqln \<Longrightarrow> hdrs ! k =
      (case filter (\<lambda>l. slot_of l = Inr (Some k)) ?ls of [] \<Rightarrow> [] | xs \<Rightarrow> last xs)"
    using block_parse [OF ok sl, of body] unfolding out by blast
  have lt: "header_int h < reqln" for h
    using header_int_inv(2) [of h] by (simp add: table_simps)
  have "slot_of (field_line p) \<noteq> Inr (Some reqln)" if "p \<in> set ?fs" for p
    using that assms(4) field_slot [of p] lt [of "fst p"] by (auto simp: list_all_iff)
  then have "filter (\<lambda>l. slot_of l = Inr (Some reqln)) (map field_line ?fs) = []"
    by (auto simp: filter_empty_conv)
  then have r: "hdrs ! reqln = status_line st" using slots [of reqln] by (simp add: status_line_slot)
  have "hdr hdrs h = (case last_field h ?fs of Some v \<Rightarrow> header_put h @ v | None \<Rightarrow> [])" for h
  proof -
    have "slot_of (status_line st) \<noteq> Inr (Some (header_int h))"
      using lt [of h] by (simp add: status_line_slot)
    then have "hdr hdrs h = (case filter (\<lambda>l. slot_of l = Inr (Some (header_int h))) (map field_line ?fs)
        of [] \<Rightarrow> [] | xs \<Rightarrow> last xs)"
      using slots [of "header_int h"] lt [of h] by (simp add: hdr_def)
    then show ?thesis using filter_fields [OF assms(4), of h]
      by (cases "last_field h ?fs") (auto simp: field_line_def split: list.splits)
  qed
  then have "hdr hdrs h = (case hdrmap c h of Some v \<Rightarrow> header_put h @ v
      | None \<Rightarrow> (case entry_default h c of Some v \<Rightarrow> header_put h @ v | None \<Rightarrow> []))" for h
    by (simp add: last_entry_field [OF assms(2,3)] split: option.split)
  with p r st c' show ?thesis by (auto simp: status_line_def)
qed

text \<open>C14. What a cache entry prints is a well-formed response head: parsed, it is complete, leaves
  the body untouched, has the status in its first line, and carries for every header the value
  that was pushed last, the length, the encoding and the server name being added where they were
  not pushed. The manipulators hold for one printing only.\<close>

theorem entry_roundtrip:
  assumes "entry_put ord c = Inr (out, c')" and "distinct ord" and "set ord = {h. hdrmap c h \<noteq> None}"
    and "list_all field_ok (entry_fields ord c)"
  shows "\<exists>i' hdrs st. hdrs_get npos (str_new (out @ body)) empty_hdrs = Inr (True, i', hdrs) \<and>
    unread i' = body \<and> estat c = Some st \<and>
    hdrs ! reqln = HTTP_Version @ '' '' @ status_put st \<and>
    (\<forall>h. hdr hdrs h = (case hdrmap c h of Some v \<Rightarrow> header_put h @ v
      | None \<Rightarrow> (case entry_default h c of Some v \<Rightarrow> header_put h @ v | None \<Rightarrow> []))) \<and>
    c' = c\<lparr>omit_body := False, asif_uncompressed := False\<rparr>"
  by (rule entry_reparse [OF assms])

theorem entry_roundtrip_witness:
  "\<exists>i' hdrs. hdrs_get npos (str_new (fst (projr (entry_put [Date] (entry_manip as_HEAD (entry_status OK
      (entry_hdr Date ''now'' (centry_new 10 7 0 0 0 [] gzip)))))) @ ''body'')) empty_hdrs = Inr (True, i', hdrs) \<and>
    unread i' = ''body'' \<and> hdr hdrs Date = ''Date: now'' \<and> hdr hdrs Content_Length = ''Content-Length: 0''"
proof -
  let ?c = "entry_manip as_HEAD (entry_status OK (entry_hdr Date ''now'' (centry_new 10 7 0 0 0 [] gzip)))"
  let ?r = "entry_put [Date] ?c"
  have d: "{h. hdrmap ?c h \<noteq> None} = {Date}"
    by (auto simp: entry_manip_def entry_status_def entry_hdr_def centry_new_def)
  have f: "list_all field_ok (entry_fields [Date] ?c)" by code_simp
  have e: "?r = Inr (fst (projr ?r), snd (projr ?r))"
    by (simp add: entry_put_def entry_manip_def entry_status_def)
  have h: "hdrmap ?c Date = Some ''now''" "hdrmap ?c Content_Length = None"
    "entry_default Content_Length ?c = Some ''0''"
    "header_put Date = ''Date: ''" "header_put Content_Length = ''Content-Length: ''"
    by code_simp+
  show ?thesis using entry_roundtrip [OF e _ _ f, of "''body''"] d h by fastforce
qed

text \<open>Age and freshness. Against the age of RFC 2616, section 13.2.3, computed from the same
  times, the code's age is too large by the time the entry has spent in the cache, which it counts
  twice. Freshness, once lost, does not come back; and an entry that was given neither a maximum age
  nor an expiry time is never fresh, from the moment it arrives.\<close>

theorem entry_freshness:
  assumes "c = centry_new ondisk incache reqt respt lastm b e" and "respt \<le> now" and "reqt \<le> respt" and "0 < respt"
  shows "current_age now c = (max (max 0 (respt - date_value c)) 0 + (respt - reqt) + (now - respt))
      + (now - respt) \<and>
    \<not> response_is_fresh now c \<and>
    (\<forall>m now'. now \<le> now' \<longrightarrow> response_is_fresh now' (c\<lparr>use_max_age := True, max_age_value := m\<rparr>) \<longrightarrow>
      response_is_fresh now (c\<lparr>use_max_age := True, max_age_value := m\<rparr>)) \<and>
    (\<forall>m. response_is_fresh now (c\<lparr>use_max_age := True, max_age_value := m\<rparr>) \<longleftrightarrow>
      m > (respt - reqt) + 2 * (now - respt))"
  using assms
  by (auto simp: centry_new_def current_age_def corrected_initial_age_def corrected_received_age_def
      response_delay_def resident_time_def response_is_fresh_def freshness_lifetime_def Let_def)

theorem entry_freshness_witness:
  "\<not> response_is_fresh 160 ((centry_new 10 10 100 100 0 [] identity)\<lparr>use_max_age := True, max_age_value := 100\<rparr>) \<and>
   response_is_fresh 140 ((centry_new 10 10 100 100 0 [] identity)\<lparr>use_max_age := True, max_age_value := 100\<rparr>)"
  using entry_freshness [OF refl, of 100 160 100 10 10 0 "[]" identity]
    entry_freshness [OF refl, of 100 140 100 10 10 0 "[]" identity] by simp

end
