(* ===== verification/HTTP_Server_Work.thy ===== *)
theory HTTP_Server_Work
  imports HTTP_parsing Work HTTP_CacheEntry
begin

text \<open>
  \<open>HTTP_Work.hpp\<close>, \<open>HTTP_Server_Work.hpp\<close>, \<open>HTTP_Server_Work.cpp\<close>: the connection as a state
  machine that reads a request, has it answered and writes the response, its limits and the
  parsing of the request line. The virtual functions a derived class overrides are parameters
  of the definitions, and the locale \<open>server_hooks\<close> says what they must keep.
\<close>

section \<open>State\<close>

text \<open>
  The fields of \<open>HTTP_Work\<close> and \<open>HTTP_Server_Work\<close>. A pointer into a buffer is the text from
  there on. The last six fields are the connection's surroundings: what the kernel will
  deliver and accept, the bytes sent, \<open>errno\<close>, the failure of \<open>epoll_ctl\<close> if it is to fail,
  and the modes in which the work was rescheduled.
\<close>

record hwork = work +
  stat :: status
  inbuf :: istr
  outbuf :: istr
  inhdrs_done :: bool
  outhdrs_done :: bool
  inhdrs :: structured_hdrs
  inbody :: string
  inbody_sz :: size_t
  outbody :: string
  out :: string
  outhdrs_sz :: size_t
  outbody_sz :: size_t
  outsz :: size_t
  nosch :: bool
  rdq :: "rd_event list"
  wrq :: "wr_event list"
  wire :: string
  last_errno :: errno
  epoll_err :: "errno option"
  resched :: "work_mode list"

text \<open>The constructors, on a connection on which nothing has arrived.\<close>

definition hwork_new :: "fd \<Rightarrow> hwork" where
  "hwork_new d = \<lparr>wfd = d, wmode = mode_read, deleteme = False, stat = OK, inbuf = str_new [],
     outbuf = str_new [], inhdrs_done = False, outhdrs_done = False, inhdrs = empty_hdrs,
     inbody = [], inbody_sz = 0, outbody = [], out = [], outhdrs_sz = 0, outbody_sz = 0,
     outsz = 0, nosch = False, rdq = [], wrq = [], wire = [], last_errno = E0, epoll_err = None,
     resched = []\<rparr>"

definition cbufsz :: size_t where
  "cbufsz = 4096"

text \<open>The limits, \<open>-1\<close> when they are disabled.\<close>

record limits =
  max_line_len :: size_t
  max_req_uri :: size_t
  max_req_body :: size_t

text \<open>The largest limits.\<close>

definition no_limits :: limits where
  "no_limits = \<lparr>max_line_len = npos, max_req_uri = npos, max_req_body = npos\<rparr>"

definition over :: "size_t \<Rightarrow> size_t \<Rightarrow> bool" where
  "over mx n \<longleftrightarrow> mx \<noteq> npos \<and> n > mx"

text \<open>A result: the exception thrown, if any, and the state then.\<close>

type_synonym 'w thrown = "exc option \<times> 'w"

text \<open>\<open>w->sch->reschedule(this)\<close>.\<close>

definition reschedule :: "'a hwork_scheme \<Rightarrow> 'a hwork_scheme thrown" where
  "reschedule w =
     (case epoll_err w of
        Some e \<Rightarrow> (Some (ResourceErr ''epoll_ctl (EPOLL_CTL_MOD)'' e), w)
      | None \<Rightarrow> (None, w\<lparr>resched := resched w @ [wmode w]\<rparr>))"

text \<open>Pushing to the output stream.\<close>

definition push_out :: "string \<Rightarrow> 'a hwork_scheme \<Rightarrow> 'a hwork_scheme" where
  "push_out t w = w\<lparr>outbuf := str_put t (outbuf w)\<rparr>"

section \<open>Reading\<close>

text \<open>\<open>rduntil\<close> on this object's buffers.\<close>

definition read_into_inbuf :: "'a hwork_scheme \<Rightarrow> errno \<times> 'a hwork_scheme" where
  "read_into_inbuf w =
     (let (err, i, ev) = rduntil cbufsz (rdq w) (inbuf w) in
      (err, w\<lparr>inbuf := i, rdq := ev, last_errno := err\<rparr>))"

definition read_into_body :: "'a hwork_scheme \<Rightarrow> errno \<times> 'a hwork_scheme" where
  "read_into_body w =
     (let (err, b, left, ev) = rduntil_n cbufsz (rdq w) (inbody w) (inbody_sz w) (last_errno w) in
      (err, w\<lparr>inbody := b, inbody_sz := left, rdq := ev\<rparr>))"

definition read_fails :: "errno \<Rightarrow> bool" where
  "read_fails err \<longleftrightarrow> err \<noteq> E0 \<and> err \<noteq> EAGAIN \<and> err \<noteq> EWOULDBLOCK"

text \<open>
  The length of the body, and the part of it that is in the buffer already. The characters go
  through \<open>cbuf\<close>, which has room for \<open>cbufsz\<close>, the final NUL included.
\<close>

definition body_in_inbuf :: "'a hwork_scheme \<Rightarrow> 'a hwork_scheme thrown" where
  "body_in_inbuf w =
     (let n = inbody_sz w;
          (got, i) = (if 2 ^ 63 \<le> n then str_read 0 (inbuf w) else str_read (unat n) (inbuf w));
          i' = (if 2 ^ 63 \<le> n then i\<lparr>eofb := True, failb := True\<rparr> else i) in
      if length got \<ge> unat cbufsz then (Some UB, w)
      else (None, w\<lparr>inbuf := i', inbody_sz := n - of_nat (length got),
             inbody := inbody w @ c_string got\<rparr>))"

definition content_length :: "limits \<Rightarrow> 'a hwork_scheme \<Rightarrow> 'a hwork_scheme thrown" where
  "content_length lim w =
     (if hdr (inhdrs w) Content_Length = [] then (None, w)
      else case header_get (str_new (hdr (inhdrs w) Content_Length)) of
        Inl e \<Rightarrow> (Some e, w)
      | Inr (h, tmp) \<Rightarrow>
          let (n, tmp') = read_size tmp (inbody_sz w); w1 = w\<lparr>inbody_sz := n\<rparr> in
          if n > 0 then
            if over (max_req_body lim) n then (Some (HTTP_oops Request_Entity_Too_Large), w1)
            else body_in_inbuf w1
          else (None, w1))"

section \<open>Answering\<close>

text \<open>\<open>outbuf.get(cbuf, cbufsz, '\0')\<close> and what follows it: the response head becomes the output.\<close>

definition head_out :: "'a hwork_scheme \<Rightarrow> 'a hwork_scheme" where
  "head_out w =
     (let (got, ob) = str_get (unat cbufsz) NUL (outbuf w); t = c_string got in
      w\<lparr>outbuf := ob, out := t, outhdrs_sz := of_nat (length t), outsz := of_nat (length t)\<rparr>)"

text \<open>The label \<open>dropdown\<close>: an \<open>HTTP_oops\<close> thrown by \<open>prepare_response\<close> is answered with the
  status as the body.\<close>

definition oops_response :: "(status \<Rightarrow> 'a hwork_scheme \<Rightarrow> 'a hwork_scheme) \<Rightarrow> status \<Rightarrow>
    'a hwork_scheme \<Rightarrow> 'a hwork_scheme" where
  "oops_response on_oops st w =
     (let w1 = on_oops st (w\<lparr>outbuf := str_new []\<rparr>);
          b = status_strs ! status_int st;
          w2 = w1\<lparr>outbody := b, outbody_sz := of_nat (length b)\<rparr> in
      push_out (header_put Content_Length @ show_nat (unat (outbody_sz w2)) @ CRLF @ CRLF) w2)"

definition dropdown :: "('a hwork_scheme \<Rightarrow> 'a hwork_scheme thrown) \<Rightarrow>
    (status \<Rightarrow> 'a hwork_scheme \<Rightarrow> 'a hwork_scheme) \<Rightarrow> 'a hwork_scheme \<Rightarrow> 'a hwork_scheme thrown" where
  "dropdown prepare on_oops w =
     (case prepare w of
        (None, w1) \<Rightarrow> reschedule ((head_out w1)\<lparr>wmode := mode_write\<rparr>)
      | (Some (HTTP_oops st), w1) \<Rightarrow>
          reschedule ((head_out (oops_response on_oops st w1))\<lparr>wmode := mode_write\<rparr>)
      | (Some e, w1) \<Rightarrow> (Some e, w1))"

section \<open>The main loop\<close>

text \<open>
  \<open>operator()\<close>. Its jumps to \<open>pipeline_continue\<close> never form a cycle: from the end of a write
  to the reading of headers, from there to the reading of a body, which ends the call.
\<close>

definition read_body :: "('a hwork_scheme \<Rightarrow> 'a hwork_scheme thrown) \<Rightarrow>
    (status \<Rightarrow> 'a hwork_scheme \<Rightarrow> 'a hwork_scheme) \<Rightarrow> 'a hwork_scheme \<Rightarrow> 'a hwork_scheme thrown" where
  "read_body prepare on_oops w =
     (let (err, w1) = read_into_body w in
      if read_fails err then (Some (SocketErr ''read'' err), w1)
      else if inbody_sz w1 = 0 then dropdown prepare on_oops w1
      else reschedule w1)"

definition read_hdrs :: "limits \<Rightarrow> ('a hwork_scheme \<Rightarrow> 'a hwork_scheme thrown) \<Rightarrow>
    (status \<Rightarrow> 'a hwork_scheme \<Rightarrow> 'a hwork_scheme) \<Rightarrow> 'a hwork_scheme \<Rightarrow> 'a hwork_scheme thrown" where
  "read_hdrs lim prepare on_oops w =
     (let (err, w1) = read_into_inbuf w in
      if read_fails err then (Some (SocketErr ''read'' err), w1)
      else case hdrs_get (max_line_len lim) (inbuf w1) (inhdrs w1) of
        Inl e \<Rightarrow> (Some e, w1)
      | Inr (fin, i, hs) \<Rightarrow>
          let w2 = w1\<lparr>inbuf := i, inhdrs := hs, inhdrs_done := fin\<rparr> in
          if \<not> fin then reschedule w2
          else case content_length lim w2 of
              (Some e, w3) \<Rightarrow> (Some e, w3)
            | (None, w3) \<Rightarrow>
                if inbody_sz w3 = 0 then dropdown prepare on_oops w3
                else read_body prepare on_oops w3)"

definition read_case :: "limits \<Rightarrow> ('a hwork_scheme \<Rightarrow> 'a hwork_scheme thrown) \<Rightarrow>
    (status \<Rightarrow> 'a hwork_scheme \<Rightarrow> 'a hwork_scheme) \<Rightarrow> 'a hwork_scheme \<Rightarrow> 'a hwork_scheme thrown" where
  "read_case lim prepare on_oops w =
     (if inhdrs_done w then read_body prepare on_oops w else read_hdrs lim prepare on_oops w)"

text \<open>\<open>HTTP_Server_Work::reset\<close>.\<close>

definition base_reset :: "'a hwork_scheme \<Rightarrow> 'a hwork_scheme" where
  "base_reset w = w\<lparr>inhdrs_done := False, outhdrs_done := False, outbuf := str_new [],
     inhdrs := empty_hdrs, inbody := [], inbody_sz := 0, outbody := [], out := [],
     outhdrs_sz := 0, outbody_sz := 0, outsz := 0\<rparr>"

text \<open>After a whole response: is there more in the buffer?\<close>

definition next_request :: "limits \<Rightarrow> ('a hwork_scheme \<Rightarrow> 'a hwork_scheme thrown) \<Rightarrow>
    (status \<Rightarrow> 'a hwork_scheme \<Rightarrow> 'a hwork_scheme) \<Rightarrow> 'a hwork_scheme \<Rightarrow> 'a hwork_scheme thrown" where
  "next_request lim prepare on_oops w =
     (let i = str_ignore (inbuf w) in
      if good i then read_case lim prepare on_oops (w\<lparr>inbuf := str_unget i\<rparr>)
      else reschedule (w\<lparr>inbuf := str_new []\<rparr>))"

definition send_out :: "'a hwork_scheme \<Rightarrow> errno \<times> 'a hwork_scheme" where
  "send_out w =
     (let (err, ob, left, snt, ev) = wruntil (wrq w) (out w) (outsz w) (last_errno w) (wire w) in
      (err, w\<lparr>out := ob, outsz := left, wire := snt, wrq := ev\<rparr>))"

definition write_case :: "limits \<Rightarrow> ('a hwork_scheme \<Rightarrow> 'a hwork_scheme thrown) \<Rightarrow>
    (status \<Rightarrow> 'a hwork_scheme \<Rightarrow> 'a hwork_scheme) \<Rightarrow> ('a hwork_scheme \<Rightarrow> 'a hwork_scheme) \<Rightarrow>
    'a hwork_scheme \<Rightarrow> 'a hwork_scheme thrown" where
  "write_case lim prepare on_oops reset w =
     (let (err, w1) = send_out w in
      if err = EAGAIN \<or> err = EWOULDBLOCK then reschedule w1
      else if err = E0 \<and> outsz w1 = 0 then
        if \<not> outhdrs_done w1
        then reschedule (w1\<lparr>outhdrs_done := True, out := outbody w1, outsz := outbody_sz w1\<rparr>)
        else if nosch w1 then (None, w1)
        else if \<not> deleteme w1
        then next_request lim prepare on_oops ((base_reset (reset w1))\<lparr>wmode := mode_read\<rparr>)
        else (None, w1)
      else (Some (SocketErr ''write'' err), w1))"

definition server_step :: "limits \<Rightarrow> ('a hwork_scheme \<Rightarrow> 'a hwork_scheme thrown) \<Rightarrow>
    (status \<Rightarrow> 'a hwork_scheme \<Rightarrow> 'a hwork_scheme) \<Rightarrow> ('a hwork_scheme \<Rightarrow> 'a hwork_scheme) \<Rightarrow>
    'a hwork_scheme \<Rightarrow> 'a hwork_scheme thrown" where
  "server_step lim prepare on_oops reset w =
     (case wmode w of
        mode_read \<Rightarrow> read_case lim prepare on_oops w
      | mode_write \<Rightarrow> write_case lim prepare on_oops reset w)"

section \<open>The default hooks\<close>

definition base_prepare :: "'a hwork_scheme \<Rightarrow> 'a hwork_scheme thrown" where
  "base_prepare w =
     (None, (push_out (HTTP_Version @ '' '' @ status_put (stat w) @ CRLF @
        header_put Server @ package_name @ CRLF @ header_put Content_Length @ ''0'' @ CRLF @ CRLF) w)
      \<lparr>outbody := [], outbody_sz := 0\<rparr>)"

definition base_on_oops :: "status \<Rightarrow> 'a hwork_scheme \<Rightarrow> 'a hwork_scheme" where
  "base_on_oops st w = push_out (HTTP_Version @ '' '' @ status_put st @ CRLF @
     header_put Server @ package_name @ CRLF) (w\<lparr>stat := st\<rparr>)"

text \<open>\<open>async_setresponse\<close>: the head and the body of a response another connection obtained;
  \<open>mem\<close> tells whether the allocation succeeds. \<open>strncpy\<close> pads with NULs after the first one.\<close>

definition strncpy :: "string \<Rightarrow> nat \<Rightarrow> string" where
  "strncpy s n = (let t = take n (c_string s) in t @ replicate (n - length t) NUL)"

definition base_async_setresponse :: "bool \<Rightarrow> structured_hdrs \<Rightarrow> string \<Rightarrow> 'a hwork_scheme \<Rightarrow>
    'a hwork_scheme" where
  "base_async_setresponse mem resphdrs respbody w =
     (let w1 = head_out (push_out (hdrs_put resphdrs) (w\<lparr>outhdrs_done := False, outbuf := str_new []\<rparr>)) in
      if mem then w1\<lparr>outbody_sz := of_nat (length respbody), outbody := strncpy respbody (length respbody)\<rparr>
      else w1\<lparr>outbody := [], outbody_sz := 0\<rparr>)"

section \<open>The request line\<close>

definition dotdot :: string where
  "dotdot = ''..''"

definition parseuri :: "size_t \<Rightarrow> string \<Rightarrow> string \<Rightarrow> string \<Rightarrow> exc option \<times> string \<times> string" where
  "parseuri mx uri path query =
     (if over mx (of_nat (length uri)) then (Some (HTTP_oops Request_URI_Too_Long), path, query)
      else if uri = ''*'' then (None, ''*'', query)
      else if \<not> (case uri of c # _ \<Rightarrow> c = CHR ''/'' | [] \<Rightarrow> False) \<or> contains dotdot uri
      then (Some (HTTP_oops Bad_Request), path, query)
      else if uri = ''/'' then (None, ''/'', query)
      else case str_find ''?'' uri of
          Some qpos \<Rightarrow> (None, substr 1 (qpos - 1) uri, substr_from (qpos + 1) uri)
        | None \<Rightarrow> (None, substr_from 1 uri, query))"

text \<open>The method, the path and the query are set as far as the parser comes.\<close>

definition parsereqln :: "size_t \<Rightarrow> string \<Rightarrow> http_method option \<Rightarrow> string \<Rightarrow> string \<Rightarrow>
    exc option \<times> http_method option \<times> string \<times> string" where
  "parsereqln mx line meth path query =
     (case method_get (str_new line) of
        Inl e \<Rightarrow> (Some e, meth, path, query)
      | Inr (m, tmp) \<Rightarrow>
          let (uri, tmp1) = read_word tmp []; (e, path', query') = parseuri mx uri path query in
          case e of
            Some e \<Rightarrow> (Some e, Some m, path', query')
          | None \<Rightarrow>
              let (version, tmp2) = read_word tmp1 [] in
              if version \<noteq> HTTP_Version
              then (Some (HTTP_oops HTTP_Version_Not_Supported), Some m, path', query')
              else (None, Some m, path', query'))"

section \<open>Writing a response\<close>

text \<open>What is still to be sent of the current response.\<close>

definition pending :: "'a hwork_scheme \<Rightarrow> string" where
  "pending w = take (unat (outsz w)) (out w) @
     (if outhdrs_done w then [] else take (unat (outbody_sz w)) (outbody w))"

definition out_ok :: "'a hwork_scheme \<Rightarrow> bool" where
  "out_ok w \<longleftrightarrow> unat (outsz w) \<le> length (out w) \<and>
     (\<not> outhdrs_done w \<longrightarrow> unat (outbody_sz w) \<le> length (outbody w))"

lemma send_out_spec:
  assumes "out_ok w"
  shows "\<exists>err k ev. send_out w = (err, w\<lparr>out := drop k (out w), outsz := outsz w - of_nat k,
      wire := wire w @ take k (out w), wrq := ev\<rparr>) \<and> k \<le> unat (outsz w) \<and>
    k = min (unat (outsz w)) (room (wrq w)) \<and> (k = unat (outsz w) \<longrightarrow> err = E0)"
proof -
  let ?k = "min (unat (outsz w)) (room (wrq w))"
  obtain r ev where r: "wruntil (wrq w) (out w) (outsz w) (last_errno w) (wire w) =
        (r, drop ?k (out w), outsz w - of_nat ?k, wire w @ take ?k (out w), ev)"
      "?k = unat (outsz w) \<longrightarrow> r = E0"
    using wruntil_room [of "outsz w" "out w" "wrq w" "last_errno w" "wire w"] assms
    unfolding out_ok_def Let_def by blast
  have "send_out w = (r, w\<lparr>out := drop ?k (out w), outsz := outsz w - of_nat ?k,
      wire := wire w @ take ?k (out w), wrq := ev\<rparr>)"
    by (simp add: send_out_def r(1))
  then show ?thesis using r(2) by (intro exI [of _ r] exI [of _ ?k] exI [of _ ev]) simp
qed

lemma send_conserves:
  assumes "out_ok w" and "send_out w = (err, w1)"
  shows "wire w1 @ pending w1 = wire w @ pending w \<and> out_ok w1 \<and>
    (\<exists>b n s ev. w1 = w\<lparr>out := b, outsz := n, wire := s, wrq := ev\<rparr>)"
proof -
  obtain err' k ev where s: "send_out w = (err', w\<lparr>out := drop k (out w), outsz := outsz w - of_nat k,
      wire := wire w @ take k (out w), wrq := ev\<rparr>)" "k \<le> unat (outsz w)"
    using send_out_spec [OF assms(1)] by blast
  then have w1: "w1 = w\<lparr>out := drop k (out w), outsz := outsz w - of_nat k,
      wire := wire w @ take k (out w), wrq := ev\<rparr>" using assms(2) by simp
  have u: "unat (outsz w - of_nat k) = unat (outsz w) - k" using s(2) by (rule unat_diff_of_nat)
  have "take k (out w) @ take (unat (outsz w) - k) (drop k (out w)) = take (unat (outsz w)) (out w)"
    using s(2) by (metis le_add_diff_inverse take_add)
  then have "wire w1 @ pending w1 = wire w @ pending w"
    unfolding w1 pending_def by (simp add: u)
  moreover have "out_ok w1" using assms(1) unfolding w1 out_ok_def by (auto simp: u)
  ultimately show ?thesis using w1 by blast
qed

lemma reschedule_frame:
  "reschedule w = (e, w') \<Longrightarrow> \<exists>r. w' = w\<lparr>resched := r\<rparr>"
  by (auto simp: reschedule_def split: option.splits intro: exI [of _ "resched w"])

lemma pending_resched [simp]: "pending (w\<lparr>resched := r\<rparr>) = pending w" "out_ok (w\<lparr>resched := r\<rparr>) = out_ok w"
  by (simp_all add: pending_def out_ok_def)

section \<open>Reading a request\<close>

text \<open>A connection that waits for (the rest of) a request head.\<close>

definition awaiting :: "'a hwork_scheme \<Rightarrow> bool" where
  "awaiting w \<longleftrightarrow> wmode w = mode_read \<and> \<not> inhdrs_done w \<and> good (inbuf w) \<and> wf_istr (inbuf w) \<and>
     CR \<notin> set (unread (inbuf w)) \<and> epoll_err w = None"

text \<open>The work is called once for each arrival, as long as nothing is thrown.\<close>

fun serve :: "('a hwork_scheme \<Rightarrow> 'a hwork_scheme thrown) \<Rightarrow> rd_event list list \<Rightarrow> 'a hwork_scheme \<Rightarrow>
    'a hwork_scheme thrown" where
  "serve step [] w = (None, w)"
| "serve step (ev # evs) w =
     (case step (w\<lparr>rdq := ev\<rparr>) of
        (None, w') \<Rightarrow> serve step evs w'
      | (Some e, w') \<Rightarrow> (Some e, w'))"

text \<open>An arrival of bytes after which the socket would block.\<close>

definition arrival :: "string \<Rightarrow> rd_event list \<Rightarrow> bool" where
  "arrival c ev \<longleftrightarrow> arrived ev = c \<and> NUL \<notin> set c \<and> \<not> read_fails (stop_errno E0 ev)"

lemma read_into_inbuf_arrival:
  assumes "arrival c ev" and "good (inbuf w)"
  shows "\<exists>err ev'. \<not> read_fails err \<and> read_into_inbuf (w\<lparr>rdq := ev\<rparr>) =
    (err, w\<lparr>inbuf := str_put c (inbuf w), rdq := ev', last_errno := err\<rparr>)"
proof -
  have c: "arrived ev = c" "NUL \<notin> set (arrived ev)" "\<not> read_fails (stop_errno E0 ev)"
    using assms(1) by (auto simp: arrival_def)
  have "1 < cbufsz" by (simp add: cbufsz_def)
  then obtain ev' where "rduntil cbufsz ev (inbuf w) = (stop_errno E0 ev, str_put c (inbuf w), ev')"
    using rduntil_loop_arrived [of cbufsz "inbuf w" ev E0] assms(2) c(1,2) by (auto simp: rduntil_def)
  then have "read_into_inbuf (w\<lparr>rdq := ev\<rparr>) = (stop_errno E0 ev,
      w\<lparr>inbuf := str_put c (inbuf w), rdq := ev', last_errno := stop_errno E0 ev\<rparr>)"
    by (simp add: read_into_inbuf_def)
  with c(3) show ?thesis by blast
qed

lemma step_unfinished:
  assumes "awaiting w" and "arrival c ev"
    and "hdrs_get (max_line_len lim) (str_put c (inbuf w)) (inhdrs w) = Inr (False, i, h)"
  shows "\<exists>ev' err r. server_step lim prepare on_oops reset (w\<lparr>rdq := ev\<rparr>) =
    (None, w\<lparr>rdq := ev', last_errno := err, inbuf := i, inhdrs := h, inhdrs_done := False,
       resched := r\<rparr>)"
proof -
  obtain err ev' where r: "\<not> read_fails err" "read_into_inbuf (w\<lparr>rdq := ev\<rparr>) =
    (err, w\<lparr>inbuf := str_put c (inbuf w), rdq := ev', last_errno := err\<rparr>)"
    using read_into_inbuf_arrival [OF assms(2)] assms(1) unfolding awaiting_def by blast
  have "server_step lim prepare on_oops reset (w\<lparr>rdq := ev\<rparr>) =
    reschedule (w\<lparr>rdq := ev', last_errno := err, inbuf := i, inhdrs := h, inhdrs_done := False\<rparr>)"
    using assms(1,3) r by (simp add: server_step_def read_case_def read_hdrs_def awaiting_def)
  then show ?thesis using assms(1) by (auto simp: reschedule_def awaiting_def)
qed

lemma serve_append:
  "serve step (evs @ fs) w =
     (case serve step evs w of (None, w') \<Rightarrow> serve step fs w' | (Some e, w') \<Rightarrow> (Some e, w'))"
  by (induction evs arbitrary: w) (auto split: prod.split option.split)

text \<open>The cuts between the fragments: none is right after a carriage return.\<close>

definition cuts_ok :: "string \<Rightarrow> string list \<Rightarrow> bool" where
  "cuts_ok p cs \<longleftrightarrow> (\<forall>k. 0 < k \<longrightarrow> k \<le> length cs \<longrightarrow>
     (let q = p @ concat (take k cs) in q = [] \<or> last q \<noteq> CR))"

lemma cuts_ok_Cons:
  assumes "cuts_ok p (c # cs)" and "p @ c = l @ q"
  shows "cuts_ok q cs \<and> (p @ c = [] \<or> last (p @ c) \<noteq> CR)"
proof
  show "p @ c = [] \<or> last (p @ c) \<noteq> CR"
    using assms(1) [unfolded cuts_ok_def, rule_format, of 1] by (simp add: Let_def)
  show "cuts_ok q cs" unfolding cuts_ok_def
  proof (intro allI impI)
    fix k assume k: "0 < k" "k \<le> length cs"
    have "let q = p @ concat (take (Suc k) (c # cs)) in q = [] \<or> last q \<noteq> CR"
      using assms(1) [unfolded cuts_ok_def, rule_format, of "Suc k"] k by simp
    then have "let r = l @ q @ concat (take k cs) in r = [] \<or> last r \<noteq> CR"
      using assms(2) by (simp flip: append_assoc)
    then show "let r = q @ concat (take k cs) in r = [] \<or> last r \<noteq> CR"
      by (auto simp: Let_def last_append split: if_splits)
  qed
qed

lemma serve_unfinished:
  assumes "awaiting w" and "list_all2 arrival cs evs"
    and "prefix (unread (inbuf w) @ concat cs) (lines_text ls @ CR # LF # rest)"
    and "length (unread (inbuf w) @ concat cs) < length (lines_text ls) + 2"
    and "cuts_ok (unread (inbuf w)) cs" and "\<forall>l \<in> set ls. ok_line (max_line_len lim) l"
    and "fold_res store_line ls (inhdrs w) = Inr h"
  shows "\<exists>i h1 ls1 ls2 ev err r.
    serve (server_step lim prepare on_oops reset) evs w =
      (None, w\<lparr>rdq := ev, last_errno := err, inbuf := i, inhdrs := h1, resched := r\<rparr>) \<and>
    ls = ls1 @ ls2 \<and> fold_res store_line ls2 h1 = Inr h \<and> good i \<and> wf_istr i \<and>
    CR \<notin> set (unread i) \<and> unread (inbuf w) @ concat cs = lines_text ls1 @ unread i"
  using assms
proof (induction cs arbitrary: w evs ls)
  case Nil
  then have "evs = []" by simp
  then show ?case using Nil.prems(1,7)
    by (intro exI [of _ "inbuf w"] exI [of _ "inhdrs w"] exI [of _ "[]"] exI [of _ ls]
        exI [of _ "rdq w"] exI [of _ "last_errno w"] exI [of _ "resched w"])
      (simp add: awaiting_def)
next
  case (Cons c cs)
  obtain ev evs' where evs: "evs = ev # evs'" "arrival c ev" "list_all2 arrival cs evs'"
    using Cons.prems(2) by (auto simp: list_all2_Cons1)
  note aw = Cons.prems(1) [unfolded awaiting_def]
  let ?i = "str_put c (inbuf w)" and ?p = "unread (inbuf w) @ c"
  have u: "unread ?i = ?p" and g: "good ?i" "wf_istr ?i" using aw by (simp_all add: unread_put)
  have "prefix ?p (?p @ concat cs)" by simp
  then have pre: "prefix ?p (lines_text ls @ CR # LF # rest)"
    using Cons.prems(3) by (metis append_assoc concat.simps(2) prefix_order.trans)
  have len: "length ?p < length (lines_text ls) + 2" using Cons.prems(4) by simp
  have last: "?p = [] \<or> last ?p \<noteq> CR" using cuts_ok_Cons [OF Cons.prems(5), of "[]" ?p] by simp
  obtain ls1 ls2 part where d: "ls = ls1 @ ls2" "?p = lines_text ls1 @ part" "CR \<notin> set part"
      "\<not> too_long (max_line_len lim) part"
    using block_prefix [OF pre len last Cons.prems(6)] by blast
  obtain h1 where h1: "fold_res store_line ls1 (inhdrs w) = Inr h1" "fold_res store_line ls2 h1 = Inr h"
    using Cons.prems(7) by (auto simp: d(1) fold_res_append bind_res_Inr)
  let ?j = "?i\<lparr>gpos := gpos ?i + length (lines_text ls1)\<rparr>"
  have "hdrs_get (max_line_len lim) ?i (inhdrs w) = bind_res (fold_res store_line ls1 (inhdrs w))
      (\<lambda>h. Inr (False, ?j, h))"
    unfolding hdrs_get_def using g u d Cons.prems(6) by (intro parse_unfinished) auto
  then have "hdrs_get (max_line_len lim) ?i (inhdrs w) = Inr (False, ?j, h1)" using h1 by simp
  then obtain ev' err r where st: "server_step lim prepare on_oops reset (w\<lparr>rdq := ev\<rparr>) =
    (None, w\<lparr>rdq := ev', last_errno := err, inbuf := ?j, inhdrs := h1, inhdrs_done := False,
       resched := r\<rparr>)"
    using step_unfinished [OF Cons.prems(1) evs(2)] by blast
  let ?w = "w\<lparr>rdq := ev', last_errno := err, inbuf := ?j, inhdrs := h1, inhdrs_done := False,
       resched := r\<rparr>"
  have uj: "unread ?j = part" using u d(2) by (intro unread_advance) simp
  have wj: "wf_istr ?j" using g u d(2) by (intro wf_advance) auto
  have aw': "awaiting ?w" using aw g wj uj d(3) by (simp add: awaiting_def)
  have rest: "part @ concat cs = q \<Longrightarrow> lines_text ls1 @ q = unread (inbuf w) @ concat (c # cs)" for q
    using d(2) by (metis append_assoc concat.simps(2))
  have "prefix (part @ concat cs) (lines_text ls2 @ CR # LF # rest)"
    using Cons.prems(3) rest [OF refl] d(1) by (metis append_assoc lines_text_simps(3) same_prefix_prefix)
  moreover have "length (part @ concat cs) < length (lines_text ls2) + 2"
    using Cons.prems(4) arg_cong [OF d(2), of length] d(1) by simp
  moreover have "cuts_ok part cs" using cuts_ok_Cons [OF Cons.prems(5) d(2)] by simp
  ultimately obtain i h2 ls3 ls4 ev2 err2 r2 where ih:
    "serve (server_step lim prepare on_oops reset) evs' ?w =
      (None, ?w\<lparr>rdq := ev2, last_errno := err2, inbuf := i, inhdrs := h2, resched := r2\<rparr>)"
    "ls2 = ls3 @ ls4" "fold_res store_line ls4 h2 = Inr h" "good i" "wf_istr i"
    "CR \<notin> set (unread i)" "part @ concat cs = lines_text ls3 @ unread i"
    using Cons.IH [OF aw' evs(3), of ls2] uj h1(2) Cons.prems(6) d(1) by auto
  have nd: "w\<lparr>inhdrs_done := False\<rparr> = w" using aw by simp
  have "?w\<lparr>rdq := ev2, last_errno := err2, inbuf := i, inhdrs := h2, resched := r2\<rparr> =
      (w\<lparr>inhdrs_done := False\<rparr>)\<lparr>rdq := ev2, last_errno := err2, inbuf := i, inhdrs := h2, resched := r2\<rparr>"
    by simp
  then have "serve (server_step lim prepare on_oops reset) evs w =
      (None, w\<lparr>rdq := ev2, last_errno := err2, inbuf := i, inhdrs := h2, resched := r2\<rparr>)"
    using ih(1) st evs(1) unfolding nd by simp
  moreover have "ls = (ls1 @ ls3) @ ls4" using d(1) ih(2) by simp
  moreover have "unread (inbuf w) @ concat (c # cs) = lines_text (ls1 @ ls3) @ unread i"
    using rest [OF ih(7)] by simp
  ultimately show ?case using ih(3-6) by blast
qed

section \<open>What the hooks keep\<close>

text \<open>
  The contract between the main loop and the virtual functions a derived class overrides: they
  may fill the output stream and their own fields, but not touch the connection. \<open>prepare\<close>
  leaves a body of the announced size; \<open>own\<close> is an invariant of the derived class's own fields.
\<close>

definition conn_same :: "'a hwork_scheme \<Rightarrow> 'a hwork_scheme \<Rightarrow> bool" where
  "conn_same w w' \<longleftrightarrow> inbuf w' = inbuf w \<and> wire w' = wire w \<and> wmode w' = wmode w \<and>
     wfd w' = wfd w \<and> inhdrs_done w' = inhdrs_done w \<and> outhdrs_done w' = outhdrs_done w \<and>
     length (inhdrs w') = length (inhdrs w)"

text \<open>The response body has the announced size; nothing of a response has been sent.\<close>

definition body_ok :: "'a hwork_scheme \<Rightarrow> bool" where
  "body_ok w \<longleftrightarrow> unat (outbody_sz w) \<le> length (outbody w)"

definition unsent :: "'a hwork_scheme \<Rightarrow> bool" where
  "unsent w \<longleftrightarrow> \<not> outhdrs_done w \<and> body_ok w"

text \<open>The invariant of a connection between two calls.\<close>

definition conn_inv :: "'a hwork_scheme \<Rightarrow> bool" where
  "conn_inv w \<longleftrightarrow> wf_istr (inbuf w) \<and> length (inhdrs w) = 48 \<and> (wmode w = mode_write \<longrightarrow> out_ok w) \<and>
     (wmode w = mode_read \<longrightarrow> unsent w)"

text \<open>A step keeps it and appends to what has been sent.\<close>

definition step_ok :: "'a hwork_scheme \<Rightarrow> 'a hwork_scheme thrown \<Rightarrow> bool" where
  "step_ok w r \<longleftrightarrow> (case r of (None, w') \<Rightarrow> conn_inv w' \<and> prefix (wire w) (wire w') \<and> wfd w' = wfd w
     | (Some e, w') \<Rightarrow> prefix (wire w) (wire w') \<and> wfd w' = wfd w)"

locale server_hooks =
  fixes own :: "'a \<Rightarrow> bool"
    and prepare :: "'a hwork_scheme \<Rightarrow> 'a hwork_scheme thrown"
    and on_oops :: "status \<Rightarrow> 'a hwork_scheme \<Rightarrow> 'a hwork_scheme"
    and reset :: "'a hwork_scheme \<Rightarrow> 'a hwork_scheme"
  assumes prepare_conn: "prepare w = (e, w') \<Longrightarrow> conn_same w w'"
    and prepare_body: "own (hwork.more w) \<Longrightarrow> prepare w = (None, w') \<Longrightarrow> body_ok w \<Longrightarrow> body_ok w'"
    and prepare_own: "own (hwork.more w) \<Longrightarrow> prepare w = (e, w') \<Longrightarrow> own (hwork.more w')"
    and on_oops_own: "own (hwork.more w) \<Longrightarrow> own (hwork.more (on_oops st w))"
    and reset_own: "own (hwork.more w) \<Longrightarrow> own (hwork.more (reset w))"
    and on_oops_conn: "conn_same w (on_oops st w)"
    and reset_conn: "conn_same w (reset w)"
begin

lemma reschedule_ok:
  "conn_inv w \<Longrightarrow> wire w = wire v \<Longrightarrow> wfd w = wfd v \<Longrightarrow> step_ok v (reschedule w)"
  by (auto simp: step_ok_def reschedule_def conn_inv_def unsent_def body_ok_def split: option.splits)

lemma head_out_ok: "unat (outsz (head_out w)) \<le> length (out (head_out w))"
  by (simp add: head_out_def Let_def case_prod_beta unsigned_of_nat take_bit_nat_less_eq_self)

lemma head_out_same:
  "conn_same w (head_out w)" "outbody (head_out w) = outbody w" "outbody_sz (head_out w) = outbody_sz w"
  by (simp_all add: head_out_def Let_def case_prod_beta conn_same_def)

lemma oops_response_body:
  "body_ok (oops_response on_oops st w)"
  by (simp add: body_ok_def oops_response_def Let_def push_out_def unsigned_of_nat take_bit_nat_less_eq_self)

lemma oops_response_conn: "conn_same w (oops_response on_oops st w)"
  using on_oops_conn [of "w\<lparr>outbuf := str_new []\<rparr>" st]
  by (simp add: oops_response_def Let_def push_out_def conn_same_def)

lemma dropdown_ok:
  assumes "wf_istr (inbuf w)" and "length (inhdrs w) = 48" and "unsent w"
    and "wire w = wire v" and "wfd w = wfd v" and "own (hwork.more w)"
  shows "step_ok v (dropdown prepare on_oops w)"
proof -
  have ready: "step_ok v (reschedule ((head_out w1)\<lparr>wmode := mode_write\<rparr>))"
    if "conn_same w w1" "body_ok w1" for w1
    using that assms head_out_ok [of w1] head_out_same [of w1]
    by (intro reschedule_ok) (auto simp: conn_inv_def conn_same_def out_ok_def body_ok_def unsent_def)
  obtain e w1 where p: "prepare w = (e, w1)" by fastforce
  note same = prepare_conn [OF p]
  show ?thesis
  proof (cases e)
    case None
    then show ?thesis using p ready [OF same] prepare_body [OF assms(6)] assms(3) by (simp add: dropdown_def unsent_def)
  next
    case (Some x)
    show ?thesis
    proof (cases "\<exists>st. x = HTTP_oops st")
      case True
      then obtain st where "x = HTTP_oops st" by blast
      moreover have "conn_same w (oops_response on_oops st w1)"
        using same oops_response_conn [of w1 st] by (simp add: conn_same_def)
      ultimately show ?thesis
        using Some p ready [OF _ oops_response_body] by (simp add: dropdown_def)
    next
      case False
      then show ?thesis using Some p same assms(4,5)
        by (cases x) (auto simp: dropdown_def step_ok_def conn_same_def)
    qed
  qed
qed

lemma read_body_ok:
  assumes "wf_istr (inbuf w)" and "length (inhdrs w) = 48" and "unsent w" and "wmode w = mode_read"
    and "wire w = wire v" and "wfd w = wfd v" and "own (hwork.more w)"
  shows "step_ok v (read_body prepare on_oops w)"
proof -
  obtain err w1 where r: "read_into_body w = (err, w1)" by fastforce
  then have s: "inbuf w1 = inbuf w" "inhdrs w1 = inhdrs w" "unsent w1 = unsent w"
    "wmode w1 = wmode w" "wire w1 = wire w" "wfd w1 = wfd w" "hwork.more w1 = hwork.more w"
    by (auto simp: read_into_body_def unsent_def body_ok_def split: prod.splits)
  have "step_ok v (dropdown prepare on_oops w1)" using assms s by (intro dropdown_ok) auto
  moreover have "step_ok v (reschedule w1)"
    using assms s by (intro reschedule_ok) (auto simp: conn_inv_def)
  moreover have "step_ok v (Some e, w1)" for e using assms s by (simp add: step_ok_def)
  ultimately show ?thesis using r by (simp add: read_body_def)
qed

end

lemma str_read_wf: "wf_istr s \<Longrightarrow> str_read n s = (g, t) \<Longrightarrow> wf_istr t"
  by (auto simp: str_read_def wf_istr_def unread_length Let_def split: if_splits)

lemma unget_wf: "wf_istr s \<Longrightarrow> wf_istr (str_unget s)"
  by (auto simp: str_unget_def wf_istr_def)

lemma parse_end_wf: "parse_end l i h = (b, i', h') \<Longrightarrow> wf_istr i \<Longrightarrow> wf_istr i'"
  by (auto simp: parse_end_def Let_def intro!: seek_wf ignore_wf dest: peek_same split: prod.splits if_splits)

lemma parse_hdrs_istr:
  "parse_hdrs mx i old h = Inr (b, i', h') \<Longrightarrow> wf_istr i \<Longrightarrow> wf_istr i'"
proof (induction mx i old h rule: parse_hdrs.induct)
  case (1 mx i old h)
  obtain l i1 where g: "getline CR i old = (l, i1)" by fastforce
  obtain c i2 where p: "peek i1 = (c, i2)" by fastforce
  have w: "wf_istr i1" "wf_istr i2" using getline_wf [OF 1(3) g] peek_same [OF p] by simp_all
  show ?case
  proof (cases "failb i1 \<or> l = []")
    case True
    then show ?thesis using 1(2) g parse_end_wf w by (subst (asm) parse_hdrs.simps) auto
  next
    case nf: False
    then have ntl: "\<not> too_long mx l"
      using 1(2) g by (subst (asm) parse_hdrs.simps) (auto split: if_splits)
    show ?thesis
    proof (cases "c = Some LF")
      case False
      then show ?thesis using 1(2) g p nf ntl w seek_wf
        by (subst (asm) parse_hdrs.simps) auto
    next
      case True
      obtain h1 where h1: "store_line l h = Inr h1"
        and rec: "parse_hdrs mx (str_clear (str_ignore i2)) l h1 = Inr (b, i', h')"
        using 1(2) g p nf ntl True by (subst (asm) (1) parse_hdrs.simps) (auto split: sum.splits)
      show ?thesis
        using 1(1) [OF g [symmetric] refl nf ntl p [symmetric] refl _ h1 rec] True w ignore_wf by simp
    qed
  qed
qed

definition frame :: "'a hwork_scheme \<Rightarrow> 'a hwork_scheme \<Rightarrow> bool" where
  "frame w w' \<longleftrightarrow> hwork.more w' = hwork.more w \<and> outbody w' = outbody w \<and> outbody_sz w' = outbody_sz w \<and> length (inhdrs w') = length (inhdrs w) \<and> outhdrs_done w' = outhdrs_done w \<and> wmode w' = wmode w \<and>
     wire w' = wire w \<and> wfd w' = wfd w \<and> (wf_istr (inbuf w) \<longrightarrow> wf_istr (inbuf w'))"

lemma body_in_inbuf_frame: "body_in_inbuf w = (e, w1) \<Longrightarrow> frame w w1"
proof -
  assume b: "body_in_inbuf w = (e, w1)"
  obtain g1 i1 where r1: "str_read 0 (inbuf w) = (g1, i1)" by fastforce
  obtain g2 i2 where r2: "str_read (unat (inbody_sz w)) (inbuf w) = (g2, i2)" by fastforce
  have "wf_istr (inbuf w) \<Longrightarrow> wf_istr (i1\<lparr>eofb := x, failb := y\<rparr>)" for x y
    using str_read_wf [OF _ r1] by (simp add: wf_istr_def)
  moreover have "wf_istr (inbuf w) \<Longrightarrow> wf_istr i2" using str_read_wf [OF _ r2] by simp
  ultimately show "frame w w1"
    using b r1 r2 by (auto simp: body_in_inbuf_def frame_def Let_def split: if_splits)
qed

lemma content_length_frame: "content_length lim w = (e, w1) \<Longrightarrow> frame w w1"
proof -
  assume c: "content_length lim w = (e, w1)"
  have "frame w (w\<lparr>inbody_sz := n\<rparr>)" for n by (simp add: frame_def)
  moreover have "frame (w\<lparr>inbody_sz := n\<rparr>) w2 \<Longrightarrow> frame w w2" for n w2 by (simp add: frame_def)
  moreover have "frame w w" by (simp add: frame_def)
  ultimately show "frame w w1" using c
    by (auto simp: content_length_def Let_def dest!: body_in_inbuf_frame
        split: if_splits sum.splits prod.splits)
qed

context server_hooks
begin

lemma read_hdrs_ok:
  assumes "wf_istr (inbuf w)" and "length (inhdrs w) = 48" and "unsent w"
    and "wmode w = mode_read" and "wire w = wire v" and "wfd w = wfd v"
    and "own (hwork.more w)"
  shows "step_ok v (read_hdrs lim prepare on_oops w)"
proof -
  obtain err w1 where r: "read_into_inbuf w = (err, w1)" by fastforce
  have wfi: "wf_istr (inbuf w1)"
  proof -
    have "wf_istr i \<Longrightarrow> rduntil_loop n ev i err = (x, i', ev') \<Longrightarrow> wf_istr i'" for n ev i err x i' ev'
    proof (induction n ev i err rule: rduntil_loop.induct)
      case (1 n ev i err)
      then show ?case
        by (subst (asm) (3) rduntil_loop.simps) (auto split: prod.splits sum.splits if_splits)
    qed
    then show ?thesis using r assms(1)
      by (auto simp: read_into_inbuf_def rduntil_def split: prod.splits)
  qed
  have s: "inhdrs w1 = inhdrs w" "unsent w1 = unsent w" "wmode w1 = wmode w"
      "wire w1 = wire w" "wfd w1 = wfd w" "hwork.more w1 = hwork.more w"
    using r by (auto simp: read_into_inbuf_def unsent_def body_ok_def split: prod.splits)
  have err: "step_ok v (Some e, w')" if "wire w' = wire w" "wfd w' = wfd w" for e w'
    using that assms(5,6) by (simp add: step_ok_def)
  show ?thesis
  proof (cases "read_fails err \<or> isl (hdrs_get (max_line_len lim) (inbuf w1) (inhdrs w1))")
    case True
    then show ?thesis using r s err by (auto simp: read_hdrs_def isl_def)
  next
    case False
    then obtain fin i hs where h: "hdrs_get (max_line_len lim) (inbuf w1) (inhdrs w1) = Inr (fin, i, hs)"
      by (cases "hdrs_get (max_line_len lim) (inbuf w1) (inhdrs w1)") auto
    let ?w2 = "w1\<lparr>inbuf := i, inhdrs := hs, inhdrs_done := fin\<rparr>"
    have w2: "wf_istr i" "length hs = 48"
      using h wfi assms(2) s parse_hdrs_istr parse_hdrs_wf wf_hdrs_length
      by (auto simp: hdrs_get_def wf_hdrs_def table_simps)
    have unf: "step_ok v (reschedule ?w2)"
      using w2 s assms by (intro reschedule_ok) (auto simp: conn_inv_def unsent_def body_ok_def)
    obtain e w3 where c: "content_length lim ?w2 = (e, w3)" by fastforce
    have f: "wf_istr (inbuf w3)" "length (inhdrs w3) = 48" "unsent w3"
      "wmode w3 = mode_read" "wire w3 = wire v" "wfd w3 = wfd v" "own (hwork.more w3)"
      using content_length_frame [OF c] w2 s assms by (simp_all add: frame_def unsent_def body_ok_def)
    have "step_ok v (dropdown prepare on_oops w3)" "step_ok v (read_body prepare on_oops w3)"
      using f by (auto intro: dropdown_ok read_body_ok)
    then show ?thesis
      using r False h unf c err [of w3] f assms(5,6)
      by (cases e; cases fin) (auto simp: read_hdrs_def Let_def)
  qed
qed

lemma read_case_ok:
  assumes "wf_istr (inbuf w)" and "length (inhdrs w) = 48" and "unsent w"
    and "wmode w = mode_read" and "wire w = wire v" and "wfd w = wfd v"
    and "own (hwork.more w)"
  shows "step_ok v (read_case lim prepare on_oops w)"
  using assms by (auto simp: read_case_def intro: read_hdrs_ok read_body_ok)

lemma step_ok_prefix: "step_ok w1 r \<Longrightarrow> prefix (wire w) (wire w1) \<Longrightarrow> wfd w1 = wfd w \<Longrightarrow> step_ok w r"
  by (auto simp: step_ok_def split: option.splits prod.splits intro: prefix_order.trans)

lemma write_case_ok:
  assumes "conn_inv w" and "wmode w = mode_write" and "own (hwork.more w)"
  shows "step_ok w (write_case lim prepare on_oops reset w)"
proof -
  have ok: "out_ok w" and i: "wf_istr (inbuf w)" "length (inhdrs w) = 48"
    using assms by (auto simp: conn_inv_def)
  obtain err w1 where s: "send_out w = (err, w1)" by fastforce
  obtain err' k ev where s': "send_out w = (err', w\<lparr>out := drop k (out w), outsz := outsz w - of_nat k,
      wire := wire w @ take k (out w), wrq := ev\<rparr>)"
    using send_out_spec [OF ok] by blast
  have "w1 = w\<lparr>out := drop k (out w), outsz := outsz w - of_nat k,
      wire := wire w @ take k (out w), wrq := ev\<rparr>"
    using s s' by simp
  then have w1: "prefix (wire w) (wire w1)" "wfd w1 = wfd w" "inbuf w1 = inbuf w"
      "length (inhdrs w1) = 48" "wmode w1 = mode_write" "own (hwork.more w1)"
    using i(2) assms(2,3) by simp_all
  have w1': "out_ok w1" using send_conserves [OF ok s] by blast
  have "conn_inv w1" using w1 w1' i by (simp add: conn_inv_def)
  then have same: "step_ok w1 (reschedule w1)" "step_ok w1 (None, w1)" "step_ok w1 (Some e, w1)" for e
    by (simp_all add: step_ok_def reschedule_ok [unfolded step_ok_def])
  have hd: "step_ok w1 (reschedule (w1\<lparr>outhdrs_done := True, out := outbody w1, outsz := outbody_sz w1\<rparr>))"
    if "\<not> outhdrs_done w1"
    using w1 w1' i that by (intro reschedule_ok) (auto simp: conn_inv_def out_ok_def)
  let ?n = "(base_reset (reset w1))\<lparr>wmode := mode_read\<rparr>"
  have n: "inbuf ?n = inbuf w1" "length (inhdrs ?n) = 48" "unsent ?n" "wire ?n = wire w1" "wfd ?n = wfd w1"
    "own (hwork.more ?n)"
    using reset_conn [of w1] reset_own [OF w1(6)] wf_hdrs_length [OF wf_empty_hdrs]
    by (simp_all add: conn_same_def base_reset_def unsent_def body_ok_def)
  have "step_ok w1 (read_case lim prepare on_oops (?n\<lparr>inbuf := str_unget (str_ignore (inbuf ?n))\<rparr>))"
    using n w1(3) i by (intro read_case_ok) (auto simp: unsent_def body_ok_def intro: unget_wf ignore_wf)
  moreover have "step_ok w1 (reschedule (?n\<lparr>inbuf := str_new []\<rparr>))"
    using n by (intro reschedule_ok) (auto simp: conn_inv_def unsent_def body_ok_def)
  ultimately have "step_ok w1 (next_request lim prepare on_oops ?n)"
    by (simp add: next_request_def Let_def)
  then have "step_ok w1 (write_case lim prepare on_oops reset w)"
    using s same hd by (simp add: write_case_def)
  then show ?thesis using w1(1,2) by (rule step_ok_prefix)
qed

lemma server_step_ok:
  assumes "conn_inv w" and "own (hwork.more w)"
  shows "step_ok w (server_step lim prepare on_oops reset w)"
  using assms write_case_ok [OF assms(1) _ assms(2)]
  by (auto simp: server_step_def conn_inv_def split: work_mode.splits intro: read_case_ok)

text \<open>What a derived class keeps of its own fields holds after every step.\<close>

lemma reschedule_own: "hwork.more (snd (reschedule w)) = hwork.more w"
  by (simp add: reschedule_def split: option.split)

lemma head_out_own: "hwork.more (head_out w) = hwork.more w"
  by (simp add: head_out_def Let_def case_prod_beta)

lemma dropdown_own:
  assumes "own (hwork.more w)"
  shows "own (hwork.more (snd (dropdown prepare on_oops w)))"
proof -
  obtain e w1 where p: "prepare w = (e, w1)" by fastforce
  have o: "own (hwork.more w1)" using prepare_own [OF assms p] .
  then have "own (hwork.more (on_oops st (w1\<lparr>outbuf := str_new []\<rparr>)))" for st by (intro on_oops_own) simp
  then have "own (hwork.more (oops_response on_oops st w1))" for st
    by (simp add: oops_response_def Let_def push_out_def)
  then show ?thesis using o p
    by (auto simp: dropdown_def reschedule_own head_out_own split: option.split exc.split)
qed

lemma read_body_own: "own (hwork.more w) \<Longrightarrow> own (hwork.more (snd (read_body prepare on_oops w)))"
  using dropdown_own by (auto simp: read_body_def read_into_body_def reschedule_own split: prod.split)

lemma read_case_own: "own (hwork.more w) \<Longrightarrow> own (hwork.more (snd (read_case lim prepare on_oops w)))"
proof -
  assume o: "own (hwork.more w)"
  have "hwork.more w3 = hwork.more w2" if "content_length lim w2 = (e, w3)" for w2 w3 e
    using content_length_frame [OF that] by (simp add: frame_def)
  then have "own (hwork.more (snd (read_hdrs lim prepare on_oops w)))"
    using o by (fastforce simp: read_hdrs_def read_into_inbuf_def reschedule_own Let_def
        split: prod.split sum.split option.split intro!: dropdown_own read_body_own)
  then show ?thesis using read_body_own [OF o] by (simp add: read_case_def)
qed

lemma server_step_own:
  assumes "own (hwork.more w)"
  shows "own (hwork.more (snd (server_step lim prepare on_oops reset w)))"
proof -
  have n: "own (hwork.more (snd (next_request lim prepare on_oops ((base_reset (reset v))\<lparr>wmode := mode_read\<rparr>))))"
    if "own (hwork.more v)" for v
    using reset_own [OF that] by (auto simp: next_request_def Let_def base_reset_def reschedule_own intro!: read_case_own)
  have "own (hwork.more (snd (write_case lim prepare on_oops reset w)))"
    using assms n by (auto simp: write_case_def send_out_def reschedule_own split: prod.split)
  then show ?thesis using read_case_own [OF assms] by (simp add: server_step_def split: work_mode.split)
qed

end

text \<open>The hooks of \<open>HTTP_Server_Work\<close> itself; its own \<open>reset\<close> is always called in addition.\<close>

interpretation base: server_hooks "\<lambda>_. True" base_prepare base_on_oops "\<lambda>w. w"
proof
  fix w w' :: "'a hwork_scheme" and e st
  show "base_prepare w = (e, w') \<Longrightarrow> conn_same w w'"
    by (auto simp: base_prepare_def push_out_def conn_same_def)
  show "base_prepare w = (None, w') \<Longrightarrow> body_ok w \<Longrightarrow> body_ok w'"
    by (auto simp: base_prepare_def body_ok_def)
  show "conn_same w (base_on_oops st w)"
    by (simp add: base_on_oops_def push_out_def conn_same_def)
  show "conn_same w w" by (simp add: conn_same_def)
qed simp_all

section \<open>Properties\<close>

text \<open>The parts of a request head, and the answer to it.\<close>

lemma head_answered:
  assumes "awaiting w" and "list_all2 arrival cs evs" and "arrival c ev"
    and "unread (inbuf w) @ concat cs @ c = lines_text ls @ CRLF @ rest"
    and "length (unread (inbuf w) @ concat cs) < length (lines_text ls) + 2"
    and "cuts_ok (unread (inbuf w)) cs" and "\<forall>l \<in> set ls. ok_line (max_line_len lim) l"
    and "fold_res store_line ls (inhdrs w) = Inr h"
    and "hdr h Content_Length = []" and "inbody_sz w = 0"
  shows "\<exists>i ev' err r. unread i = rest \<and> good i \<and>
    serve (server_step lim prepare on_oops reset) (evs @ [ev]) w =
      dropdown prepare on_oops (w\<lparr>rdq := ev', last_errno := err, inbuf := i, inhdrs := h,
        inhdrs_done := True, resched := r\<rparr>)"
proof -
  have pre: "prefix (unread (inbuf w) @ concat cs) (lines_text ls @ CR # LF # rest)"
    using assms(4) by (simp add: CRLF_def prefix_def) (metis append_assoc)
  obtain i h1 ls1 ls2 ev1 err1 r1 where s:
    "serve (server_step lim prepare on_oops reset) evs w =
      (None, w\<lparr>rdq := ev1, last_errno := err1, inbuf := i, inhdrs := h1, resched := r1\<rparr>)"
    "ls = ls1 @ ls2" "fold_res store_line ls2 h1 = Inr h" "good i" "wf_istr i"
    "CR \<notin> set (unread i)" "unread (inbuf w) @ concat cs = lines_text ls1 @ unread i"
    using serve_unfinished [OF assms(1,2) pre assms(5-8)] by blast
  let ?w1 = "w\<lparr>rdq := ev1, last_errno := err1, inbuf := i, inhdrs := h1, resched := r1\<rparr>"
  let ?i = "str_put c i"
  have u: "unread ?i = lines_text ls2 @ CR # LF # rest"
    using assms(4) s(2,4,5,7) by (simp add: unread_put CRLF_def) (metis append_assoc same_append_eq)
  let ?j = "?i\<lparr>gpos := gpos ?i + length (lines_text ls2) + 2\<rparr>"
  have "hdrs_get (max_line_len lim) ?i h1 =
      bind_res (fold_res store_line ls2 h1) (\<lambda>h. Inr (True, ?j, h))"
    unfolding hdrs_get_def using u s(2,4) assms(7) by (intro parse_block) auto
  then have p: "hdrs_get (max_line_len lim) ?i h1 = Inr (True, ?j, h)" using s(3) by simp
  obtain err2 ev2 where r: "\<not> read_fails err2" "read_into_inbuf (?w1\<lparr>rdq := ev\<rparr>) =
    (err2, ?w1\<lparr>inbuf := str_put c (inbuf ?w1), rdq := ev2, last_errno := err2\<rparr>)"
    using read_into_inbuf_arrival [OF assms(3), of ?w1] s(4) by auto
  have aw: "wmode w = mode_read" "\<not> inhdrs_done w" using assms(1) by (auto simp: awaiting_def)
  let ?fin = "w\<lparr>rdq := ev2, last_errno := err2, inbuf := ?j, inhdrs := h, inhdrs_done := True,
      resched := r1\<rparr>"
  have eq: "w\<lparr>resched := r1, rdq := ev2, last_errno := err2, inbuf := ?j, inhdrs := h,
      inhdrs_done := True\<rparr> = ?fin" by simp
  have "server_step lim prepare on_oops reset (?w1\<lparr>rdq := ev\<rparr>) =
      dropdown prepare on_oops (w\<lparr>resched := r1, rdq := ev2, last_errno := err2, inbuf := ?j,
        inhdrs := h, inhdrs_done := True\<rparr>)"
    using aw r p assms(9,10)
    by (simp add: server_step_def read_case_def read_hdrs_def content_length_def)
  then have fin: "server_step lim prepare on_oops reset (?w1\<lparr>rdq := ev\<rparr>) = dropdown prepare on_oops ?fin"
    unfolding eq .
  have "serve (server_step lim prepare on_oops reset) (evs @ [ev]) w = dropdown prepare on_oops ?fin"
    unfolding serve_append s(1) prod.case option.case serve.simps fin
    by (auto split: prod.split option.split)
  moreover have "unread (?i\<lparr>gpos := gpos ?i + length (lines_text ls2 @ [CR, LF])\<rparr>) = rest"
    using u by (intro unread_advance) simp
  then have "unread ?j = rest" by simp
  moreover have "good ?j" using s(4) by simp
  ultimately show ?thesis by blast
qed





text \<open>C7. Nothing of a response is lost or sent twice, however little the socket accepts at a time:
  in every call of a connection that is writing, the bytes already sent followed by those still to
  be sent are the same before and after, until the last byte is out; then the state of the request is
  cleared, by the derived class and the base class, before the next request is read.\<close>

theorem response_conserved:
  assumes "wmode w = mode_write" and "out_ok w"
  shows "(\<exists>e w'. server_step lim prepare on_oops reset w = (e, w') \<and>
      wire w' @ pending w' = wire w @ pending w \<and> out_ok w' \<and> wmode w' = mode_write) \<or>
    (\<exists>w1. outhdrs_done w \<and> wire w1 = wire w @ pending w \<and> outsz w1 = 0 \<and> inbuf w1 = inbuf w \<and>
      \<not> nosch w1 \<and> \<not> deleteme w1 \<and> server_step lim prepare on_oops reset w =
        next_request lim prepare on_oops ((base_reset (reset w1))\<lparr>wmode := mode_read\<rparr>))"
proof -
  obtain err w1 where s: "send_out w = (err, w1)" by fastforce
  obtain b n t ev where w1: "w1 = w\<lparr>out := b, outsz := n, wire := t, wrq := ev\<rparr>"
    and c: "wire w1 @ pending w1 = wire w @ pending w" "out_ok w1"
    using send_conserves [OF assms(2) s] by blast
  have m: "wmode w1 = mode_write" using w1 assms(1) by simp
  let ?r = "server_step lim prepare on_oops reset w"
  have step: "?r = write_case lim prepare on_oops reset w" using assms(1) by (simp add: server_step_def)
  have keep: "wire w' @ pending w' = wire w @ pending w \<and> out_ok w' \<and> wmode w' = mode_write"
    if "reschedule w1 = (e, w')" for e w'
    using reschedule_frame [OF that] c m by auto
  have head: "wire w' @ pending w' = wire w @ pending w \<and> out_ok w' \<and> wmode w' = mode_write"
    if "reschedule (w1\<lparr>outhdrs_done := True, out := outbody w1, outsz := outbody_sz w1\<rparr>) = (e, w')"
      "\<not> outhdrs_done w1" "outsz w1 = 0" for e w'
    using reschedule_frame [OF that(1)] c m that(2,3) by (auto simp: pending_def out_ok_def)
  show ?thesis
  proof (cases "err = EAGAIN \<or> err = EWOULDBLOCK \<or> \<not> (err = E0 \<and> outsz w1 = 0) \<or> \<not> outhdrs_done w1 \<or>
      nosch w1 \<or> deleteme w1")
    case True
    then show ?thesis unfolding step
      by (cases "reschedule w1"; cases "reschedule (w1\<lparr>outhdrs_done := True, out := outbody w1,
          outsz := outbody_sz w1\<rparr>)") (use s keep head c m in \<open>auto simp: write_case_def\<close>)
  next
    case False
    then have "?r = next_request lim prepare on_oops ((base_reset (reset w1))\<lparr>wmode := mode_read\<rparr>)"
      unfolding step using s by (simp add: write_case_def)
    moreover have "pending w1 = []" using False by (simp add: pending_def)
    ultimately show ?thesis using False c(1) w1 by (intro disjI2 exI [of _ w1]) auto
  qed
qed

theorem response_conserved_witness:
  "let w = (hwork_new 5)\<lparr>wmode := mode_write, out := ''head'', outsz := 4, outbody := ''body'',
      outbody_sz := 4, wrq := [Room 3]\<rparr> in
    \<exists>e w'. server_step no_limits base_prepare base_on_oops (\<lambda>w. w) w = (e, w') \<and> wire w' @ pending w' = ''headbody''"
proof -
  let ?w = "(hwork_new 5)\<lparr>wmode := mode_write, out := ''head'', outsz := 4, outbody := ''body'',
      outbody_sz := 4, wrq := [Room 3]\<rparr>"
  have w: "wmode ?w = mode_write" "out_ok ?w" "wire ?w @ pending ?w = ''headbody''" "\<not> outhdrs_done ?w"
    by (simp_all add: hwork_new_def out_ok_def pending_def)
  show ?thesis
    using response_conserved [OF w(1,2), of no_limits base_prepare base_on_oops "\<lambda>w. w"] w(3,4)
    unfolding Let_def by metis
qed

text \<open>C18. Pipelining. When a response is complete, what the client has already sent of its next requests
  is not lost: the reading goes on at once with exactly the unread bytes of the buffer and with the
  state of a new request; only when there are none is the connection scheduled for reading.\<close>

theorem pipelined_kept:
  assumes "wf_istr (inbuf w)" and "good (inbuf w) \<or> unread (inbuf w) = []"
  shows "next_request lim prepare on_oops (base_reset w) =
      (if unread (inbuf w) = [] then reschedule ((base_reset w)\<lparr>inbuf := str_new []\<rparr>)
       else read_case lim prepare on_oops (base_reset w)) \<and>
    inbuf (base_reset w) = inbuf w \<and> \<not> inhdrs_done (base_reset w) \<and>
    inhdrs (base_reset w) = empty_hdrs \<and> inbody (base_reset w) = [] \<and> inbody_sz (base_reset w) = 0 \<and>
    pending (base_reset w) = [] \<and> unread (outbuf (base_reset w)) = []"
proof -
  have i: "inbuf (base_reset w) = inbuf w" by (simp add: base_reset_def)
  have "next_request lim prepare on_oops (base_reset w) =
      (if unread (inbuf w) = [] then reschedule ((base_reset w)\<lparr>inbuf := str_new []\<rparr>)
       else read_case lim prepare on_oops (base_reset w))"
  proof (cases "unread (inbuf w) = []")
    case True
    then have "\<not> good (str_ignore (inbuf w))" by (auto simp: str_ignore_def good_def)
    then show ?thesis using True by (simp add: next_request_def i)
  next
    case False
    then have g: "good (inbuf w)" using assms(2) by simp
    then have "good (str_ignore (inbuf w))" using False
      by (auto simp: str_ignore_def good_def split: list.splits)
    moreover have "str_unget (str_ignore (inbuf w)) = inbuf w" using g False by (rule ignore_unget)
    ultimately have "next_request lim prepare on_oops (base_reset w) =
        read_case lim prepare on_oops ((base_reset w)\<lparr>inbuf := inbuf w\<rparr>)"
      by (simp add: next_request_def i)
    moreover have same: "(base_reset w)\<lparr>inbuf := inbuf w\<rparr> = base_reset w" by (simp add: base_reset_def)
    ultimately show ?thesis using False unfolding same by simp
  qed
  then show ?thesis by (simp add: base_reset_def pending_def)
qed

theorem pipelined_kept_witness:
  "next_request no_limits base_prepare base_on_oops (base_reset ((hwork_new 5)\<lparr>inbuf := str_new ''GET''\<rparr>)) =
    read_case no_limits base_prepare base_on_oops (base_reset ((hwork_new 5)\<lparr>inbuf := str_new ''GET''\<rparr>))"
  using pipelined_kept [of "(hwork_new 5)\<lparr>inbuf := str_new ''GET''\<rparr>" no_limits base_prepare base_on_oops]
  by (simp add: hwork_new_def)

text \<open>The limits. A request line longer than the maximum, or one with an unacceptable URI or version,
  is an \<open>HTTP_oops\<close> of \<open>prepare_response\<close> and answered; but a body larger than the maximum, like
  a header line that is too long, is thrown while the request is being read, outside the handler: the exception
  leaves the main loop (and the worker, which catches none but socket errors).\<close>

theorem body_limit_escapes:
  assumes "wmode w = mode_read" and "\<not> inhdrs_done w" and "read_into_inbuf w = (err, w1)"
    and "\<not> read_fails err"
    and "hdrs_get (max_line_len lim) (inbuf w1) (inhdrs w1) = Inr (True, i, h)"
    and "hdr h Content_Length = header_put Content_Length @ show_nat n"
    and "n < 2 ^ 64" and "over (max_req_body lim) (of_nat n)"
  shows "\<exists>w'. server_step lim prepare on_oops reset w = (Some (HTTP_oops Request_Entity_Too_Large), w') \<and>
    wire w' = wire w1 \<and> wmode w' = mode_read"
proof -
  let ?t = "header_put Content_Length @ show_nat n"
  have "unread (str_new ?t) = [] @ butlast (butlast (header_put Content_Length)) @ [] @ CHR '':'' # SP # show_nat n"
    by (simp add: header_put_def butlast_append)
  then obtain tmp where tmp: "header_get (str_new ?t) = Inr (Content_Length, tmp)"
      "unread tmp = SP # show_nat n" "good tmp"
    using header_get_print [of "str_new ?t" "[]" Content_Length "[]" "SP # show_nat n"] by auto
  have r: "fst (read_size tmp old) = of_nat n" for old
    using tmp(2,3) assms(7) by (intro read_size_show [where ws = "[SP]" and rest = "[]"]) (auto simp: isspace_def)
  have pos: "(of_nat n :: size_t) > 0" using assms(8) by (auto simp: over_def intro: le_less_trans [OF word_zero_le])
  let ?w2 = "w1\<lparr>inbuf := i, inhdrs := h, inhdrs_done := True\<rparr>"
  have ne: "?t \<noteq> []" by simp
  have c: "content_length lim ?w2 = (Some (HTTP_oops Request_Entity_Too_Large), ?w2\<lparr>inbody_sz := of_nat n\<rparr>)"
    using assms(6,8) tmp(1) r [of "inbody_sz w1"] pos ne
    by (simp add: content_length_def Let_def case_prod_beta)
  have "wmode w1 = wmode w" using assms(3) by (auto simp: read_into_inbuf_def split: prod.splits)
  then show ?thesis
    using assms(1-5) c by (simp add: server_step_def read_case_def read_hdrs_def Let_def)
qed

theorem body_limit_escapes_witness:
  "\<exists>w'. server_step \<lparr>max_line_len = npos, max_req_uri = npos, max_req_body = 100\<rparr> base_prepare base_on_oops
      (\<lambda>w. w) ((hwork_new 5)\<lparr>rdq := [Data (''Content-Length: 101'' @ CRLF @ CRLF)]\<rparr>) =
    (Some (HTTP_oops Request_Entity_Too_Large), w')"
proof -
  let ?lim = "\<lparr>max_line_len = npos, max_req_uri = npos, max_req_body = 100\<rparr>"
  let ?t = "''Content-Length: 101'' @ CRLF @ CRLF"
  let ?w = "(hwork_new 5)\<lparr>rdq := [Data ?t]\<rparr>"
  let ?w1 = "?w\<lparr>inbuf := str_new ?t, rdq := [], last_errno := EAGAIN\<rparr>"
  have a: "wmode ?w = mode_read" "\<not> inhdrs_done ?w" by (simp_all add: hwork_new_def)
  have b: "read_into_inbuf ?w = (EAGAIN, ?w1)" by code_simp
  have c: "hdrs_get (max_line_len ?lim) (inbuf ?w1) (inhdrs ?w1) =
    Inr (True, (str_new ?t)\<lparr>gpos := 23\<rparr>, empty_hdrs[header_int Content_Length := ''Content-Length: 101''])"
    by code_simp
  have d: "hdr (empty_hdrs[header_int Content_Length := ''Content-Length: 101'']) Content_Length =
    header_put Content_Length @ show_nat 101" by code_simp
  have e: "over (max_req_body ?lim) (of_nat 101)" by (simp add: over_def npos_def)
  have f: "\<not> read_fails EAGAIN" by (simp add: read_fails_def)
  show ?thesis
    using body_limit_escapes [OF a b f c d _ e, of base_prepare base_on_oops "\<lambda>w. w"] by auto
qed

text \<open>C28. The path of a request. An accepted URI is within the length limit and yields a path without
  \<open>..\<close>, which is the URI without its first slash and its query; but a second slash survives: the
  path of \<open>//etc/passwd\<close> is absolute, outside the directory the server serves.\<close>

theorem uri_confined:
  assumes "parseuri mx uri path0 query0 = (None, path, query)"
  shows "\<not> over mx (of_nat (length uri)) \<and> \<not> contains dotdot path \<and>
    (path = ''*'' \<or> path = ''/'' \<or>
      uri = CHR ''/'' # path \<and> CHR ''?'' \<notin> set path \<and> query = query0 \<or>
      uri = CHR ''/'' # path @ CHR ''?'' # query \<and> CHR ''?'' \<notin> set path) \<and>
    parseuri npos ''//etc/passwd'' p q = (None, ''/etc/passwd'', q)"
proof -
  have esc: "parseuri npos ''//etc/passwd'' p q = (None, ''/etc/passwd'', q)"
  proof -
    have "\<not> contains dotdot ''//etc/passwd''" "str_find ''?'' ''//etc/passwd'' = None" by code_simp+
    then show ?thesis by (simp add: parseuri_def over_def substr_from_def)
  qed
  have ok: "\<not> over mx (of_nat (length uri))" using assms by (auto simp: parseuri_def split: if_splits)
  show ?thesis
  proof (cases "uri = ''*'' \<or> uri = ''/''")
    case True
    have "\<not> contains dotdot ''*''" "\<not> contains dotdot ''/''" by code_simp+
    then show ?thesis using True assms ok esc
      by (auto simp: parseuri_def split: if_splits)
  next
    case False
    then obtain u where u: "uri = CHR ''/'' # u" "\<not> contains dotdot uri"
      using assms ok by (cases uri) (auto simp: parseuri_def split: if_splits)
    have sub: "\<not> contains dotdot v" if "sublist v u" for v
    proof -
      have "sublist v uri" using that u(1) by (simp add: sublist_Cons_right)
      then show ?thesis using u(2) by (auto simp: contains_iff intro: sublist_order.order_trans)
    qed
    show ?thesis
    proof (cases "str_find ''?'' uri")
      case None
      then have n: "str_find ''?'' u = None" using u(1) by simp
      then have "CHR ''?'' \<notin> set u" by (simp add: contains_def flip: contains_single)
      moreover have "path = u" "query = query0"
        using assms ok False u n by (auto simp: parseuri_def substr_from_def)
      moreover have "\<not> contains dotdot u" by (rule sub) simp
      ultimately show ?thesis using ok esc u(1) by simp
    next
      case (Some qpos)
      note q = str_find_single_Some [OF Some]
      have "qpos \<noteq> 0" using q u(1) by (cases qpos) auto
      then obtain k where k: "qpos = Suc k" by (cases qpos) auto
      have kq: "k < length u" "u ! k = CHR ''?''" "CHR ''?'' \<notin> set (take k u)"
        using q u(1) k by auto
      have p: "path = take k u" "query = drop (Suc k) u"
        using assms ok False u Some k
        by (auto simp: parseuri_def substr_def substr_from_def)
      have "u = path @ CHR ''?'' # query" using take_drop_split [OF kq(1)] kq(2) p by simp
      moreover have "\<not> contains dotdot path" unfolding p by (rule sub) (simp add: sublist_take)
      ultimately show ?thesis using ok esc u(1) kq(3) p by simp
    qed
  qed
qed

theorem uri_confined_witness:
  "\<not> contains dotdot ''a/b'' \<and> parseuri 100 ''/a/b?c=d'' [] [] = (None, ''a/b'', ''c=d'')"
proof -
  have "parseuri 100 ''/a/b?c=d'' [] [] = (None, ''a/b'', ''c=d'')" by code_simp
  then show ?thesis using uri_confined by blast
qed

end
