(* ===== verification/ConcurrentQueue.thy ===== *)
theory ConcurrentQueue
  imports Prelude
begin

text \<open>
  \<open>ConcurrentQueue.hpp\<close>: the interface of the shared queues. The trace part is what the two
  implementations are held to when threads interleave; the locale is what a client may rely on
  when its calls do not overlap.
\<close>

section \<open>The specification of a shared queue\<close>

text \<open>What one atomic step of an implementation does to the queue as its callers see it.\<close>

datatype 'a qevent = Tau | Enq 'a | Deq 'a | Empty

fun fifo_step :: "'a qevent \<Rightarrow> 'a list \<Rightarrow> 'a list \<Rightarrow> bool" where
  "fifo_step Tau xs ys \<longleftrightarrow> ys = xs"
| "fifo_step (Enq v) xs ys \<longleftrightarrow> ys = xs @ [v]"
| "fifo_step (Deq v) xs ys \<longleftrightarrow> xs = v # ys"
| "fifo_step Empty xs ys \<longleftrightarrow> xs = [] \<and> ys = []"

definition enqs :: "'a qevent list \<Rightarrow> 'a list" where
  "enqs tr = concat (map (\<lambda>e. case e of Enq v \<Rightarrow> [v] | _ \<Rightarrow> []) tr)"

definition deqs :: "'a qevent list \<Rightarrow> 'a list" where
  "deqs tr = concat (map (\<lambda>e. case e of Deq v \<Rightarrow> [v] | _ \<Rightarrow> []) tr)"

lemma enqs_simps [simp]:
  "enqs [] = []" "enqs (tr @ [Tau]) = enqs tr" "enqs (tr @ [Enq v]) = enqs tr @ [v]"
  "enqs (tr @ [Deq v]) = enqs tr" "enqs (tr @ [Empty]) = enqs tr"
  "deqs [] = []" "deqs (tr @ [Tau]) = deqs tr" "deqs (tr @ [Enq v]) = deqs tr"
  "deqs (tr @ [Deq v]) = deqs tr @ [v]" "deqs (tr @ [Empty]) = deqs tr"
  by (simp_all add: enqs_def deqs_def)

text \<open>What a step of the specification does to the items put in and taken out.\<close>

lemma fifo_step_conserves:
  "fifo_step e xs ys \<Longrightarrow> enqs tr = deqs tr @ xs \<Longrightarrow> enqs (tr @ [e]) = deqs (tr @ [e]) @ ys"
  by (cases e) auto

section \<open>The interface\<close>

text \<open>
  \<open>deq\<close> is \<open>nowait_deq\<close>: \<open>None\<close> where it returns false; \<open>wait\<close> is \<open>wait_deq\<close>: \<open>None\<close> where the
  caller would sleep. \<open>quiet\<close> says that no call is in progress.
\<close>

locale conc_queue =
  fixes quiet :: "'s \<Rightarrow> bool"
    and items :: "'s \<Rightarrow> 'a list"
    and enq :: "'a \<Rightarrow> 's \<Rightarrow> 's"
    and deq :: "'s \<Rightarrow> 'a option \<times> 's"
    and wait :: "'s \<Rightarrow> ('a \<times> 's) option"
  assumes enq_law: "quiet s \<Longrightarrow> quiet (enq v s) \<and> items (enq v s) = items s @ [v]"
    and deq_none: "quiet s \<Longrightarrow> items s = [] \<Longrightarrow> \<exists>s'. deq s = (None, s') \<and> quiet s' \<and> items s' = []"
    and deq_some: "quiet s \<Longrightarrow> items s = v # vs \<Longrightarrow> \<exists>s'. deq s = (Some v, s') \<and> quiet s' \<and> items s' = vs"
    and wait_none: "quiet s \<Longrightarrow> items s = [] \<Longrightarrow> wait s = None"
    and wait_some: "quiet s \<Longrightarrow> items s = v # vs \<Longrightarrow> \<exists>s'. wait s = Some (v, s') \<and> quiet s' \<and> items s' = vs"
begin

lemma enq_many: "quiet s \<Longrightarrow> quiet (fold enq vs s) \<and> items (fold enq vs s) = items s @ vs"
  by (induction vs arbitrary: s) (auto simp: enq_law)

text \<open>Items come out in the order they went in.\<close>

fun drain :: "nat \<Rightarrow> 's \<Rightarrow> 'a list \<times> 's" where
  "drain 0 s = ([], s)"
| "drain (Suc n) s =
     (case deq s of (None, s') \<Rightarrow> ([], s') | (Some v, s') \<Rightarrow> let (vs, s'') = drain n s' in (v # vs, s''))"

lemma drain_items:
  "quiet s \<Longrightarrow> fst (drain n s) = take n (items s) \<and> quiet (snd (drain n s)) \<and>
     items (snd (drain n s)) = drop n (items s)"
proof (induction n arbitrary: s)
  case (Suc n)
  show ?case
  proof (cases "items s")
    case Nil
    then show ?thesis using deq_none [OF Suc.prems] by auto
  next
    case (Cons v vs)
    obtain s' where "deq s = (Some v, s')" "quiet s'" "items s' = vs" using deq_some [OF Suc.prems Cons] by auto
    then show ?thesis using Suc.IH [of s'] Cons by (auto split: prod.splits)
  qed
qed simp

lemma fifo: "quiet s \<Longrightarrow> items s = [] \<Longrightarrow> fst (drain (length vs) (fold enq vs s)) = vs"
  using drain_items [of "fold enq vs s" "length vs"] enq_many [of s vs] by simp

end

end
