(* ===== verification/LockFreeQueue.thy ===== *)
theory LockFreeQueue
  imports ConcurrentQueue "HOL-Library.Multiset"
begin

text \<open>
  \<open>LockFreeQueue.hpp\<close>: the lock-free queue, at the level of its loads, stores and
  compare-and-swaps, for any number of threads. Deleted nodes are recorded, and reading one is
  recorded too; new nodes never get the address of a deleted one, so that the model separates
  what holds without recycling (the queue is a queue) from what fails anyway (freed memory is
  read).
\<close>

section \<open>State\<close>

record 'a node =
  nval :: 'a
  nnext :: "nat option"

text \<open>
  The heap, the next unused address, the two pointers and the semaphore; then, for the
  specification, the deleted nodes, whether one was dereferenced, and the nodes that were ever
  part of the list, in its order, with the positions of \<open>head\<close> and \<open>tail\<close> among them.
\<close>

record 'a lfq =
  heap :: "nat \<Rightarrow> 'a node"
  fresh :: nat
  qhead :: nat
  qtail :: nat
  sem :: nat
  dead :: "nat list"
  uaf :: bool
  linked :: "nat list"
  hpos :: nat
  tpos :: nat

definition lfq_new :: "'a \<Rightarrow> 'a lfq" where
  "lfq_new undef = \<lparr>heap = (\<lambda>_. \<lparr>nval = undef, nnext = None\<rparr>), fresh = 1, qhead = 0, qtail = 0,
     sem = 0, dead = [], uaf = False, linked = [0], hpos = 0, tpos = 0\<rparr>"

text \<open>A dereference of a node.\<close>

definition touch :: "nat \<Rightarrow> 'a lfq \<Rightarrow> 'a lfq" where
  "touch a q = q\<lparr>uaf := uaf q \<or> a \<in> set (dead q)\<rparr>"

section \<open>Atomic instructions\<close>

text \<open>\<open>new node(t)\<close>.\<close>

definition node_new :: "'a \<Rightarrow> 'a lfq \<Rightarrow> nat \<times> 'a lfq" where
  "node_new v q = (fresh q, q\<lparr>heap := (heap q)(fresh q := \<lparr>nval = v, nnext = None\<rparr>), fresh := fresh q + 1\<rparr>)"

text \<open>The compare-and-swaps on a node's \<open>next\<close>, on \<open>tail\<close> and on \<open>head\<close>.\<close>

definition cas_next :: "nat \<Rightarrow> nat \<Rightarrow> 'a lfq \<Rightarrow> bool \<times> 'a lfq" where
  "cas_next a n q =
     (if nnext (heap q a) = None
      then (True, (touch a q)\<lparr>heap := (heap q)(a := (heap q a)\<lparr>nnext := Some n\<rparr>), linked := linked q @ [n]\<rparr>)
      else (False, touch a q))"

definition cas_tail :: "nat \<Rightarrow> nat \<Rightarrow> 'a lfq \<Rightarrow> 'a lfq" where
  "cas_tail a n q = (if qtail q = a then q\<lparr>qtail := n, tpos := tpos q + 1\<rparr> else q)"

definition cas_head :: "nat \<Rightarrow> nat \<Rightarrow> 'a lfq \<Rightarrow> bool \<times> 'a lfq" where
  "cas_head a n q =
     (if qhead q = a then (True, q\<lparr>qhead := n, hpos := hpos q + 1\<rparr>) else (False, q))"

definition sem_up :: "'a lfq \<Rightarrow> 'a lfq" where
  "sem_up q = q\<lparr>sem := sem q + 1\<rparr>"

definition sem_down :: "'a lfq \<Rightarrow> 'a lfq option" where
  "sem_down q = (if 0 < sem q then Some (q\<lparr>sem := sem q - 1\<rparr>) else None)"

definition node_delete :: "nat \<Rightarrow> 'a lfq \<Rightarrow> 'a lfq" where
  "node_delete a q = q\<lparr>dead := a # dead q\<rparr>"

section \<open>The threads\<close>

text \<open>
  The points of \<open>enq\<close> (the new node, then its locals) and of the two dequeue functions, which
  differ in what they do on an empty queue (the flag says whether it is \<open>wait_deq\<close>).
\<close>

datatype 'a qpc =
  Idle
| E1 nat \<comment> \<open>\<open>last = tail\<close>\<close>
| E2 nat nat \<comment> \<open>\<open>next = last->next\<close>\<close>
| E3 nat nat "nat option" \<comment> \<open>the tests\<close>
| E4 nat nat \<comment> \<open>swing the new node onto the end\<close>
| E5 nat nat \<comment> \<open>swing \<open>tail\<close>\<close>
| E6 nat nat nat \<comment> \<open>help \<open>tail\<close> and retry\<close>
| E7 \<comment> \<open>\<open>sz.up()\<close>\<close>
| D0 bool \<comment> \<open>\<open>first = head\<close>\<close>
| D1 bool nat \<comment> \<open>\<open>last = tail\<close>\<close>
| D2 bool nat nat \<comment> \<open>load \<open>head\<close>\<close>
| D3 bool nat nat nat \<comment> \<open>\<open>next\<close> of it\<close>
| D4 bool nat nat "nat option" \<comment> \<open>the tests\<close>
| D5 bool nat nat nat \<comment> \<open>help \<open>tail\<close> and retry\<close>
| D6 bool nat "nat option" \<comment> \<open>\<open>t = next->t\<close>\<close>
| D7 bool nat nat 'a \<comment> \<open>swing \<open>head\<close>\<close>
| D8 \<comment> \<open>\<open>sz.down()\<close> on an empty queue\<close>
| D8u \<comment> \<open>\<open>sz.up()\<close>\<close>
| D9 nat 'a \<comment> \<open>\<open>sz.down()\<close>\<close>
| D10 nat 'a \<comment> \<open>\<open>delete first\<close>\<close>

record 'a qconf =
  queue :: "'a lfq"
  qpcs :: "'a qpc list"

text \<open>
  One instruction of a thread: the new program counter and queue, \<open>None\<close> if it blocks. A null
  \<open>next\<close> at \<open>D6\<close> would be a null dereference; it is left without a step.
\<close>

fun qstep :: "'a qpc \<Rightarrow> 'a lfq \<Rightarrow> ('a qpc \<times> 'a lfq) option" where
  "qstep Idle q = None"
| "qstep (E1 n) q = Some (E2 n (qtail q), q)"
| "qstep (E2 n l) q = Some (E3 n l (nnext (heap q l)), touch l q)"
| "qstep (E3 n l nx) q =
     Some (if qtail q = l then case nx of None \<Rightarrow> E4 n l | Some x \<Rightarrow> E6 n l x else E1 n, q)"
| "qstep (E4 n l) q = (let (ok, q') = cas_next l n q in Some (if ok then E5 n l else E1 n, q'))"
| "qstep (E5 n l) q = Some (E7, cas_tail l n q)"
| "qstep (E6 n l x) q = Some (E1 n, cas_tail l x q)"
| "qstep E7 q = Some (Idle, sem_up q)"
| "qstep (D0 w) q = Some (D1 w (qhead q), q)"
| "qstep (D1 w f) q = Some (D2 w f (qtail q), q)"
| "qstep (D2 w f l) q = Some (D3 w f l (qhead q), q)"
| "qstep (D3 w f l h) q = Some (D4 w f l (nnext (heap q h)), touch h q)"
| "qstep (D4 w f l nx) q =
     Some (if qhead q \<noteq> f then D0 w
       else if f = l then case nx of None \<Rightarrow> (if w then D8 else Idle) | Some x \<Rightarrow> D5 w f l x
       else D6 w f nx, q)"
| "qstep (D5 w f l x) q = Some (D0 w, cas_tail l x q)"
| "qstep (D6 w f nx) q =
     (case nx of None \<Rightarrow> None | Some x \<Rightarrow> Some (D7 w f x (nval (heap q x)), touch x q))"
| "qstep (D7 w f x v) q = (let (ok, q') = cas_head f x q in Some (if ok then D9 f v else D0 w, q'))"
| "qstep D8 q = map_option (Pair D8u) (sem_down q)"
| "qstep D8u q = Some (D0 True, sem_up q)"
| "qstep (D9 f v) q = map_option (Pair (D10 f v)) (sem_down q)"
| "qstep (D10 f v) q = Some (Idle, node_delete f q)"

definition qgoto :: "nat \<Rightarrow> 'a qpc \<Rightarrow> 'a lfq \<Rightarrow> 'a qconf \<Rightarrow> 'a qconf" where
  "qgoto i p q c = c\<lparr>queue := q, qpcs := (qpcs c)[i := p]\<rparr>"

definition qat :: "nat \<Rightarrow> 'a qpc \<Rightarrow> 'a qconf \<Rightarrow> bool" where
  "qat i p c \<longleftrightarrow> i < length (qpcs c) \<and> qpcs c ! i = p"

text \<open>What an instruction does to the queue as its callers see it.\<close>

definition qlabel :: "'a qpc \<Rightarrow> 'a lfq \<Rightarrow> 'a qevent" where
  "qlabel p q =
     (case p of
        E4 n l \<Rightarrow> if nnext (heap q l) = None then Enq (nval (heap q n)) else Tau
      | D3 w f l h \<Rightarrow> if nnext (heap q h) = None then Empty else Tau
      | D7 w f x v \<Rightarrow> if qhead q = f then Deq v else Tau
      | _ \<Rightarrow> Tau)"

inductive lfstep :: "'a qevent \<Rightarrow> 'a qconf \<Rightarrow> 'a qconf \<Rightarrow> bool" where
  start_enq: "qat i Idle c \<Longrightarrow> node_new v (queue c) = (n, q) \<Longrightarrow> lfstep Tau c (qgoto i (E1 n) q c)"
| start_deq: "qat i Idle c \<Longrightarrow> lfstep Tau c (qgoto i (D0 w) (queue c) c)"
| instr: "qat i p c \<Longrightarrow> qstep p (queue c) = Some (p', q) \<Longrightarrow>
    lfstep (qlabel p (queue c)) c (qgoto i p' q c)"

inductive_cases lfstep_elim: "lfstep e c c'"

definition qinit :: "nat \<Rightarrow> 'a \<Rightarrow> 'a qconf" where
  "qinit n undef = \<lparr>queue = lfq_new undef, qpcs = replicate n Idle\<rparr>"

text \<open>The runs of \<open>n\<close> threads, with the events so far.\<close>

inductive lfrun :: "nat \<Rightarrow> 'a \<Rightarrow> 'a qevent list \<Rightarrow> 'a qconf \<Rightarrow> bool" for n undef where
  lf_init: "lfrun n undef [] (qinit n undef)"
| lf_step: "lfrun n undef tr c \<Longrightarrow> lfstep e c c' \<Longrightarrow> lfrun n undef (tr @ [e]) c'"

text \<open>A schedule: which thread goes next, and what an idle thread starts.\<close>

datatype 'a qcall = Call_enq nat 'a | Call_deq nat bool | Go nat

fun lfexec1 :: "'a qcall \<Rightarrow> 'a qconf \<Rightarrow> ('a qevent \<times> 'a qconf) option" where
  "lfexec1 (Call_enq i v) c =
     (if i < length (qpcs c) \<and> qpcs c ! i = Idle
      then let (n, q) = node_new v (queue c) in Some (Tau, qgoto i (E1 n) q c) else None)"
| "lfexec1 (Call_deq i w) c =
     (if i < length (qpcs c) \<and> qpcs c ! i = Idle then Some (Tau, qgoto i (D0 w) (queue c) c) else None)"
| "lfexec1 (Go i) c =
     (if i < length (qpcs c)
      then case qstep (qpcs c ! i) (queue c) of
          None \<Rightarrow> None
        | Some (p', q) \<Rightarrow> Some (qlabel (qpcs c ! i) (queue c), qgoto i p' q c)
      else None)"

fun lfexec :: "'a qcall list \<Rightarrow> 'a qconf \<Rightarrow> ('a qevent list \<times> 'a qconf) option" where
  "lfexec [] c = Some ([], c)"
| "lfexec (s # ss) c =
     (case lfexec1 s c of
        None \<Rightarrow> None
      | Some (e, c') \<Rightarrow> (case lfexec ss c' of None \<Rightarrow> None | Some (tr, c'') \<Rightarrow> Some (e # tr, c'')))"

section \<open>Abstraction\<close>

definition contents :: "'a lfq \<Rightarrow> 'a list" where
  "contents q = map (\<lambda>a. nval (heap q a)) (drop (hpos q + 1) (linked q))"

section \<open>Invariant\<close>

definition lk :: "'a lfq \<Rightarrow> nat \<Rightarrow> nat \<Rightarrow> bool" where
  "lk q k a \<longleftrightarrow> k < length (linked q) \<and> linked q ! k = a"

definition own :: "'a lfq \<Rightarrow> nat \<Rightarrow> bool" where
  "own q n \<longleftrightarrow> n < fresh q \<and> n \<notin> set (linked q) \<and> nnext (heap q n) = None"

text \<open>The list: distinct allocated nodes, each pointing to the next, \<open>head\<close> not behind \<open>tail\<close>.\<close>

definition list_ok :: "'a lfq \<Rightarrow> bool" where
  "list_ok q \<longleftrightarrow> distinct (linked q) \<and> (\<forall>a \<in> set (linked q). a < fresh q) \<and>
     (\<forall>k < length (linked q). nnext (heap q (linked q ! k)) =
       (if Suc k < length (linked q) then Some (linked q ! Suc k) else None)) \<and>
     hpos q \<le> tpos q \<and> lk q (hpos q) (qhead q) \<and> lk q (tpos q) (qtail q)"

fun owned :: "'a qpc \<Rightarrow> nat option" where
  "owned (E1 n) = Some n"
| "owned (E2 n l) = Some n"
| "owned (E3 n l nx) = Some n"
| "owned (E4 n l) = Some n"
| "owned (E6 n l x) = Some n"
| "owned _ = None"

text \<open>What the locals of a thread are: nodes that are or were in the list, in an order.\<close>

fun locals_ok :: "'a lfq \<Rightarrow> 'a qpc \<Rightarrow> bool" where
  "locals_ok q (E2 n l) \<longleftrightarrow> (\<exists>k \<le> tpos q. lk q k l)"
| "locals_ok q (E3 n l nx) \<longleftrightarrow> (\<exists>k \<le> tpos q. lk q k l \<and> (\<forall>x. nx = Some x \<longrightarrow> lk q (Suc k) x))"
| "locals_ok q (E4 n l) \<longleftrightarrow> (\<exists>k \<le> tpos q. lk q k l)"
| "locals_ok q (E5 n l) \<longleftrightarrow> (\<exists>k. lk q k l \<and> lk q (Suc k) n)"
| "locals_ok q (E6 n l x) \<longleftrightarrow> (\<exists>k. lk q k l \<and> lk q (Suc k) x)"
| "locals_ok q (D1 w f) \<longleftrightarrow> (\<exists>k \<le> hpos q. lk q k f)"
| "locals_ok q (D2 w f l) \<longleftrightarrow> (\<exists>k j. k \<le> hpos q \<and> j \<le> tpos q \<and> k \<le> j \<and> lk q k f \<and> lk q j l)"
| "locals_ok q (D3 w f l h) \<longleftrightarrow> (\<exists>k j m. k \<le> m \<and> m \<le> hpos q \<and> j \<le> tpos q \<and> k \<le> j \<and>
     lk q k f \<and> lk q j l \<and> lk q m h)"
| "locals_ok q (D4 w f l nx) \<longleftrightarrow> (\<exists>k j m. k \<le> m \<and> m \<le> hpos q \<and> j \<le> tpos q \<and> k \<le> j \<and>
     lk q k f \<and> lk q j l \<and> (case nx of None \<Rightarrow> j \<le> m | Some x \<Rightarrow> lk q (Suc m) x))"
| "locals_ok q (D5 w f l x) \<longleftrightarrow> (\<exists>k. lk q k l \<and> lk q (Suc k) x)"
| "locals_ok q (D6 w f nx) \<longleftrightarrow> (\<exists>k x. nx = Some x \<and> k \<le> hpos q \<and> lk q k f \<and> lk q (Suc k) x \<and> Suc k \<le> tpos q)"
| "locals_ok q (D7 w f x v) \<longleftrightarrow> (\<exists>k. k \<le> hpos q \<and> lk q k f \<and> lk q (Suc k) x \<and> Suc k \<le> tpos q \<and>
     nval (heap q x) = v)"
| "locals_ok q (D9 f v) \<longleftrightarrow> (\<exists>k < hpos q. lk q k f)"
| "locals_ok q (D10 f v) \<longleftrightarrow> (\<exists>k < hpos q. lk q k f)"
| "locals_ok q _ \<longleftrightarrow> True"

definition lf_inv :: "'a qconf \<Rightarrow> bool" where
  "lf_inv c \<longleftrightarrow> list_ok (queue c) \<and>
     (\<forall>i p. qat i p c \<longrightarrow> locals_ok (queue c) p \<and> (\<forall>n. owned p = Some n \<longrightarrow> own (queue c) n)) \<and>
     (\<forall>i j p p' n. qat i p c \<longrightarrow> qat j p' c \<longrightarrow> owned p = Some n \<longrightarrow> owned p' = Some n \<longrightarrow> i = j)"

text \<open>The queue only grows: positions in the list never change.\<close>

definition grows :: "'a lfq \<Rightarrow> 'a lfq \<Rightarrow> bool" where
  "grows q q' \<longleftrightarrow> prefix (linked q) (linked q') \<and> hpos q \<le> hpos q' \<and> tpos q \<le> tpos q' \<and>
     fresh q \<le> fresh q' \<and> (\<forall>a < fresh q. nval (heap q' a) = nval (heap q a))"

lemma lk_grows: "lk q k a \<Longrightarrow> grows q q' \<Longrightarrow> lk q' k a"
  by (auto simp: lk_def grows_def prefix_def nth_append)

lemma lk_unique: "list_ok q \<Longrightarrow> lk q k a \<Longrightarrow> lk q j a \<Longrightarrow> k = j"
  by (auto simp: list_ok_def lk_def nth_eq_iff_index_eq)

lemma lk_fresh: "list_ok q \<Longrightarrow> lk q k a \<Longrightarrow> a < fresh q"
  by (auto simp: list_ok_def lk_def)

lemma lk_next:
  "list_ok q \<Longrightarrow> lk q k a \<Longrightarrow>
     nnext (heap q a) = (if Suc k < length (linked q) then Some (linked q ! Suc k) else None)"
  by (auto simp: list_ok_def lk_def)

lemma lk_next_Some: "list_ok q \<Longrightarrow> lk q k a \<Longrightarrow> nnext (heap q a) = Some x \<Longrightarrow> lk q (Suc k) x"
  by (auto simp: lk_next split: if_splits) (simp add: lk_def)

lemma lk_next_None: "list_ok q \<Longrightarrow> lk q k a \<Longrightarrow> nnext (heap q a) = None \<Longrightarrow> Suc k = length (linked q)"
  by (auto simp: lk_next lk_def split: if_splits)

lemma locals_grow:
  assumes "locals_ok q p" and "grows q q'" and "list_ok q"
  shows "locals_ok q' p"
proof -
  note g = assms(2) [unfolded grows_def]
  have h: "k \<le> hpos q'" if "k \<le> hpos q" for k using that g by simp
  have hl: "k < hpos q'" if "k < hpos q" for k using that g by simp
  have t: "k \<le> tpos q'" if "k \<le> tpos q" for k using that g by simp
  have l: "lk q' k a" if "lk q k a" for k a using that assms(2) by (rule lk_grows)
  show ?thesis
  proof (cases p)
    case (D4 w f l nx)
    then obtain k j m where "k \<le> m" "m \<le> hpos q" "j \<le> tpos q" "k \<le> j" "lk q k f" "lk q j l"
        "case nx of None \<Rightarrow> j \<le> m | Some x \<Rightarrow> lk q (Suc m) x"
      using assms(1) by auto
    then show ?thesis using D4 g lk_grows [OF _ assms(2)]
      by (simp, intro exI [of _ k] exI [of _ j] exI [of _ m]) (auto split: option.splits)
  next
    case (D7 w f x v)
    then obtain k where k: "k \<le> hpos q" "lk q k f" "lk q (Suc k) x" "Suc k \<le> tpos q" "nval (heap q x) = v"
      using assms(1) by auto
    then have "nval (heap q' x) = v" using g lk_fresh [OF assms(3) k(3)] by simp
    then show ?thesis using D7 k g lk_grows [OF _ assms(2)] by (simp, intro exI [of _ k]) auto
  next
    case (D3 w f l h)
    then obtain k j m where "k \<le> m" "m \<le> hpos q" "j \<le> tpos q" "k \<le> j" "lk q k f" "lk q j l" "lk q m h"
      using assms(1) by auto
    then show ?thesis using D3 g lk_grows [OF _ assms(2)]
      by (simp, intro exI [of _ k] exI [of _ j] exI [of _ m]) auto
  qed (use assms(1) in \<open>simp, (blast intro: h hl t l)?\<close>)+
qed

lemma lfexec1_step: "lfexec1 s c = Some (e, c') \<Longrightarrow> lfstep e c c'"
  by (cases s) (auto simp: qat_def split: if_splits option.splits prod.splits intro: lfstep.intros)

lemma lfexec_run: "lfrun n u tr c \<Longrightarrow> lfexec ss c = Some (tr', c') \<Longrightarrow> lfrun n u (tr @ tr') c'"
proof (induction ss arbitrary: c tr tr')
  case (Cons s ss)
  then obtain e c1 tr1 where s: "lfexec1 s c = Some (e, c1)" "lfexec ss c1 = Some (tr1, c')" "tr' = e # tr1"
    by (auto split: option.splits)
  show ?case using Cons.IH [OF lf_step [OF Cons.prems(1) lfexec1_step [OF s(1)]] s(2)] s(3) by simp
qed simp

text \<open>One instruction: what it keeps for its thread and for the others.\<close>

definition step_good :: "'a qpc \<Rightarrow> 'a lfq \<Rightarrow> 'a qpc \<Rightarrow> 'a lfq \<Rightarrow> bool" where
  "step_good p q p' q' \<longleftrightarrow> grows q q' \<and> list_ok q' \<and> locals_ok q' p' \<and>
     (owned p' = None \<or> owned p' = owned p) \<and>
     (\<forall>n. own q n \<and> (owned p = Some n \<longrightarrow> owned p' = Some n) \<longrightarrow> own q' n) \<and>
     fifo_step (qlabel p q) (contents q) (contents q')"

text \<open>Instructions that leave the list and the pointers alone.\<close>

definition same_list :: "'a lfq \<Rightarrow> 'a lfq \<Rightarrow> bool" where
  "same_list q q' \<longleftrightarrow> heap q' = heap q \<and> fresh q' = fresh q \<and> qhead q' = qhead q \<and> qtail q' = qtail q \<and>
     linked q' = linked q \<and> hpos q' = hpos q \<and> tpos q' = tpos q"

lemma same_list_simps [simp]:
  "same_list q q" "same_list q (touch a q)" "same_list q (sem_up q)" "same_list q (node_delete a q)"
  "sem_down q = Some q' \<Longrightarrow> same_list q q'"
  by (auto simp: same_list_def touch_def sem_up_def node_delete_def sem_down_def split: if_splits)

lemma same_list_lk: "same_list q q' \<Longrightarrow> lk q' = lk q"
  by (intro ext) (simp add: same_list_def lk_def)

lemma same_list_ok:
  assumes "same_list q q'"
  shows "list_ok q' = list_ok q" "own q' n = own q n" "grows q q'" "contents q' = contents q"
  using assms same_list_lk [OF assms]
  by (auto simp: same_list_def list_ok_def own_def grows_def contents_def)

lemma same_list_locals:
  assumes "same_list q q'"
  shows "locals_ok q' p = locals_ok q p"
  using assms same_list_lk [OF assms] by (cases p) (simp_all add: same_list_def cong: option.case_cong)

lemma same_good:
  assumes "same_list q q'" and "list_ok q" and "locals_ok q p'" and "owned p' = None \<or> owned p' = owned p"
    and "fifo_step (qlabel p q) (contents q) (contents q)"
  shows "step_good p q p' q'"
  using assms same_list_ok [OF assms(1)] same_list_locals [OF assms(1)] by (simp add: step_good_def)

text \<open>Advancing \<open>tail\<close> to the next node.\<close>

lemma cas_tail_good:
  assumes ok: "list_ok q" and k: "lk q k l" "lk q (Suc k) x"
    and p: "locals_ok q p'" "owned p' = None \<or> owned p' = owned p" "qlabel p q = Tau"
  shows "step_good p q p' (cas_tail l x q)"
proof (cases "qtail q = l")
  case False
  then show ?thesis using ok p by (simp add: cas_tail_def same_good)
next
  case True
  then have t: "tpos q = k" using lk_unique [OF ok _ k(1)] ok by (auto simp: list_ok_def)
  have lkk: "lk (cas_tail l x q) = lk q" by (intro ext) (simp add: lk_def cas_tail_def)
  have g: "grows q (cas_tail l x q)" by (simp add: grows_def cas_tail_def)
  have "list_ok (cas_tail l x q)" using ok k t True unfolding list_ok_def lkk by (auto simp: cas_tail_def)
  moreover have "contents (cas_tail l x q) = contents q" by (simp add: contents_def cas_tail_def)
  moreover have "own (cas_tail l x q) = own q" by (intro ext) (simp add: own_def cas_tail_def)
  ultimately show ?thesis using p g locals_grow [OF p(1) g ok] by (simp add: step_good_def)
qed

text \<open>Swinging \<open>head\<close> to the next node takes the first item.\<close>

lemma contents_cons:
  assumes "list_ok q" and "lk q (Suc (hpos q)) x"
  shows "contents q = nval (heap q x) # map (\<lambda>a. nval (heap q a)) (drop (hpos q + 2) (linked q))"
  using assms Cons_nth_drop_Suc [of "Suc (hpos q)" "linked q", symmetric] by (simp add: contents_def lk_def)

lemma cas_head_good:
  assumes ok: "list_ok q" and k: "k \<le> hpos q" "lk q k f" "lk q (Suc k) x" "Suc k \<le> tpos q" "nval (heap q x) = v"
    and e: "cas_head f x q = (b, q')"
  shows "step_good (D7 w f x v) q (if b then D9 f v else D0 w) q'"
proof (cases "qhead q = f")
  case False
  then show ?thesis using ok e by (auto simp: cas_head_def same_good qlabel_def)
next
  case True
  then have h: "hpos q = k" using lk_unique [OF ok _ k(2)] ok by (auto simp: list_ok_def)
  have q': "b" "q' = q\<lparr>qhead := x, hpos := hpos q + 1\<rparr>" using e True by (simp_all add: cas_head_def)
  have lkk: "lk q' = lk q" by (intro ext) (simp add: lk_def q')
  have g: "grows q q'" by (simp add: grows_def q')
  have "list_ok q'" using ok k h unfolding list_ok_def lkk by (auto simp: q')
  moreover have "contents q = v # contents q'" using contents_cons [OF ok] k h by (simp add: contents_def q')
  moreover have "own q' = own q" by (intro ext) (simp add: own_def q')
  moreover have "locals_ok q' (D9 f v)" using k h lkk by (auto simp: q')
  ultimately show ?thesis using g q' True by (simp add: step_good_def qlabel_def)
qed

text \<open>Linking the new node.\<close>

lemma cas_next_good:
  assumes ok: "list_ok q" and k: "k \<le> tpos q" "lk q k l" and n: "own q n"
    and e: "cas_next l n q = (b, q')"
  shows "step_good (E4 n l) q (if b then E5 n l else E1 n) q'"
proof (cases "nnext (heap q l) = None")
  case False
  then show ?thesis using ok e by (auto simp: cas_next_def same_good qlabel_def)
next
  case True
  have q': "b" "q' = (touch l q)\<lparr>heap := (heap q)(l := (heap q l)\<lparr>nnext := Some n\<rparr>), linked := linked q @ [n]\<rparr>"
    using e True by (simp_all add: cas_next_def)
  have s: "heap q' = (heap q)(l := (heap q l)\<lparr>nnext := Some n\<rparr>)" "linked q' = linked q @ [n]"
    "hpos q' = hpos q" "tpos q' = tpos q" "fresh q' = fresh q" "qhead q' = qhead q" "qtail q' = qtail q"
    by (simp_all add: q' touch_def)
  have last: "Suc k = length (linked q)" by (rule lk_next_None [OF ok k(2) True])
  have lkl: "linked q ! k = l" using k by (simp add: lk_def)
  have g: "grows q q'" by (simp add: grows_def s)
  have nl: "n \<noteq> l" using n k by (auto simp: own_def lk_def)
  have v: "nval (heap q' a) = nval (heap q a)" for a by (simp add: s)
  have nn: "nnext (heap q' (linked q' ! i)) =
      (if Suc i < length (linked q') then Some (linked q' ! Suc i) else None)" if i: "i < length (linked q')" for i
  proof (cases "i = length (linked q)")
    case True
    then show ?thesis using n nl by (simp add: s own_def)
  next
    case False
    then have i2: "i < length (linked q)" using i by (simp add: s)
    show ?thesis
    proof (cases "i = k")
      case True
      then show ?thesis using last lkl by (simp add: s nth_append)
    next
      case False
      then have "linked q ! i \<noteq> l" using ok i2 last lkl by (auto simp: list_ok_def nth_eq_iff_index_eq)
      then show ?thesis using ok i2 last False by (simp add: s nth_append list_ok_def)
    qed
  qed
  have hp: "lk q' (hpos q') (qhead q')" "lk q' (tpos q') (qtail q')"
    using ok lk_grows [OF _ g] by (auto simp: list_ok_def s(3-7))
  have "list_ok q'" unfolding list_ok_def using ok n nn hp by (auto simp: s own_def list_ok_def)
  moreover have "contents q' = contents q @ [nval (heap q n)]"
    using ok by (auto simp: contents_def s list_ok_def lk_def)
  moreover have "own q' m" if "own q m" "m \<noteq> n" for m using that k by (auto simp: own_def s lk_def)
  moreover have "locals_ok q' (E5 n l)" using k last by (auto simp: lk_def s nth_append)
  ultimately show ?thesis using g True q'(1) by (auto simp: step_good_def qlabel_def)
qed

lemma list_ok_head:
  assumes "list_ok q"
  shows "lk q (hpos q) (qhead q)" "lk q (tpos q) (qtail q)" "hpos q \<le> tpos q" "tpos q < length (linked q)"
  using assms by (auto simp: list_ok_def lk_def)

text \<open>The reads of \<open>head\<close>, \<open>tail\<close> and \<open>next\<close>, and the tests on them.\<close>

lemma d3_good:
  assumes ok: "list_ok q" and l: "locals_ok q (D3 w f l h)"
  shows "step_good (D3 w f l h) q (D4 w f l (nnext (heap q h))) (touch h q)"
proof -
  obtain k j m where m: "k \<le> m" "m \<le> hpos q" "j \<le> tpos q" "k \<le> j" "lk q k f" "lk q j l" "lk q m h"
    using l by auto
  have none: "Suc m = length (linked q)" if "nnext (heap q h) = None" using lk_next_None [OF ok m(7) that] .
  have "case nnext (heap q h) of None \<Rightarrow> j \<le> m | Some x \<Rightarrow> lk q (Suc m) x"
    using none m(3) list_ok_head(4) [OF ok] lk_next_Some [OF ok m(7)] by (auto split: option.split)
  then have "locals_ok q (D4 w f l (nnext (heap q h)))" using m by (simp del: split_paired_Ex) blast
  moreover have "contents q = []" if "nnext (heap q h) = None" using none [OF that] m(2) by (simp add: contents_def)
  ultimately show ?thesis using ok by (intro same_good) (auto simp: qlabel_def split: option.splits)
qed

lemma d4_good:
  assumes ok: "list_ok q" and l: "locals_ok q (D4 w f l nx)" and e: "qstep (D4 w f l nx) q = Some (p', q')"
  shows "step_good (D4 w f l nx) q p' q'"
proof -
  obtain k j m where m: "k \<le> m" "m \<le> hpos q" "j \<le> tpos q" "k \<le> j" "lk q k f" "lk q j l"
      "case nx of None \<Rightarrow> j \<le> m | Some x \<Rightarrow> lk q (Suc m) x"
    using l by auto
  have km: "m = k" "hpos q = k" if "qhead q = f"
    using lk_unique [OF ok m(5)] list_ok_head(1) [OF ok] that m(1,2) by auto
  have jk: "j = k" if "f = l" using lk_unique [OF ok m(5)] m(6) that by auto
  have jl: "k < j" if "f \<noteq> l" using m(4,5,6) that by (cases "j = k") (auto simp: lk_def)
  have "locals_ok q p'"
  proof (cases "qhead q = f")
    case True
    note km = km [OF True]
    show ?thesis
    proof (cases "f = l")
      case True
      then show ?thesis using e m km jk [OF True] \<open>qhead q = f\<close> by (auto split: option.splits)
    next
      case False
      then obtain x where "nx = Some x" using jl m(7) km by (cases nx) auto
      moreover have "locals_ok q (D6 w f (Some x))" if "nx = Some x" for x
        using that m km jl [OF False] by (simp add: exI [of _ k])
      ultimately show ?thesis using e False \<open>qhead q = f\<close> by auto
    qed
  qed (use e in auto)
  moreover have "q' = q" "owned p' = None" "qlabel (D4 w f l nx) q = Tau"
    using e by (auto simp: qlabel_def split: if_splits option.splits)
  ultimately show ?thesis using ok by (simp add: same_good)
qed

lemma qstep_good:
  assumes ok: "list_ok q" and l: "locals_ok q p" and own: "\<And>n. owned p = Some n \<Longrightarrow> own q n"
    and e: "qstep p q = Some (p', q')"
  shows "step_good p q p' q'"
proof (cases p)
  case (E1 n)
  then show ?thesis using e ok list_ok_head [OF ok] by (auto intro!: same_good simp: qlabel_def)
next
  case (E2 n a)
  then obtain k where k: "k \<le> tpos q" "lk q k a" using l by auto
  then have "locals_ok q (E3 n a (nnext (heap q a)))" using lk_next_Some [OF ok k(2)] by auto
  then show ?thesis using e ok E2 by (auto intro!: same_good simp: qlabel_def simp del: locals_ok.simps)
next
  case (E3 n a nx)
  then show ?thesis using e ok l by (auto intro!: same_good simp: qlabel_def split: option.splits if_splits)
next
  case (E4 n a)
  then obtain k where k: "k \<le> tpos q" "lk q k a" using l by auto
  obtain b q1 where c: "cas_next a n q = (b, q1)" by fastforce
  then show ?thesis using cas_next_good [OF ok k own c] e E4 by auto
next
  case (E5 n a)
  then obtain k where k: "lk q k a" "lk q (Suc k) n" using l by auto
  then show ?thesis using cas_tail_good [OF ok k, of E7 p] e E5 by (auto simp: qlabel_def)
next
  case (E6 n a x)
  then obtain k where k: "lk q k a" "lk q (Suc k) x" using l by auto
  then show ?thesis using cas_tail_good [OF ok k, of "E1 n" p] e E6 by (auto simp: qlabel_def)
next
  case (D0 w)
  then show ?thesis using e ok list_ok_head [OF ok] by (auto intro!: same_good simp: qlabel_def)
next
  case (D1 w f)
  then obtain k where "k \<le> hpos q" "lk q k f" using l by auto
  then have "locals_ok q (D2 w f (qtail q))" using list_ok_head [OF ok] by (auto intro: order.trans)
  then show ?thesis using e ok D1 by (auto intro!: same_good simp: qlabel_def simp del: locals_ok.simps)
next
  case (D2 w f a)
  then have "locals_ok q (D3 w f a (qhead q))" using l list_ok_head [OF ok] by auto
  then show ?thesis using e ok D2 by (auto intro!: same_good simp: qlabel_def simp del: locals_ok.simps)
next
  case (D3 w f a h)
  then show ?thesis using d3_good [OF ok, of w f a h] e l by (simp del: locals_ok.simps)
next
  case (D4 w f a nx)
  then show ?thesis using d4_good [OF ok, of w f a nx p' q'] e l by (simp del: locals_ok.simps qstep.simps)
next
  case (D5 w f a x)
  then obtain k where k: "lk q k a" "lk q (Suc k) x" using l by auto
  then show ?thesis using cas_tail_good [OF ok k, of "D0 w" p] e D5 by (auto simp: qlabel_def)
next
  case (D6 w f nx)
  then obtain k x where "nx = Some x" "k \<le> hpos q" "lk q k f" "lk q (Suc k) x" "Suc k \<le> tpos q" using l by auto
  then have "locals_ok q (D7 w f x (nval (heap q x)))" "nx = Some x" by auto
  then show ?thesis using e ok D6 by (auto intro!: same_good simp: qlabel_def simp del: locals_ok.simps)
next
  case (D7 w f x v)
  then obtain k where k: "k \<le> hpos q" "lk q k f" "lk q (Suc k) x" "Suc k \<le> tpos q" "nval (heap q x) = v"
    using l by auto
  obtain b q1 where c: "cas_head f x q = (b, q1)" by fastforce
  then show ?thesis using cas_head_good [OF ok k c] e D7 by auto
next
  case D8
  then show ?thesis using e ok by (auto intro!: same_good simp: qlabel_def)
next
  case (D9 f v)
  then show ?thesis using e ok l by (auto intro!: same_good simp: qlabel_def)
qed (use e ok in \<open>auto intro!: same_good simp: qlabel_def\<close>)

text \<open>\<open>D6\<close> never finds a null \<open>next\<close>.\<close>

lemma d6_not_null: "locals_ok q (D6 w f nx) \<Longrightarrow> \<exists>x. nx = Some x"
  by auto

section \<open>Runs\<close>

text \<open>\<open>lf_inv\<close> over the threads as an indexed list.\<close>

definition lf_threads :: "'a lfq \<Rightarrow> 'a qpc list \<Rightarrow> bool" where
  "lf_threads q ps \<longleftrightarrow> (\<forall>i < length ps. locals_ok q (ps ! i) \<and> (\<forall>n. owned (ps ! i) = Some n \<longrightarrow> own q n)) \<and>
     (\<forall>i < length ps. \<forall>j < length ps. \<forall>n. owned (ps ! i) = Some n \<longrightarrow> owned (ps ! j) = Some n \<longrightarrow> i = j)"

lemma lf_inv_threads: "lf_inv c \<longleftrightarrow> list_ok (queue c) \<and> lf_threads (queue c) (qpcs c)"
  by (auto simp: lf_inv_def lf_threads_def qat_def)

lemma lf_inv_list: "lf_inv c \<Longrightarrow> list_ok (queue c)"
  by (simp add: lf_inv_def)

lemma lf_threads_step:
  assumes ok: "list_ok q" and t: "lf_threads q ps" and i: "i < length ps" and g: "step_good (ps ! i) q p' q'"
  shows "lf_threads q' (ps[i := p'])"
proof -
  have gr: "grows q q'" and l: "locals_ok q' p'" and o: "owned p' = None \<or> owned p' = owned (ps ! i)"
    and k: "\<And>n. own q n \<Longrightarrow> owned (ps ! i) = Some n \<longrightarrow> owned p' = Some n \<Longrightarrow> own q' n"
    using g by (auto simp: step_good_def)
  have "locals_ok q' (ps[i := p'] ! j)" if "j < length ps" for j
    using that l locals_grow [OF _ gr ok] t by (cases "j = i") (auto simp: lf_threads_def)
  moreover have "own q' n" if "j < length ps" "owned (ps[i := p'] ! j) = Some n" for j n
  proof (cases "j = i")
    case True
    then show ?thesis using that o t by (intro k) (auto simp: lf_threads_def)
  next
    case False
    then show ?thesis using that i t by (intro k) (auto simp: lf_threads_def)
  qed
  moreover have "j = j'" if "j < length ps" "j' < length ps" "owned (ps[i := p'] ! j) = Some n"
      "owned (ps[i := p'] ! j') = Some n" for j j' n
  proof -
    have "owned (ps ! j) = Some n" "owned (ps ! j') = Some n"
      using that o i by (cases "j = i"; cases "j' = i"; force)+
    then show ?thesis using that t by (auto simp: lf_threads_def)
  qed
  ultimately show ?thesis by (simp add: lf_threads_def)
qed

lemma lf_inv_qgoto:
  assumes "lf_inv c" and "qat i p c" and "step_good p (queue c) p' q'"
  shows "lf_inv (qgoto i p' q' c)"
  using assms lf_threads_step [of "queue c" "qpcs c" i p' q']
  by (auto simp: lf_inv_threads qgoto_def qat_def step_good_def)

lemma start_deq_good: "list_ok q \<Longrightarrow> step_good Idle q (D0 w) q"
  by (simp add: same_good qlabel_def)

lemma lf_inv_init: "lf_inv (qinit n undef)"
  by (auto simp: lf_inv_threads lf_threads_def qinit_def lfq_new_def list_ok_def lk_def)

text \<open>A new node is not in the list and no other thread has it.\<close>

lemma node_new_props:
  assumes ok: "list_ok q" and e: "node_new v q = (n, q')"
  shows "grows q q'" "list_ok q'" "contents q' = contents q" "own q' n" "\<And>m. own q m \<Longrightarrow> own q' m \<and> m \<noteq> n"
    "nval (heap q' n) = v"
proof -
  have s: "n = fresh q" "q' = q\<lparr>heap := (heap q)(n := \<lparr>nval = v, nnext = None\<rparr>), fresh := n + 1\<rparr>"
    using e by (auto simp: node_new_def)
  have nl: "n \<notin> set (linked q)" using ok s by (auto simp: list_ok_def)
  then have ln: "linked q ! k \<noteq> n" if "k < length (linked q)" for k using that nth_mem by metis
  have lkk: "lk q' = lk q" by (intro ext) (simp add: lk_def s)
  show "grows q q'" by (auto simp: grows_def s)
  show "list_ok q'" using ok ln unfolding list_ok_def lkk by (auto simp: s(2) less_Suc_eq s(1) [symmetric])
  show "contents q' = contents q" using nl by (auto simp: contents_def s(2) dest: in_set_dropD)
  show "own q' n" "\<And>m. own q m \<Longrightarrow> own q' m \<and> m \<noteq> n" "nval (heap q' n) = v"
    using nl s by (auto simp: own_def)
qed

lemma lf_inv_start_enq:
  assumes "lf_inv c" and i: "qat i Idle c" and e: "node_new v (queue c) = (n, q')"
  shows "lf_inv (qgoto i (E1 n) q' c)"
proof -
  have ok: "list_ok (queue c)" and t: "lf_threads (queue c) (qpcs c)" using assms(1) by (auto simp: lf_inv_threads)
  note p = node_new_props [OF ok e]
  have other: "owned (qpcs c ! j) \<noteq> Some n" if "j < length (qpcs c)" for j
    using that t p(5) by (auto simp: lf_threads_def)
  have "lf_threads q' ((qpcs c)[i := E1 n])"
    using t i p other locals_grow [OF _ p(1) ok]
    by (auto simp: lf_threads_def qat_def nth_list_update)
  then show ?thesis using p(2) by (simp add: lf_inv_threads qgoto_def)
qed

lemma lf_inv_step: "lf_inv c \<Longrightarrow> lfstep e c c' \<Longrightarrow> lf_inv c'"
proof (erule lfstep_elim)
  fix i p p' q
  assume "lf_inv c" "c' = qgoto i p' q c" and i: "qat i p c" and s: "qstep p (queue c) = Some (p', q)"
  moreover have "step_good p (queue c) p' q"
    using \<open>lf_inv c\<close> i by (intro qstep_good [OF _ _ _ s]) (auto simp: lf_inv_def)
  ultimately show "lf_inv c'" by (auto intro: lf_inv_qgoto)
qed (auto intro: lf_inv_start_enq lf_inv_qgoto start_deq_good [OF lf_inv_list])

lemma lf_inv_run: "lfrun n u tr c \<Longrightarrow> lf_inv c"
  by (induction rule: lfrun.induct) (auto intro: lf_inv_init lf_inv_step)

lemma lf_step_fifo: "lf_inv c \<Longrightarrow> lfstep e c c' \<Longrightarrow> fifo_step e (contents (queue c)) (contents (queue c'))"
proof (erule lfstep_elim)
  fix i p p' q
  assume "lf_inv c" "c' = qgoto i p' q c" "e = qlabel p (queue c)" and i: "qat i p c"
    and s: "qstep p (queue c) = Some (p', q)"
  moreover have "step_good p (queue c) p' q"
    using \<open>lf_inv c\<close> i by (intro qstep_good [OF _ _ _ s]) (auto simp: lf_inv_def)
  ultimately show ?thesis by (simp add: step_good_def qgoto_def)
qed (auto simp: qgoto_def lf_inv_def dest: node_new_props(3))

section \<open>The semaphore and the deleted nodes\<close>

text \<open>
  The counts an instruction moves between the queue and its thread: ups still to come, downs
  still to come, the node still to be deleted.
\<close>

fun ups :: "'a qpc \<Rightarrow> nat" where
  "ups (E5 n l) = 1"
| "ups E7 = 1"
| "ups D8u = 1"
| "ups _ = 0"

fun downs :: "'a qpc \<Rightarrow> nat" where
  "downs (D9 f v) = 1"
| "downs _ = 0"

fun unlinked :: "'a qpc \<Rightarrow> nat multiset" where
  "unlinked (D9 f v) = {#f#}"
| "unlinked (D10 f v) = {#f#}"
| "unlinked _ = {#}"

text \<open>The new node of a thread in \<open>enq\<close>.\<close>

definition unborn :: "'a qpc \<Rightarrow> nat multiset" where
  "unborn p = (case owned p of None \<Rightarrow> {#} | Some n \<Rightarrow> {#n#})"

definition sem_acct :: "'a qconf \<Rightarrow> bool" where
  "sem_acct c \<longleftrightarrow> sem (queue c) + sum_list (map ups (qpcs c)) =
     length (contents (queue c)) + sum_list (map downs (qpcs c))"

definition del_acct :: "'a qconf \<Rightarrow> bool" where
  "del_acct c \<longleftrightarrow> mset (dead (queue c)) + sum_list (map unlinked (qpcs c)) =
     mset (take (hpos (queue c)) (linked (queue c)))"

definition new_acct :: "'a qconf \<Rightarrow> bool" where
  "new_acct c \<longleftrightarrow> mset (linked (queue c)) + sum_list (map unborn (qpcs c)) = mset [0..<fresh (queue c)]"

lemma qstep_new:
  assumes "qstep p q = Some (p', q')"
  shows "mset (linked q') + unborn p' = mset (linked q) + unborn p" "fresh q' = fresh q"
  using assms
  by (cases p; auto simp: unborn_def touch_def cas_next_def cas_tail_def cas_head_def sem_up_def
      sem_down_def node_delete_def split: if_splits option.splits)+

lemma lf_new_step:
  assumes inv: "lf_inv c" and s: "new_acct c" and st: "lfstep e c c'"
  shows "new_acct c'"
  using st
proof (rule lfstep_elim)
  fix i v n q
  assume i: "qat i Idle c" and e: "node_new v (queue c) = (n, q)" and c': "c' = qgoto i (E1 n) q c"
  have "n = fresh (queue c)" "fresh q = Suc (fresh (queue c))" "linked q = linked (queue c)"
    using e by (auto simp: node_new_def)
  then show ?thesis
    using s i sum_map_swap [of i "qpcs c" unborn "E1 n"]
    by (simp add: c' new_acct_def qgoto_def qat_def unborn_def)
next
  fix i w
  assume i: "qat i Idle c" and c': "c' = qgoto i (D0 w) (queue c) c"
  show ?thesis
    using s i sum_map_swap [of i "qpcs c" unborn "D0 w"]
    by (simp add: c' new_acct_def qgoto_def qat_def unborn_def)
next
  fix i p p' q
  assume i: "qat i p c" and e: "qstep p (queue c) = Some (p', q)" and c': "c' = qgoto i p' q c"
  have "sum_list (map unborn ((qpcs c)[i := p'])) + unborn p = sum_list (map unborn (qpcs c)) + unborn p'"
    using i sum_map_swap [of i "qpcs c" unborn p'] by (auto simp: qat_def)
  then have "mset (linked q) + sum_list (map unborn ((qpcs c)[i := p'])) + unborn p =
      (mset (linked q) + unborn p') + sum_list (map unborn (qpcs c))"
    by (simp add: ac_simps)
  also have "\<dots> = mset [0..<fresh (queue c)] + unborn p"
    using qstep_new(1) [OF e] s by (simp add: new_acct_def ac_simps)
  finally show ?thesis using qstep_new(2) [OF e] by (simp add: c' new_acct_def qgoto_def)
qed

lemma lf_new_run: "lfrun n u tr c \<Longrightarrow> new_acct c"
proof (induction rule: lfrun.induct)
  case lf_init
  then show ?case by (simp add: new_acct_def qinit_def lfq_new_def unborn_def)
next
  case (lf_step tr c e c')
  show ?case by (rule lf_new_step [OF lf_inv_run [OF lf_step.hyps(1)] lf_step.IH lf_step.hyps(2)])
qed

lemma qstep_sem:
  assumes g: "step_good p q p' q'" and e: "qstep p q = Some (p', q')"
  shows "sem q' + ups p' + length (contents q) + downs p = sem q + ups p + length (contents q') + downs p'"
proof -
  have "fifo_step (qlabel p q) (contents q) (contents q')" using g by (simp add: step_good_def)
  then show ?thesis using e
    by (cases p) (auto simp: qlabel_def touch_def cas_next_def cas_tail_def cas_head_def sem_up_def
      sem_down_def node_delete_def split: if_splits option.splits)
qed

lemma qstep_del:
  assumes g: "list_ok q" "step_good p q p' q'" and e: "qstep p q = Some (p', q')"
  shows "mset (dead q') + unlinked p' + mset (take (hpos q) (linked q)) =
    mset (dead q) + unlinked p + mset (take (hpos q') (linked q'))"
proof -
  have h: "hpos q < length (linked q)" "linked q ! hpos q = qhead q"
    using list_ok_head [OF g(1)] by (auto simp: lk_def)
  have t: "take (Suc (hpos q)) (linked q) = take (hpos q) (linked q) @ [qhead q]"
    using h by (simp add: take_Suc_conv_app_nth)
  show ?thesis using e h t
    by (cases p) (auto simp: touch_def cas_next_def cas_tail_def cas_head_def sem_up_def
      sem_down_def node_delete_def split: if_splits option.splits)
qed

lemma lf_acct_step:
  assumes inv: "lf_inv c" and s: "sem_acct c" "del_acct c" and st: "lfstep e c c'"
  shows "sem_acct c' \<and> del_acct c'"
  using st
proof (rule lfstep_elim)
  fix i v n q
  assume i: "qat i Idle c" and e: "node_new v (queue c) = (n, q)" and c': "c' = qgoto i (E1 n) q c"
  have "sem q = sem (queue c)" "dead q = dead (queue c)" "hpos q = hpos (queue c)" "linked q = linked (queue c)"
    using e by (auto simp: node_new_def)
  then show ?thesis
    using s i sum_map_swap [of i "qpcs c" ups "E1 n"] sum_map_swap [of i "qpcs c" downs "E1 n"]
      sum_map_swap [of i "qpcs c" unlinked "E1 n"] node_new_props(3) [OF lf_inv_list [OF inv] e]
    by (simp add: c' sem_acct_def del_acct_def qgoto_def qat_def)
next
  fix i w
  assume i: "qat i Idle c" and c': "c' = qgoto i (D0 w) (queue c) c"
  show ?thesis
    using s i sum_map_swap [of i "qpcs c" ups "D0 w"] sum_map_swap [of i "qpcs c" downs "D0 w"]
      sum_map_swap [of i "qpcs c" unlinked "D0 w"]
    by (simp add: c' sem_acct_def del_acct_def qgoto_def qat_def)
next
  fix i p p' q
  assume i: "qat i p c" and e: "qstep p (queue c) = Some (p', q)" and c': "c' = qgoto i p' q c"
  have g: "step_good p (queue c) p' q"
    using inv i by (intro qstep_good [OF _ _ _ e]) (auto simp: lf_inv_def)
  have "sem_acct c'"
    using s(1) i sum_map_swap [of i "qpcs c" ups p'] sum_map_swap [of i "qpcs c" downs p'] qstep_sem [OF g e]
    by (simp add: c' sem_acct_def qgoto_def qat_def)
  moreover have "del_acct c'"
  proof -
    have a: "sum_list (map unlinked ((qpcs c)[i := p'])) + unlinked p = sum_list (map unlinked (qpcs c)) + unlinked p'"
      using i sum_map_swap [of i "qpcs c" unlinked p'] by (auto simp: qat_def)
    have "mset (dead q) + sum_list (map unlinked ((qpcs c)[i := p'])) + (unlinked p + mset (take (hpos (queue c)) (linked (queue c)))) =
        (mset (dead q) + unlinked p' + mset (take (hpos (queue c)) (linked (queue c)))) + sum_list (map unlinked (qpcs c))"
      using a by (simp add: ac_simps)
    also have "\<dots> = mset (take (hpos q) (linked q)) + (unlinked p + mset (take (hpos (queue c)) (linked (queue c))))"
      using qstep_del [OF lf_inv_list [OF inv] g e] s(2) by (simp add: del_acct_def ac_simps)
    finally show ?thesis by (simp add: c' del_acct_def qgoto_def)
  qed
  ultimately show ?thesis by simp
qed

lemma lf_acct_run: "lfrun n u tr c \<Longrightarrow> sem_acct c \<and> del_acct c"
proof (induction rule: lfrun.induct)
  case lf_init
  then show ?case
    by (simp add: sem_acct_def del_acct_def qinit_def lfq_new_def contents_def)
next
  case (lf_step tr c e c')
  show ?case using lf_acct_step [OF lf_inv_run [OF lf_step.hyps(1)] _ _ lf_step.hyps(2)] lf_step.IH by simp
qed

section \<open>Destruction\<close>

text \<open>\<open>~LockFreeQueue\<close>: the nodes it deletes, from \<open>head\<close> on.\<close>

partial_function (option) free_from :: "(nat \<Rightarrow> 'a node) \<Rightarrow> nat option \<Rightarrow> nat list option" where
  "free_from h cur =
     (case cur of None \<Rightarrow> Some []
      | Some a \<Rightarrow> Option.bind (free_from h (nnext (h a))) (\<lambda>as. Some (a # as)))"

declare free_from.simps [code]

definition lfq_delete :: "'a lfq \<Rightarrow> 'a lfq option" where
  "lfq_delete q = map_option (\<lambda>as. q\<lparr>dead := rev as @ dead q\<rparr>) (free_from (heap q) (Some (qhead q)))"

lemma free_from_list:
  assumes "list_ok q"
  shows "k < length (linked q) \<Longrightarrow> free_from (heap q) (Some (linked q ! k)) = Some (drop k (linked q))"
proof (induction "length (linked q) - k" arbitrary: k)
  case (Suc m)
  then have nx: "nnext (heap q (linked q ! k)) = (if Suc k < length (linked q) then Some (linked q ! Suc k) else None)"
    using assms by (simp add: list_ok_def)
  have d: "drop k (linked q) = linked q ! k # drop (Suc k) (linked q)"
    using Suc.prems by (simp add: Cons_nth_drop_Suc)
  show ?case
  proof (cases "Suc k < length (linked q)")
    case True
    then have "free_from (heap q) (Some (linked q ! Suc k)) = Some (drop (Suc k) (linked q))"
      using Suc.hyps(1) [of "Suc k"] Suc.hyps(2) by simp
    then show ?thesis by (subst free_from.simps) (simp add: nx True d)
  next
    case False
    have "free_from (heap q) None = Some []" by (subst free_from.simps) simp
    then show ?thesis using False Suc.prems by (subst free_from.simps) (simp add: nx d)
  qed
qed simp

lemma lfq_delete_list: "list_ok q \<Longrightarrow>
    lfq_delete q = Some (q\<lparr>dead := rev (drop (hpos q) (linked q)) @ dead q\<rparr>)"
  using free_from_list [of q "hpos q"] list_ok_head [of q] by (simp add: lfq_delete_def lk_def)

section \<open>Calls that do not overlap\<close>

text \<open>A thread alone in the queue, from a point of a call to its return, with the value it returns.\<close>

fun qalone :: "nat \<Rightarrow> 'a qpc \<Rightarrow> 'a lfq \<Rightarrow> ('a option \<times> 'a lfq) option" where
  "qalone 0 p q = None"
| "qalone (Suc n) Idle q = Some (None, q)"
| "qalone (Suc n) (D10 f v) q = map_option (\<lambda>(p, q'). (Some v, q')) (qstep (D10 f v) q)"
| "qalone (Suc n) p q = (case qstep p q of None \<Rightarrow> None | Some (p', q') \<Rightarrow> qalone n p' q')"

definition lfq_enq :: "'a \<Rightarrow> 'a lfq \<Rightarrow> 'a lfq" where
  "lfq_enq v q = (let (n, q1) = node_new v q in case qalone 8 (E1 n) q1 of None \<Rightarrow> q1 | Some (r, q2) \<Rightarrow> q2)"

definition lfq_nowait_deq :: "'a lfq \<Rightarrow> 'a option \<times> 'a lfq" where
  "lfq_nowait_deq q = (case qalone 12 (D0 False) q of None \<Rightarrow> (None, q) | Some r \<Rightarrow> r)"

definition lfq_wait_deq :: "'a lfq \<Rightarrow> ('a \<times> 'a lfq) option" where
  "lfq_wait_deq q = (case qalone 12 (D0 True) q of Some (Some v, q') \<Rightarrow> Some (v, q') | _ \<Rightarrow> None)"

definition lfq_quiet :: "'a lfq \<Rightarrow> bool" where
  "lfq_quiet q \<longleftrightarrow> list_ok q \<and> Suc (tpos q) = length (linked q) \<and> sem q = length (contents q)"

lemma same_list_quiet:
  assumes "same_list q q'"
  shows "lfq_quiet q' \<longleftrightarrow> list_ok q \<and> Suc (tpos q) = length (linked q) \<and> sem q' = length (contents q)"
  using same_list_ok [OF assms] assms by (simp add: lfq_quiet_def same_list_def)

lemma touch_simps [simp]:
  "heap (touch a q) = heap q" "qhead (touch a q) = qhead q" "qtail (touch a q) = qtail q"
  "sem (touch a q) = sem q" "linked (touch a q) = linked q" "hpos (touch a q) = hpos q"
  "tpos (touch a q) = tpos q" "dead (touch a q) = dead q"
  "list_ok (touch a q) = list_ok q" "own (touch a q) n = own q n" "contents (touch a q) = contents q"
  "lk (touch a q) = lk q"
  using same_list_ok [of q "touch a q"] same_list_lk [of q "touch a q"] by simp_all (simp_all add: touch_def)

lemma lfq_enq_law:
  assumes quiet: "lfq_quiet q"
  shows "lfq_quiet (lfq_enq v q) \<and> contents (lfq_enq v q) = contents q @ [v]"
proof -
  obtain n q1 where e: "node_new v q = (n, q1)" by fastforce
  have ok: "list_ok q" using quiet by (simp add: lfq_quiet_def)
  note p = node_new_props [OF ok e]
  have s1: "tpos q1 = tpos q" "linked q1 = linked q" "sem q1 = sem q" "qtail q1 = qtail q"
    using e by (auto simp: node_new_def)
  have t: "lk q1 (tpos q) (qtail q)" using list_ok_head(2) [OF p(2)] s1 by simp
  have nx: "nnext (heap q1 (qtail q)) = None"
    using lk_next [OF p(2) t] quiet s1 by (simp add: lfq_quiet_def)
  obtain q2 where c: "cas_next (qtail q) n (touch (qtail q) q1) = (True, q2)"
    using nx by (simp add: cas_next_def)
  have g: "step_good (E4 n (qtail q)) (touch (qtail q) q1) (E5 n (qtail q)) q2"
    using cas_next_good [OF _ _ _ _ c, of "tpos q"] t s1 p by simp
  have q2: "tpos q2 = tpos q" "qtail q2 = qtail q" "linked q2 = linked q @ [n]" "sem q2 = sem q"
    using c s1 by (auto simp: cas_next_def split: if_splits)
  have v2: "contents q2 = contents q @ [v]"
    using g p(3,6) nx by (simp add: step_good_def qlabel_def)
  have l2: "lk q2 (tpos q) (qtail q)" "lk q2 (Suc (tpos q)) n"
    using list_ok_head(2) [of q2] g q2 quiet by (auto simp: step_good_def lk_def lfq_quiet_def nth_append)
  have g3: "step_good Idle q2 Idle (cas_tail (qtail q) n q2)"
    using g by (intro cas_tail_good [OF _ l2]) (auto simp: step_good_def qlabel_def)
  have r: "lfq_enq v q = sem_up (cas_tail (qtail q) n q2)"
    using nx c s1 by (simp add: lfq_enq_def e eval_nat_numeral)
  have "list_ok (cas_tail (qtail q) n q2)" "contents (cas_tail (qtail q) n q2) = contents q @ [v]"
    using g3 v2 by (auto simp: step_good_def qlabel_def)
  then have "list_ok (lfq_enq v q)" "contents (lfq_enq v q) = contents q @ [v]"
    unfolding r using same_list_ok [of "cas_tail (qtail q) n q2" "sem_up (cas_tail (qtail q) n q2)"] by auto
  moreover have "Suc (tpos (lfq_enq v q)) = length (linked (lfq_enq v q))" "sem (lfq_enq v q) = Suc (sem q)"
    unfolding r using q2 quiet by (auto simp: sem_up_def cas_tail_def lfq_quiet_def)
  ultimately show ?thesis using quiet by (simp add: lfq_quiet_def)
qed

lemma quiet_empty:
  assumes "lfq_quiet q" and "contents q = []"
  shows "qhead q = qtail q" "nnext (heap q (qhead q)) = None" "sem q = 0"
proof -
  have ok: "list_ok q" using assms by (simp add: lfq_quiet_def)
  have h: "Suc (hpos q) = length (linked q)" "hpos q = tpos q"
    using assms list_ok_head [OF ok] by (auto simp: lfq_quiet_def contents_def lk_def)
  show "qhead q = qtail q" using list_ok_head(1,2) [OF ok] h by (simp add: lk_def)
  show "nnext (heap q (qhead q)) = None" using lk_next [OF ok list_ok_head(1) [OF ok]] h by simp
  show "sem q = 0" using assms by (simp add: lfq_quiet_def)
qed

lemma lfq_deq_none:
  assumes "lfq_quiet q" and "contents q = []"
  shows "lfq_nowait_deq q = (None, touch (qhead q) q)" "lfq_wait_deq q = None"
    "lfq_quiet (touch (qhead q) q)" "contents (touch (qhead q) q) = []"
  using assms quiet_empty [OF assms]
  by (simp_all add: lfq_nowait_deq_def lfq_wait_deq_def eval_nat_numeral sem_down_def lfq_quiet_def)

lemma lfq_deq_some:
  assumes quiet: "lfq_quiet q" and c: "contents q = v # vs"
  shows "\<exists>q'. qalone 12 (D0 w) q = Some (Some v, q') \<and> lfq_quiet q' \<and> contents q' = vs"
proof -
  have ok: "list_ok q" using quiet by (simp add: lfq_quiet_def)
  have h: "Suc (hpos q) < length (linked q)" "Suc (hpos q) \<le> tpos q"
    using arg_cong [OF c, of length] quiet by (auto simp: contents_def lfq_quiet_def)
  define x where "x = linked q ! Suc (hpos q)"
  have x: "lk q (Suc (hpos q)) x" using h by (simp add: x_def lk_def)
  have nx: "nnext (heap q (qhead q)) = Some x" using lk_next [OF ok list_ok_head(1) [OF ok]] h by (simp add: x_def)
  have ne: "qhead q \<noteq> qtail q"
    using lk_unique [OF ok list_ok_head(1) [OF ok]] list_ok_head(2) [OF ok] h(2) by force
  have v: "nval (heap q x) = v" using contents_cons [OF ok x] c by simp
  let ?q = "touch x (touch (qhead q) q)"
  have s: "same_list q ?q" by (simp add: same_list_def touch_def)
  obtain q2 where e: "cas_head (qhead q) x ?q = (True, q2)" by (simp add: cas_head_def)
  have g: "step_good (D7 w (qhead q) x v) ?q (D9 (qhead q) v) q2"
    using cas_head_good [OF _ _ _ _ _ _ e, of "hpos q" v w] ok x list_ok_head(1) [OF ok] h v by simp
  have q2: "tpos q2 = tpos q" "linked q2 = linked q" "sem q2 = sem q" "contents q2 = vs" "list_ok q2"
    using g e c by (auto simp: cas_head_def step_good_def qlabel_def)
  obtain q3 where d: "sem_down q2 = Some q3" "sem q3 = sem q - 1"
    using quiet c q2 by (auto simp: sem_down_def lfq_quiet_def)
  have "qalone 12 (D0 w) q = Some (Some v, node_delete (qhead q) q3)"
    using nx ne v e d by (simp add: eval_nat_numeral)
  moreover have "same_list q2 (node_delete (qhead q) q3)"
    using d by (auto simp: same_list_def node_delete_def sem_down_def split: if_splits)
  ultimately show ?thesis
    using q2 d quiet c by (auto simp: same_list_quiet same_list_ok) (auto simp: lfq_quiet_def node_delete_def)
qed

interpretation lfq: conc_queue lfq_quiet contents lfq_enq lfq_nowait_deq lfq_wait_deq
proof unfold_locales
  fix q :: "'a lfq" and v vs
  assume quiet: "lfq_quiet q"
  show "lfq_quiet (lfq_enq v q) \<and> contents (lfq_enq v q) = contents q @ [v]" using quiet by (rule lfq_enq_law)
  show "\<exists>s'. lfq_nowait_deq q = (None, s') \<and> lfq_quiet s' \<and> contents s' = []" if "contents q = []"
    using lfq_deq_none [OF quiet that] by blast
  show "lfq_wait_deq q = None" if "contents q = []" using lfq_deq_none [OF quiet that] by blast
  show "\<exists>s'. lfq_nowait_deq q = (Some v, s') \<and> lfq_quiet s' \<and> contents s' = vs" if "contents q = v # vs"
    using lfq_deq_some [OF quiet that, of False] by (auto simp: lfq_nowait_deq_def)
  show "\<exists>s'. lfq_wait_deq q = Some (v, s') \<and> lfq_quiet s' \<and> contents s' = vs" if "contents q = v # vs"
    using lfq_deq_some [OF quiet that, of True] by (auto simp: lfq_wait_deq_def)
qed

section \<open>Properties\<close>

lemma idle_sums:
  assumes "\<forall>p \<in> set ps. p = Idle"
  shows "sum_list (map ups ps) = 0" "sum_list (map downs ps) = 0" "sum_list (map unlinked ps) = {#}"
    "sum_list (map unborn ps) = {#}"
  using assms by (induction ps) (auto simp: unborn_def)

text \<open>C9. The lock-free queue is a queue under every interleaving of any number of threads, as long
  as the allocator does not recycle a node: the items in the order their compare-and-swaps linked
  them are those taken out, in that order, followed by those still there.\<close>

theorem lf_queue_fifo:
  assumes "lfrun n u tr c"
  shows "enqs tr = deqs tr @ contents (queue c)"
  using assms
proof (induction rule: lfrun.induct)
  case lf_init
  then show ?case by (simp add: qinit_def lfq_new_def contents_def)
next
  case (lf_step tr c e c')
  have "fifo_step e (contents (queue c)) (contents (queue c'))"
    by (rule lf_step_fifo [OF lf_inv_run [OF lf_step.hyps(1)] lf_step.hyps(2)])
  then show ?case using lf_step.IH by (rule fifo_step_conserves)
qed

text \<open>A run of two threads: one puts an item in, the other takes it out.\<close>

definition enq_all :: "nat \<Rightarrow> 'a \<Rightarrow> 'a qcall list" where
  "enq_all i v = Call_enq i v # replicate 6 (Go i)"

definition deq_all :: "nat \<Rightarrow> 'a qcall list" where
  "deq_all i = Call_deq i False # replicate 9 (Go i)"

lemma lfexec_reaches:
  assumes "case lfexec ss (qinit n u) of None \<Rightarrow> False | Some (tr, c) \<Rightarrow> P tr c"
  shows "\<exists>tr c. lfrun n u tr c \<and> P tr c"
  using assms lfexec_run [OF lf_init, where ss = ss and n = n] by (auto split: option.splits) blast

theorem lf_queue_fifo_witness:
  "\<exists>tr c. lfrun 2 (0 :: nat) tr c \<and> deqs tr = [7] \<and> contents (queue c) = [8] \<and>
     enqs tr = deqs tr @ contents (queue c)"
proof -
  have "\<exists>tr c. lfrun 2 (0 :: nat) tr c \<and> deqs tr = [7] \<and> contents (queue c) = [8]"
    by (rule lfexec_reaches [where ss = "enq_all 0 7 @ enq_all 0 8 @ deq_all 1"]) code_simp
  then show ?thesis using lf_queue_fifo by metis
qed



text \<open>Against the comment in \<open>nowait_deq\<close>, a deleted node is read even when no address is
  recycled, both by an \<open>enq\<close> that read \<open>tail\<close> before the node was unlinked and by a dequeue
  that read \<open>head\<close>; and a dequeue that has taken its item does sleep on the semaphore when the
  enqueuer has not raised it yet.\<close>

theorem lf_reads_deleted_nodes:
  "(\<exists>tr c n a. lfrun 2 (0 :: nat) tr c \<and> qat 0 (E2 n a) c \<and> a \<in> set (dead (queue c))) \<and>
   (\<exists>tr c w f l a. lfrun 2 (0 :: nat) tr c \<and> qat 0 (D3 w f l a) c \<and> a \<in> set (dead (queue c))) \<and>
   (\<exists>tr c f v. lfrun 2 (0 :: nat) tr c \<and> qat 1 (D9 f v) c \<and> qstep (D9 f v) (queue c) = None)"
proof (intro conjI)
  have "\<exists>tr c. lfrun 2 (0 :: nat) tr c \<and> qat 0 (E2 1 0) c \<and> 0 \<in> set (dead (queue c))"
    by (rule lfexec_reaches [where ss = "[Call_enq 0 7, Go 0] @ enq_all 1 8 @ deq_all 1"]) code_simp
  then show "\<exists>tr c n a. lfrun 2 (0 :: nat) tr c \<and> qat 0 (E2 n a) c \<and> a \<in> set (dead (queue c))" by blast
  have "\<exists>tr c. lfrun 2 (0 :: nat) tr c \<and> qat 0 (D3 False 0 1 0) c \<and> 0 \<in> set (dead (queue c))"
    by (rule lfexec_reaches [where ss = "enq_all 1 8 @ [Call_deq 0 False, Go 0, Go 0, Go 0] @ deq_all 1"]) code_simp
  then show "\<exists>tr c w f l a. lfrun 2 (0 :: nat) tr c \<and> qat 0 (D3 w f l a) c \<and> a \<in> set (dead (queue c))" by blast
  have "\<exists>tr c. lfrun 2 (0 :: nat) tr c \<and> qat 1 (D9 0 8) c \<and> qstep (D9 0 8) (queue c) = None"
    by (rule lfexec_reaches [where ss = "[Call_enq 0 8] @ replicate 5 (Go 0) @ [Call_deq 1 False] @ replicate 7 (Go 1)"]) code_simp
  then show "\<exists>tr c f v. lfrun 2 (0 :: nat) tr c \<and> qat 1 (D9 f v) c \<and> qstep (D9 f v) (queue c) = None" by blast
qed

end
