(* ===== verification/DoubleLockedQueue.thy ===== *)
theory DoubleLockedQueue
  imports ConcurrentQueue
begin

text \<open>
  \<open>DoubleLockedQueue.hpp\<close>: the queue with two locks, one per end, and a condition variable, for any
  number of threads. A mutex is the thread that holds it, the condition variable the threads that
  sleep on it; the operations on the \<open>std::queue\<close> are taken to be atomic, and the states in which
  two threads are inside it at once are exhibited.
\<close>

section \<open>State\<close>

record 'a dlq =
  ditems :: "'a list"
  front_lock :: "nat option"
  back_lock :: "nat option"
  sleepers :: "nat list"

definition dlq_new :: "'a dlq" where
  "dlq_new = \<lparr>ditems = [], front_lock = None, back_lock = None, sleepers = []\<rparr>"

text \<open>\<open>Mutex\<close> and \<open>CondVar\<close>; \<open>None\<close> where the caller blocks.\<close>

definition lock_front :: "nat \<Rightarrow> 'a dlq \<Rightarrow> 'a dlq option" where
  "lock_front i q = (if front_lock q = None then Some (q\<lparr>front_lock := Some i\<rparr>) else None)"

definition lock_back :: "nat \<Rightarrow> 'a dlq \<Rightarrow> 'a dlq option" where
  "lock_back i q = (if back_lock q = None then Some (q\<lparr>back_lock := Some i\<rparr>) else None)"

definition unlock_front :: "'a dlq \<Rightarrow> 'a dlq" where
  "unlock_front q = q\<lparr>front_lock := None\<rparr>"

definition unlock_back :: "'a dlq \<Rightarrow> 'a dlq" where
  "unlock_back q = q\<lparr>back_lock := None\<rparr>"

text \<open>\<open>nonempty.wait()\<close> releases \<open>front\<close> and sleeps; \<open>nonempty.signal()\<close> wakes one sleeper, if
  there is one, of the system's choice \<open>k\<close>.\<close>

definition cond_sleep :: "nat \<Rightarrow> 'a dlq \<Rightarrow> 'a dlq" where
  "cond_sleep i q = q\<lparr>front_lock := None, sleepers := i # sleepers q\<rparr>"

definition cond_wake :: "nat \<Rightarrow> 'a dlq \<Rightarrow> 'a dlq" where
  "cond_wake i q = q\<lparr>sleepers := removeAll i (sleepers q)\<rparr>"

definition cond_signal :: "nat \<Rightarrow> 'a dlq \<Rightarrow> 'a dlq option" where
  "cond_signal k q =
     (if sleepers q = [] then Some q else if k \<in> set (sleepers q) then Some (cond_wake k q) else None)"

section \<open>The threads\<close>

text \<open>
  The points of \<open>enq\<close>: taking \<open>back\<close>, the emptiness test, the push, taking \<open>front\<close>, the signal
  and the two unlocks. Then those of \<open>wait_deq\<close> (flag set) and \<open>nowait_deq\<close>: taking \<open>front\<close>, the
  test, the call of \<open>wait\<close>, asleep, awake without the lock, the pop and the unlock.
\<close>

datatype 'a dpc =
  DIdle
| Lock_back 'a | Test_back 'a | Push 'a bool | Lock_signal | Signal | Unlock_signal | Unlock_back
| Lock_front bool | Test_front bool | Wait | Asleep | Awake | Pop bool | Unlock_front

fun dqstep :: "nat \<Rightarrow> nat \<Rightarrow> 'a dpc \<Rightarrow> 'a dlq \<Rightarrow> ('a dpc \<times> 'a dlq) option" where
  "dqstep k i DIdle q = None"
| "dqstep k i (Lock_back v) q = map_option (Pair (Test_back v)) (lock_back i q)"
| "dqstep k i (Test_back v) q = Some (Push v (ditems q = []), q)"
| "dqstep k i (Push v d) q = Some (if d then Lock_signal else Unlock_back, q\<lparr>ditems := ditems q @ [v]\<rparr>)"
| "dqstep k i Lock_signal q = map_option (Pair Signal) (lock_front i q)"
| "dqstep k i Signal q = map_option (Pair Unlock_signal) (cond_signal k q)"
| "dqstep k i Unlock_signal q = Some (Unlock_back, unlock_front q)"
| "dqstep k i Unlock_back q = Some (DIdle, unlock_back q)"
| "dqstep k i (Lock_front w) q = map_option (Pair (Test_front w)) (lock_front i q)"
| "dqstep k i (Test_front w) q = Some (if ditems q \<noteq> [] then Pop w else if w then Wait else Unlock_front, q)"
| "dqstep k i Wait q = Some (Asleep, cond_sleep i q)"
| "dqstep k i Asleep q = (if i \<in> set (sleepers q) then None else Some (Awake, q))"
| "dqstep k i Awake q = map_option (Pair (Test_front True)) (lock_front i q)"
| "dqstep k i (Pop w) q = (case ditems q of [] \<Rightarrow> None | v # vs \<Rightarrow> Some (Unlock_front, q\<lparr>ditems := vs\<rparr>))"
| "dqstep k i Unlock_front q = Some (DIdle, unlock_front q)"

definition dlabel :: "'a dpc \<Rightarrow> 'a dlq \<Rightarrow> 'a qevent" where
  "dlabel p q =
     (case p of
        Push v d \<Rightarrow> Enq v
      | Pop w \<Rightarrow> (case ditems q of [] \<Rightarrow> Tau | v # vs \<Rightarrow> Deq v)
      | Test_front w \<Rightarrow> if ditems q = [] then Empty else Tau
      | _ \<Rightarrow> Tau)"

record 'a dconf =
  dqueue :: "'a dlq"
  dpcs :: "'a dpc list"

text \<open>What can happen next: a call begins, a thread goes on (a signal wakes thread \<open>k\<close>), or a
  sleeper wakes up of its own accord, as \<open>pthread_cond_wait\<close> may.\<close>

datatype 'a dcall = Begin_enq nat 'a | Begin_deq nat bool | Go nat nat | Spurious nat

fun thread_of :: "'a dcall \<Rightarrow> nat" where
  "thread_of (Begin_enq i v) = i"
| "thread_of (Begin_deq i w) = i"
| "thread_of (Go i k) = i"
| "thread_of (Spurious i) = i"

fun dstep :: "'a dcall \<Rightarrow> 'a dpc \<Rightarrow> 'a dlq \<Rightarrow> ('a dpc \<times> 'a dlq) option" where
  "dstep (Begin_enq i v) p q = (if p = DIdle then Some (Lock_back v, q) else None)"
| "dstep (Begin_deq i w) p q = (if p = DIdle then Some (Lock_front w, q) else None)"
| "dstep (Go i k) p q = dqstep k i p q"
| "dstep (Spurious i) p q = (if p = Asleep then Some (Awake, cond_wake i q) else None)"

definition dlstep :: "'a dcall \<Rightarrow> 'a dconf \<Rightarrow> ('a qevent \<times> 'a dconf) option" where
  "dlstep a c =
     (let i = thread_of a in
      if i < length (dpcs c)
      then map_option (\<lambda>(p, q). (dlabel (dpcs c ! i) (dqueue c), \<lparr>dqueue = q, dpcs = (dpcs c)[i := p]\<rparr>))
        (dstep a (dpcs c ! i) (dqueue c))
      else None)"

definition dinit :: "nat \<Rightarrow> 'a dconf" where
  "dinit n = \<lparr>dqueue = dlq_new, dpcs = replicate n DIdle\<rparr>"

inductive dlrun :: "nat \<Rightarrow> 'a qevent list \<Rightarrow> 'a dconf \<Rightarrow> bool" for n where
  dl_init: "dlrun n [] (dinit n)"
| dl_step: "dlrun n tr c \<Longrightarrow> dlstep a c = Some (e, c') \<Longrightarrow> dlrun n (tr @ [e]) c'"

fun dlexec :: "'a dcall list \<Rightarrow> 'a dconf \<Rightarrow> ('a qevent list \<times> 'a dconf) option" where
  "dlexec [] c = Some ([], c)"
| "dlexec (a # as) c =
     (case dlstep a c of
        None \<Rightarrow> None
      | Some (e, c') \<Rightarrow> (case dlexec as c' of None \<Rightarrow> None | Some (tr, c'') \<Rightarrow> Some (e # tr, c'')))"

lemma dlexec_run: "dlrun n tr c \<Longrightarrow> dlexec as c = Some (tr', c') \<Longrightarrow> dlrun n (tr @ tr') c'"
proof (induction as arbitrary: c tr tr')
  case (Cons a as)
  then obtain e c1 tr1 where s: "dlstep a c = Some (e, c1)" "dlexec as c1 = Some (tr1, c')" "tr' = e # tr1"
    by (auto split: option.splits)
  show ?case using Cons.IH [OF dl_step [OF Cons.prems(1) s(1)] s(2)] s(3) by simp
qed simp

section \<open>Invariant\<close>

fun in_front :: "'a dpc \<Rightarrow> bool" where
  "in_front Signal \<longleftrightarrow> True"
| "in_front Unlock_signal \<longleftrightarrow> True"
| "in_front (Test_front w) \<longleftrightarrow> True"
| "in_front Wait \<longleftrightarrow> True"
| "in_front (Pop w) \<longleftrightarrow> True"
| "in_front Unlock_front \<longleftrightarrow> True"
| "in_front _ \<longleftrightarrow> False"

fun in_back :: "'a dpc \<Rightarrow> bool" where
  "in_back (Test_back v) \<longleftrightarrow> True"
| "in_back (Push v d) \<longleftrightarrow> True"
| "in_back Lock_signal \<longleftrightarrow> True"
| "in_back Signal \<longleftrightarrow> True"
| "in_back Unlock_signal \<longleftrightarrow> True"
| "in_back Unlock_back \<longleftrightarrow> True"
| "in_back _ \<longleftrightarrow> False"

definition thread_ok :: "'a dlq \<Rightarrow> nat \<Rightarrow> 'a dpc \<Rightarrow> bool" where
  "thread_ok q i p \<longleftrightarrow> (in_front p \<longleftrightarrow> front_lock q = Some i) \<and> (in_back p \<longleftrightarrow> back_lock q = Some i) \<and>
     ((\<exists>w. p = Pop w) \<longrightarrow> ditems q \<noteq> [])"

definition dl_inv :: "'a dconf \<Rightarrow> bool" where
  "dl_inv c \<longleftrightarrow> (\<forall>i < length (dpcs c). thread_ok (dqueue c) i (dpcs c ! i))"

lemmas dlq_prims = lock_front_def lock_back_def unlock_front_def unlock_back_def cond_sleep_def
  cond_wake_def cond_signal_def

lemma dstep_self:
  "dstep a p q = Some (p', q') \<Longrightarrow> thread_ok q (thread_of a) p \<Longrightarrow> thread_ok q' (thread_of a) p'"
  by (cases a; cases p) (auto simp: thread_ok_def dlq_prims split: if_splits list.splits)

lemma dstep_other:
  "dstep a p q = Some (p', q') \<Longrightarrow> thread_ok q (thread_of a) p \<Longrightarrow> thread_ok q j r \<Longrightarrow> j \<noteq> thread_of a \<Longrightarrow>
     thread_ok q' j r"
  by (cases a; cases p) (auto simp: thread_ok_def dlq_prims split: if_splits list.splits)

lemma dlstep_Some:
  assumes "dlstep a c = Some (e, c')"
  obtains p q where "thread_of a < length (dpcs c)" "dstep a (dpcs c ! thread_of a) (dqueue c) = Some (p, q)"
    "c' = \<lparr>dqueue = q, dpcs = (dpcs c)[thread_of a := p]\<rparr>" "e = dlabel (dpcs c ! thread_of a) (dqueue c)"
  using assms by (auto simp: dlstep_def Let_def split: if_splits)

lemma dl_inv_step:
  assumes inv: "dl_inv c" and st: "dlstep a c = Some (e, c')"
  shows "dl_inv c'"
proof -
  obtain p q where i: "thread_of a < length (dpcs c)" and s: "dstep a (dpcs c ! thread_of a) (dqueue c) = Some (p, q)"
      and c': "c' = \<lparr>dqueue = q, dpcs = (dpcs c)[thread_of a := p]\<rparr>"
    using dlstep_Some [OF st] by blast
  have t: "thread_ok (dqueue c) j (dpcs c ! j)" if "j < length (dpcs c)" for j
    using inv that by (simp add: dl_inv_def)
  show ?thesis
    using dstep_self [OF s t [OF i]] dstep_other [OF s t [OF i] t]
    unfolding dl_inv_def c' by (metis (no_types) dconf.select_convs length_list_update nth_list_update_eq nth_list_update_neq i)
qed

lemma dl_inv_run: "dlrun n tr c \<Longrightarrow> dl_inv c"
proof (induction rule: dlrun.induct)
  case dl_init
  show ?case by (simp add: dl_inv_def thread_ok_def dinit_def dlq_new_def)
next
  case (dl_step tr c a e c')
  show ?case by (rule dl_inv_step [OF dl_step.IH dl_step.hyps(2)])
qed

lemma dstep_fifo: "dstep a p q = Some (p', q') \<Longrightarrow> fifo_step (dlabel p q) (ditems q) (ditems q')"
  by (cases a; cases p) (auto simp: dlabel_def dlq_prims split: if_splits list.splits)

section \<open>Calls that do not overlap\<close>

text \<open>A thread alone, from a point of a call to its return, with the item it took.\<close>

fun dalone :: "nat \<Rightarrow> 'a dpc \<Rightarrow> 'a dlq \<Rightarrow> 'a option \<Rightarrow> ('a option \<times> 'a dlq) option" where
  "dalone 0 p q r = None"
| "dalone (Suc n) p q r =
     (if p = DIdle then Some (r, q)
      else case dqstep 0 0 p q of
          None \<Rightarrow> None
        | Some (p', q') \<Rightarrow> dalone n p' q' (case dlabel p q of Deq v \<Rightarrow> Some v | _ \<Rightarrow> r))"

definition dlq_enq :: "'a \<Rightarrow> 'a dlq \<Rightarrow> 'a dlq" where
  "dlq_enq v q = (case dalone 8 (Lock_back v) q None of None \<Rightarrow> q | Some (r, q') \<Rightarrow> q')"

definition dlq_nowait_deq :: "'a dlq \<Rightarrow> 'a option \<times> 'a dlq" where
  "dlq_nowait_deq q = (case dalone 5 (Lock_front False) q None of None \<Rightarrow> (None, q) | Some r \<Rightarrow> r)"

definition dlq_wait_deq :: "'a dlq \<Rightarrow> ('a \<times> 'a dlq) option" where
  "dlq_wait_deq q = (case dalone 5 (Lock_front True) q None of Some (Some v, q') \<Rightarrow> Some (v, q') | _ \<Rightarrow> None)"

definition dlq_quiet :: "'a dlq \<Rightarrow> bool" where
  "dlq_quiet q \<longleftrightarrow> front_lock q = None \<and> back_lock q = None \<and> sleepers q = []"

lemma dlq_enq_alone:
  "dlq_quiet q \<Longrightarrow> dlq_enq v q = q\<lparr>ditems := ditems q @ [v]\<rparr>"
  by (simp add: dlq_enq_def dlq_quiet_def eval_nat_numeral dlq_prims dlabel_def)

lemma dlq_deq_alone:
  assumes "dlq_quiet q"
  shows "dlq_nowait_deq q = (case ditems q of [] \<Rightarrow> (None, q) | v # vs \<Rightarrow> (Some v, q\<lparr>ditems := vs\<rparr>))"
    "dlq_wait_deq q = (case ditems q of [] \<Rightarrow> None | v # vs \<Rightarrow> Some (v, q\<lparr>ditems := vs\<rparr>))"
  using assms
  by (simp_all add: dlq_nowait_deq_def dlq_wait_deq_def dlq_quiet_def eval_nat_numeral dlq_prims dlabel_def
      split: list.split)

interpretation dlq: conc_queue dlq_quiet ditems dlq_enq dlq_nowait_deq dlq_wait_deq
  by unfold_locales (auto simp: dlq_enq_alone dlq_deq_alone, simp_all add: dlq_quiet_def)

section \<open>Properties\<close>


lemma dlexec_reaches:
  assumes "case dlexec as (dinit n) of None \<Rightarrow> False | Some (tr, c) \<Rightarrow> P tr c"
  shows "\<exists>tr c. dlrun n tr c \<and> P tr c"
  using assms dlexec_run [OF dl_init, where as = as and n = n] by (auto split: option.splits)

definition enq_call :: "nat \<Rightarrow> 'a \<Rightarrow> nat \<Rightarrow> 'a dcall list" where
  "enq_call i v n = Begin_enq i v # replicate n (Go i 0)"

definition deq_call :: "nat \<Rightarrow> nat \<Rightarrow> 'a dcall list" where
  "deq_call i n = Begin_deq i True # replicate n (Go i 0)"


text \<open>The calls of producers: all but the start of a dequeue and a spurious wake-up.\<close>

fun producing :: "'a dcall \<Rightarrow> bool" where
  "producing (Begin_enq i v) \<longleftrightarrow> True"
| "producing (Begin_deq i w) \<longleftrightarrow> False"
| "producing (Go i k) \<longleftrightarrow> True"
| "producing (Spurious i) \<longleftrightarrow> False"

text \<open>The points of an \<open>enq\<close> that will not signal.\<close>

fun quiet_enq :: "'a dpc \<Rightarrow> bool" where
  "quiet_enq DIdle \<longleftrightarrow> True"
| "quiet_enq (Lock_back v) \<longleftrightarrow> True"
| "quiet_enq (Test_back v) \<longleftrightarrow> True"
| "quiet_enq (Push v d) \<longleftrightarrow> \<not> d"
| "quiet_enq Unlock_back \<longleftrightarrow> True"
| "quiet_enq _ \<longleftrightarrow> False"

definition stuck :: "nat \<Rightarrow> 'a dconf \<Rightarrow> bool" where
  "stuck j c \<longleftrightarrow> j < length (dpcs c) \<and> ditems (dqueue c) \<noteq> [] \<and> dpcs c ! j = Asleep \<and>
     j \<in> set (sleepers (dqueue c)) \<and> (\<forall>i < length (dpcs c). i \<noteq> j \<longrightarrow> quiet_enq (dpcs c ! i))"

lemma stuck_step:
  assumes s: "stuck j c" and a: "producing a" and st: "dlstep a c = Some (e, c')"
  shows "stuck j c'"
proof -
  obtain p q where i: "thread_of a < length (dpcs c)" and d: "dstep a (dpcs c ! thread_of a) (dqueue c) = Some (p, q)"
      and c': "c' = \<lparr>dqueue = q, dpcs = (dpcs c)[thread_of a := p]\<rparr>"
    using dlstep_Some [OF st] by blast
  have ne: "thread_of a \<noteq> j" using s a d by (cases a) (auto simp: stuck_def)
  then have r: "quiet_enq (dpcs c ! thread_of a)" using s i by (auto simp: stuck_def)
  have "quiet_enq p \<and> sleepers q = sleepers (dqueue c) \<and> ditems q \<noteq> []"
    using r a d s by (cases a; cases "dpcs c ! thread_of a") (auto simp: stuck_def dlq_prims split: if_splits)
  then show ?thesis using s ne i by (auto simp: stuck_def c' nth_list_update)
qed

lemma stuck_exec: "stuck j c \<Longrightarrow> \<forall>a \<in> set as. producing a \<Longrightarrow> dlexec as c = Some (tr, c') \<Longrightarrow> stuck j c'"
proof (induction as arbitrary: c tr)
  case (Cons a as)
  then obtain e c1 tr1 where st: "dlstep a c = Some (e, c1)" "dlexec as c1 = Some (tr1, c')"
    by (auto split: option.splits)
  have "stuck j c1" using stuck_step [OF Cons.prems(1) _ st(1)] Cons.prems(2) by simp
  then show ?case using Cons.IH [OF _ _ st(2)] Cons.prems(2) by simp
qed simp

text \<open>C38. A wake-up is lost even with one consumer: a producer reads that the queue is not empty and
  is going to push without a signal, the consumer empties the queue and goes to sleep, the push
  comes. From there on, whatever producers do, the consumer sleeps although there are items.\<close>

theorem dlq_lost_wakeup:
  "\<exists>tr c. dlrun 2 tr (c :: nat dconf) \<and> dpcs c = [DIdle, Asleep] \<and> ditems (dqueue c) = [8] \<and>
     {c'. \<exists>as tr'. list_all producing as \<and> dlexec as c = Some (tr', c')} \<subseteq>
     {c'. dpcs c' ! 1 = Asleep \<and> ditems (dqueue c') \<noteq> [] \<and> (\<forall>k. dlstep (Go 1 k) c' = None)}"
proof -
  have "\<exists>tr c. dlrun 2 tr (c :: nat dconf) \<and> dpcs c = [DIdle, Asleep] \<and> ditems (dqueue c) = [8] \<and>
      sleepers (dqueue c) = [1]"
    by (rule dlexec_reaches [where as = "enq_call 0 7 7 @ enq_call 0 8 2 @ deq_call 1 4 @ deq_call 1 3 @ [Go 0 0, Go 0 0]"])
      code_simp
  then obtain tr c where c: "dlrun 2 tr (c :: nat dconf)" "dpcs c = [DIdle, Asleep]" "ditems (dqueue c) = [8]"
      "sleepers (dqueue c) = [1]" by blast
  then have "stuck 1 c" by (auto simp: stuck_def less_2_cases_iff less_Suc_eq)
  then have "stuck 1 c'" if "list_all producing as" "dlexec as c = Some (tr', c')" for as tr' c'
    using stuck_exec that by (auto simp: list_all_iff)
  moreover have "dpcs c' ! 1 = Asleep \<and> ditems (dqueue c') \<noteq> [] \<and> (\<forall>k. dlstep (Go 1 k) c' = None)" if "stuck 1 c'" for c'
    using that by (auto simp: stuck_def dlstep_def)
  ultimately show ?thesis using c by blast
qed

text \<open>The two ends are not independent: one thread can be at its \<open>push\<close> while another is at its
  \<open>pop\<close>, under two different locks, on one \<open>std::queue\<close>.\<close>

theorem dlq_unsynchronised:
  "\<exists>tr c. dlrun 2 tr (c :: nat dconf) \<and> dpcs c = [Push 8 False, Pop True] \<and>
     front_lock (dqueue c) = Some 1 \<and> back_lock (dqueue c) = Some 0"
  by (rule dlexec_reaches [where as = "enq_call 0 7 7 @ enq_call 0 8 2 @ deq_call 1 2"]) code_simp

end
