(* ===== verification/Gzip.thy ===== *)
theory Gzip
  imports Streams
begin

text \<open>
  \<open>gzip.hpp\<close>, \<open>gzip.cpp\<close>: compression and decompression between buffers. zlib is a parameter; what
  its documentation promises is the predicate \<open>zlib_ok\<close>. A buffer is its capacity on the way in
  and the bytes written on the way out.
\<close>

section \<open>zlib\<close>

datatype zcode = Z_OK | Z_STREAM_END | Z_NEED_DICT | Z_BUF_ERROR | Z_DATA_ERROR | Z_MEM_ERROR
  | Z_STREAM_ERROR | Z_VERSION_ERROR

datatype zformat = GZIP | ZLIB

text \<open>
  \<open>deflateInit2\<close> and \<open>inflateInit2\<close> get the window bits; \<open>deflate\<close> and \<open>inflate\<close> get the input and
  the room, and give the output and, for \<open>inflate\<close>, how much of the input is left.
\<close>

record zlib =
  z_bound :: "size_t \<Rightarrow> size_t"
  z_compress2 :: "size_t \<Rightarrow> string \<Rightarrow> int \<Rightarrow> zcode \<times> string"
  z_uncompress :: "size_t \<Rightarrow> string \<Rightarrow> zcode \<times> string"
  z_deflate_init :: "int \<Rightarrow> int \<Rightarrow> zcode"
  z_deflate :: "int \<Rightarrow> int \<Rightarrow> string \<Rightarrow> nat \<Rightarrow> zcode \<times> string"
  z_deflate_end :: zcode
  z_inflate_init :: "int \<Rightarrow> zcode"
  z_inflate :: "int \<Rightarrow> string \<Rightarrow> nat \<Rightarrow> zcode \<times> string \<times> nat"
  z_inflate_end :: zcode

definition deflate_bits :: int where
  "deflate_bits = 24"

definition inflate_bits :: int where
  "inflate_bits = 40"

text \<open>A conversion to \<open>uInt\<close>, which has 32 bits.\<close>

definition uInt :: "size_t \<Rightarrow> size_t" where
  "uInt n = take_bit 32 n"

section \<open>The functions\<close>

definition gzip_hdr_extra :: size_t where
  "gzip_hdr_extra = 256"

definition gzip_bound :: "zlib \<Rightarrow> size_t \<Rightarrow> zformat \<Rightarrow> size_t" where
  "gzip_bound Z n f = (if f = GZIP then z_bound Z n + gzip_hdr_extra else z_bound Z n)"

text \<open>\<open>README_compress2\<close>: only as much of the source is passed on as \<open>avail_in\<close> can say.\<close>

definition readme_compress2 :: "zlib \<Rightarrow> size_t \<Rightarrow> string \<Rightarrow> int \<Rightarrow> zcode \<times> string" where
  "readme_compress2 Z dstsz src level =
     (let n = of_nat (length src) in
      if uInt dstsz \<noteq> dstsz then (Z_BUF_ERROR, [])
      else if z_deflate_init Z level deflate_bits \<noteq> Z_OK then (z_deflate_init Z level deflate_bits, [])
      else
        let (err, dst) = z_deflate Z level deflate_bits (take (unat (uInt n)) src) (unat (uInt dstsz)) in
        if err \<noteq> Z_STREAM_END then (if err = Z_OK then Z_BUF_ERROR else err, dst)
        else (z_deflate_end Z, dst))"

definition readme_uncompress :: "zlib \<Rightarrow> size_t \<Rightarrow> string \<Rightarrow> zcode \<times> string" where
  "readme_uncompress Z dstsz src =
     (let n = of_nat (length src) in
      if uInt n \<noteq> n then (Z_BUF_ERROR, [])
      else if uInt dstsz \<noteq> dstsz then (Z_BUF_ERROR, [])
      else if z_inflate_init Z inflate_bits \<noteq> Z_OK then (z_inflate_init Z inflate_bits, [])
      else
        let (err, dst, avail_in) = z_inflate Z inflate_bits src (unat (uInt dstsz)) in
        if err \<noteq> Z_STREAM_END then
          (if err = Z_NEED_DICT \<or> err = Z_BUF_ERROR \<and> avail_in = 0 then Z_DATA_ERROR else err, dst)
        else (z_inflate_end Z, dst))"

text \<open>The two calls on a buffer of the caller; \<open>None\<close> where they return false.\<close>

definition gzip_compress :: "zlib \<Rightarrow> size_t \<Rightarrow> string \<Rightarrow> zformat \<Rightarrow> int \<Rightarrow> string option" where
  "gzip_compress Z dstsz src f level =
     (let (err, dst) = (if f = GZIP then readme_compress2 Z dstsz src level else z_compress2 Z dstsz src level)
      in if err = Z_OK then Some dst else None)"

definition gzip_uncompress :: "zlib \<Rightarrow> size_t \<Rightarrow> string \<Rightarrow> zformat \<Rightarrow> string option" where
  "gzip_uncompress Z dstsz src f =
     (let (err, dst) = (if f = GZIP then readme_uncompress Z dstsz src else z_uncompress Z dstsz src)
      in if err = Z_OK then Some dst else None)"

definition default_level :: int where
  "default_level = -1"

text \<open>The calls that allocate. The first uses zlib's own bound for either format.\<close>

definition gzip_compress_new :: "zlib \<Rightarrow> string \<Rightarrow> zformat \<Rightarrow> int \<Rightarrow> string option \<times> size_t" where
  "gzip_compress_new Z src f level =
     (case gzip_compress Z (z_bound Z (of_nat (length src))) src f level of
        Some dst \<Rightarrow> (Some dst, of_nat (length dst))
      | None \<Rightarrow> (None, 0))"

text \<open>
  The decompression tries one multiple of the source's size after the other, \<open>mem\<close> telling which
  sizes can be allocated. Returned is the result of the last try: the outer \<open>None\<close> is an
  uninitialised pointer, when there was no try.
\<close>

fun uncompress_tries :: "zlib \<Rightarrow> (size_t \<Rightarrow> bool) \<Rightarrow> string \<Rightarrow> zformat \<Rightarrow> nat list \<Rightarrow>
    string option option \<Rightarrow> string option option" where
  "uncompress_tries Z mem src f [] r = r"
| "uncompress_tries Z mem src f (k # ks) r =
     (let n = of_nat k * of_nat (length src) in
      if \<not> mem n then Some None
      else case gzip_uncompress Z n src f of
          Some dst \<Rightarrow> Some (Some dst)
        | None \<Rightarrow> uncompress_tries Z mem src f ks (Some None))"

definition gzip_uncompress_new :: "zlib \<Rightarrow> (size_t \<Rightarrow> bool) \<Rightarrow> string \<Rightarrow> zformat \<Rightarrow> nat \<Rightarrow> nat \<Rightarrow> string option option" where
  "gzip_uncompress_new Z mem src f start stop = uncompress_tries Z mem src f [start..<stop] None"

section \<open>What zlib promises\<close>

text \<open>
  Output fits the room; a finished stream decompresses to its source when the room is enough and
  fails for want of room otherwise; the other calls succeed on a good stream; no stream is
  longer than the bound, and the bound is not below the source's length.
\<close>

definition zlib_ok :: "zlib \<Rightarrow> bool" where
  "zlib_ok Z \<longleftrightarrow>
     (\<forall>l b src room dst. z_deflate Z l b src room = (Z_STREAM_END, dst) \<longrightarrow> length dst \<le> room \<and>
        (\<forall>room'. if length src \<le> room' then z_inflate Z inflate_bits dst room' = (Z_STREAM_END, src, 0)
           else fst (z_inflate Z inflate_bits dst room') = Z_BUF_ERROR)) \<and>
     z_inflate_init Z inflate_bits = Z_OK \<and> z_inflate_end Z = Z_OK \<and>
     (\<forall>n. n < 2 ^ 62 \<longrightarrow> n \<le> z_bound Z n \<and> z_bound Z n < 2 ^ 63)"

lemma zlib_ok_inflate:
  "zlib_ok Z \<Longrightarrow> z_deflate Z l b src room = (Z_STREAM_END, dst) \<Longrightarrow>
     if length src \<le> room' then z_inflate Z inflate_bits dst room' = (Z_STREAM_END, src, 0)
     else fst (z_inflate Z inflate_bits dst room') = Z_BUF_ERROR"
  unfolding zlib_ok_def by blast

lemma zlib_ok_room: "zlib_ok Z \<Longrightarrow> z_deflate Z l b src room = (Z_STREAM_END, dst) \<Longrightarrow> length dst \<le> room"
  unfolding zlib_ok_def by blast

lemma uInt_id: "unat n < 2 ^ 32 \<Longrightarrow> uInt n = n"
  by (simp add: uInt_def word_unat_eq_iff unsigned_take_bit_eq take_bit_nat_eq_self)

lemma uInt_fix: "uInt n = n \<longleftrightarrow> unat n < 2 ^ 32"
proof
  assume e: "uInt n = n"
  have "unat (take_bit 32 n) < 2 ^ 32" unfolding unsigned_take_bit_eq by (rule take_bit_nat_less_exp)
  then show "unat n < 2 ^ 32" using e by (simp add: uInt_def)
qed (rule uInt_id)

text \<open>What a successful compression is.\<close>

lemma compress_GZIP:
  assumes "zlib_ok Z" and "gzip_compress Z dstsz src GZIP l = Some dst"
  shows "z_deflate Z l deflate_bits (take (unat (uInt (of_nat (length src)))) src) (unat dstsz) = (Z_STREAM_END, dst)"
    "unat dstsz < 2 ^ 32" "length dst \<le> unat dstsz"
proof -
  show d: "z_deflate Z l deflate_bits (take (unat (uInt (of_nat (length src)))) src) (unat dstsz) = (Z_STREAM_END, dst)"
    and u: "unat dstsz < 2 ^ 32"
    using assms(2) uInt_fix [of dstsz]
    by (auto simp: gzip_compress_def readme_compress2_def Let_def split: if_splits prod.splits)
  show "length dst \<le> unat dstsz" by (rule zlib_ok_room [OF assms(1) d])
qed

lemma uncompress_GZIP:
  assumes z: "zlib_ok Z" and d: "z_deflate Z l b src room = (Z_STREAM_END, dst)"
    and n: "length dst < 2 ^ 32" and m: "unat m < 2 ^ 32"
  shows "gzip_uncompress Z m dst GZIP = (if length src \<le> unat m then Some src else None)"
proof -
  have "unat (of_nat (length dst) :: size_t) = length dst"
    using n by (simp add: unsigned_of_nat take_bit_nat_eq_self)
  then have "uInt (of_nat (length dst)) = of_nat (length dst)" using n by (intro uInt_id) simp
  then show ?thesis using z m zlib_ok_inflate [OF z d, of "unat m"] uInt_id [OF m]
    by (cases "z_inflate Z inflate_bits dst (unat m)")
      (auto simp: gzip_uncompress_def readme_uncompress_def zlib_ok_def split: if_splits)
qed

text \<open>A round trip through a buffer of the size that \<open>compressBound\<close> gives.\<close>

lemma gzip_roundtrip_bound:
  assumes "zlib_ok Z" and "length src < 2 ^ 62"
    and "gzip_compress Z (gzip_bound Z (of_nat (length src)) GZIP) src GZIP l = Some dst"
  shows "gzip_uncompress Z (of_nat (length src)) dst GZIP = Some src"
proof -
  let ?n = "of_nat (length src) :: size_t" and ?d = "gzip_bound Z (of_nat (length src)) GZIP"
  note c = compress_GZIP [OF assms(1,3)]
  have un: "unat ?n = length src" using assms(2) by (simp add: unsigned_of_nat take_bit_nat_eq_self)
  have "?n < 2 ^ 62" using assms(2) un by (simp add: word_less_nat_alt)
  then have b: "unat ?n \<le> unat (z_bound Z ?n)" "unat (z_bound Z ?n) < 2 ^ 63"
    using assms(1) by (auto simp: zlib_ok_def word_le_nat_alt word_less_nat_alt)
  have "unat ?d = unat (z_bound Z ?n) + 256"
    using b(2) by (simp add: gzip_bound_def gzip_hdr_extra_def unat_word_ariths)
  then have small: "length src < 2 ^ 32" using b(1) un c(2) by linarith
  then have "uInt ?n = ?n" using un by (intro uInt_id) simp
  then have "z_deflate Z l deflate_bits src (unat ?d) = (Z_STREAM_END, dst)" using c(1) un by simp
  from uncompress_GZIP [OF assms(1) this, of ?n] show ?thesis using c(2,3) un small by simp
qed

section \<open>Properties\<close>


text \<open>A codec that stores: what is stored is its own compressed form.\<close>

definition stored :: zlib where
  "stored = \<lparr>z_bound = (\<lambda>n. n), z_compress2 = (\<lambda>n s l. (Z_OK, s)), z_uncompress = (\<lambda>n s. (Z_OK, s)),
     z_deflate_init = (\<lambda>l b. Z_OK),
     z_deflate = (\<lambda>l b s room. if length s \<le> room then (Z_STREAM_END, s) else (Z_OK, take room s)),
     z_deflate_end = Z_OK, z_inflate_init = (\<lambda>b. Z_OK),
     z_inflate = (\<lambda>b s room. if length s \<le> room then (Z_STREAM_END, s, 0) else (Z_BUF_ERROR, take room s, 1)),
     z_inflate_end = Z_OK\<rparr>"

lemma stored_ok: "zlib_ok stored"
  unfolding zlib_ok_def stored_def
  by (auto simp: word_less_nat_alt split: if_splits)


text \<open>The decompression that allocates finds the data if and only if they fit the largest multiple
  tried, which is \<open>stop - 1\<close> and not \<open>stop\<close> times the source's size: longer data are refused however
  well compressed they are.\<close>

theorem gzip_uncompress_new_limit:
  assumes z: "zlib_ok Z" and d: "z_deflate Z l b src room = (Z_STREAM_END, dst)"
    and n: "stop * length dst < 2 ^ 32" and lt: "start < stop" and mem: "\<forall>m. mem m"
  shows "gzip_uncompress_new Z mem dst GZIP start stop =
    Some (if length src \<le> (stop - 1) * length dst then Some src else None)"
proof -
  have tries: "uncompress_tries Z mem dst GZIP ks r =
      (if \<exists>k \<in> set ks. length src \<le> k * length dst then Some (Some src) else if ks = [] then r else Some None)"
    if "\<forall>k \<in> set ks. k < stop" for ks r
    using that
  proof (induction ks arbitrary: r)
    case (Cons k ks)
    have "k * length dst \<le> stop * length dst" "1 * length dst \<le> stop * length dst"
      using Cons.prems lt by (intro mult_right_mono; simp)+
    then have lt32: "k * length dst < 2 ^ 32" "length dst < 2 ^ 32" using n by linarith+
    have u: "unat (of_nat k * of_nat (length dst) :: size_t) = k * length dst"
      using lt32(1) unfolding of_nat_mult [symmetric] by (simp add: unsigned_of_nat take_bit_nat_eq_self del: of_nat_mult)
    show ?case
      using Cons uncompress_GZIP [OF z d lt32(2), of "of_nat k * of_nat (length dst)"] mem u lt32(1)
      by auto
  qed simp
  have "(\<exists>k \<in> set [start..<stop]. length src \<le> k * length dst) \<longleftrightarrow> length src \<le> (stop - 1) * length dst"
  proof
    assume "\<exists>k \<in> set [start..<stop]. length src \<le> k * length dst"
    then obtain k where "k < stop" "length src \<le> k * length dst" by auto
    then show "length src \<le> (stop - 1) * length dst"
      using mult_le_mono1 [of k "stop - 1" "length dst"] by linarith
  qed (use lt in \<open>auto intro!: bexI [of _ "stop - 1"]\<close>)
  then show ?thesis using tries [of "[start..<stop]" None] lt by (simp add: gzip_uncompress_new_def)
qed

theorem gzip_uncompress_new_limit_witness:
  "gzip_uncompress_new stored (\<lambda>_. True) ''abc'' GZIP 2 5 = Some (Some ''abc'')"
  using gzip_uncompress_new_limit [OF stored_ok, of 1 24 "''abc''" 10 "''abc''" 5 2 "\<lambda>_. True"]
  by (simp add: stored_def)

end
