(* ===== verification/HTTP_Origin_Server.thy ===== *)
theory HTTP_Origin_Server
  imports Gzip HTTP_CacheEntry
begin

text \<open>
  \<open>HTTP_Origin_Server.hpp\<close>, \<open>HTTP_Origin_Server.cpp\<close>: the server's dealings with the file system.
  What the system calls answer is a parameter; a result of \<open>None\<close> is a call that does not return.
\<close>

section \<open>The file system\<close>

datatype fkind = Regular | Directory | Socket | Special

record fstat =
  st_kind :: fkind
  st_size :: nat
  st_mtime :: time_t

text \<open>
  The answers, for the attempt \<open>a\<close> of a call that starts over (first argument) and, where there
  are several, the number of the system call in it: \<open>stat\<close>, \<open>fopen\<close> with its mode (\<open>None\<close> is
  success), \<open>ftrylockfile\<close>, the bytes a \<open>fread\<close> delivers, the number of bytes a \<open>fwrite\<close>
  accepts, \<open>ferror\<close>; which sizes can be allocated with \<open>malloc\<close> and \<open>new\<close>; \<open>opendir\<close>, the names
  \<open>readdir_r\<close> gives and its last return value; and the clock.
\<close>

record fsys =
  sys_stat :: "nat \<Rightarrow> string \<Rightarrow> errno + fstat"
  sys_fopen :: "nat \<Rightarrow> string \<Rightarrow> string \<Rightarrow> errno option"
  sys_trylock :: "nat \<Rightarrow> bool"
  sys_fread :: "nat \<Rightarrow> nat \<Rightarrow> string"
  sys_fwrite :: "nat \<Rightarrow> nat \<Rightarrow> nat"
  sys_ferror :: "nat \<Rightarrow> bool"
  sys_malloc :: "nat \<Rightarrow> bool"
  sys_new :: "size_t \<Rightarrow> bool"
  sys_opendir :: "string \<Rightarrow> errno option"
  sys_readdir :: "string \<Rightarrow> string list \<times> errno"
  sys_time :: "nat \<Rightarrow> time_t"

section \<open>Validation and removal\<close>

definition origin_validate :: "fsys \<Rightarrow> string \<Rightarrow> centry option \<Rightarrow> bool" where
  "origin_validate F path tocheck \<longleftrightarrow>
     (case tocheck of
        None \<Rightarrow> False
      | Some c \<Rightarrow>
          (case sys_stat F 0 (c_string path) of
             Inl e \<Rightarrow> False
           | Inr st \<Rightarrow> st_mtime st \<le> last_modified c))"

text \<open>\<open>unlink\<close>: inside the namespace the name means this very function, whose parameter a C string
  converts to; \<open>err\<close> is \<open>errno\<close>.\<close>

partial_function (option) origin_unlink :: "int \<Rightarrow> string \<Rightarrow> int option" where
  "origin_unlink err path =
     Option.bind (origin_unlink err (c_string path)) (\<lambda>r. Some (if r = -1 then err else 0))"

section \<open>PUT and POST\<close>

text \<open>The loop that writes, for the attempt \<open>a\<close>: \<open>f\<close> is the file so far.\<close>

partial_function (option) write_loop :: "fsys \<Rightarrow> nat \<Rightarrow> nat \<Rightarrow> string \<Rightarrow> string \<Rightarrow> string option" where
  "write_loop F a k tmp f =
     (if tmp = [] then Some f
      else let n = min (length tmp) (sys_fwrite F a k) in
        if n > 0 then write_loop F a (k + 1) (drop n tmp) (f @ take n tmp)
        else write_loop F a (k + 1) tmp f)"

text \<open>
  From the label \<open>put_tryagain\<close> on. \<open>moved\<close> says that \<open>tmp\<close> has been advanced past its
  allocation, so that \<open>delete[] tmp\<close> is undefined; it only happens to decoded contents.
\<close>

definition release_tmp :: "content_coding \<Rightarrow> bool \<Rightarrow> errno \<Rightarrow> exc + errno" where
  "release_tmp e moved r = (if e \<noteq> identity \<and> moved then Inl UB else Inr r)"

partial_function (option) put_attempt :: "fsys \<Rightarrow> content_coding \<Rightarrow> string \<Rightarrow> string \<Rightarrow> nat \<Rightarrow> bool \<Rightarrow> string \<Rightarrow>
    string \<Rightarrow> ((exc + errno) \<times> string) option" where
  "put_attempt F e path mode a moved tmp f =
     (case sys_fopen F a (c_string path) mode of
        Some err \<Rightarrow> Some (release_tmp e moved err, f)
      | None \<Rightarrow>
          let f1 = (if mode = ''w'' then [] else f) in
          if \<not> sys_trylock F a then Some (release_tmp e moved EACCES, f1)
          else Option.bind (write_loop F a 0 tmp f1) (\<lambda>f2.
            if sys_ferror F a then put_attempt F e path mode (a + 1) (moved \<or> tmp \<noteq> []) [] f2
            else Some (release_tmp e (moved \<or> tmp \<noteq> []) E0, f2)))"

definition put_start :: nat where
  "put_start = 2"

definition put_stop :: nat where
  "put_stop = 5"

definition origin_putorpost :: "zlib \<Rightarrow> fsys \<Rightarrow> string \<Rightarrow> string \<Rightarrow> content_coding \<Rightarrow> string \<Rightarrow> string \<Rightarrow>
    ((exc + errno) \<times> string) option" where
  "origin_putorpost Z F path contents e mode f =
     (case sys_stat F 0 (c_string path) of
        Inl err \<Rightarrow> Some (Inr err, f)
      | Inr st \<Rightarrow>
          if st_kind st = Socket then Some (Inr ESPIPE, f)
          else if st_kind st \<noteq> Regular then Some (Inr EACCES, f)
          else case e of
            identity \<Rightarrow> put_attempt F e path mode 0 False contents f
          | gzip \<Rightarrow>
              (case gzip_uncompress_new Z (sys_new F) contents GZIP put_start put_stop of
                 Some (Some tmp) \<Rightarrow> put_attempt F e path mode 0 False tmp f
               | Some None \<Rightarrow> Some (Inr ENOMEM, f)
               | None \<Rightarrow> Some (Inl UB, f))
          | _ \<Rightarrow> Some (Inr ENOTSUP, f))"

section \<open>Requesting a file\<close>

partial_function (option) read_loop :: "fsys \<Rightarrow> nat \<Rightarrow> nat \<Rightarrow> nat \<Rightarrow> string \<Rightarrow> string option" where
  "read_loop F a k toread buf =
     (if toread = 0 then Some buf
      else let got = take toread (sys_fread F a k) in
        if length got > 0 then read_loop F a (k + 1) (toread - length got) (buf @ got)
        else read_loop F a (k + 1) toread buf)"

text \<open>The compression of what was read into a new entry.\<close>

definition compress_entry :: "zlib \<Rightarrow> fsys \<Rightarrow> string \<Rightarrow> time_t \<Rightarrow> time_t \<Rightarrow> time_t \<Rightarrow> errno \<times> centry option" where
  "compress_entry Z F data reqt respt mtime =
     (let n = of_nat (length data) :: size_t in
      case gzip_compress Z (gzip_bound Z n GZIP) data GZIP default_level of
        Some dst \<Rightarrow> (E0, Some (centry_new n (of_nat (length dst)) reqt respt mtime dst gzip))
      | None \<Rightarrow> (ENOMEM, None))"

text \<open>
  From the label \<open>request_tryagain\<close> on. After a read error the buffer is freed through the
  pointer the loop has advanced, which is undefined unless the file is empty.
\<close>

partial_function (option) request_attempt :: "zlib \<Rightarrow> fsys \<Rightarrow> string \<Rightarrow> time_t \<Rightarrow> nat \<Rightarrow>
    (exc + errno \<times> centry option) option" where
  "request_attempt Z F path reqt a =
     (case sys_stat F a (c_string path) of
        Inl err \<Rightarrow> Some (Inr (err, None))
      | Inr st \<Rightarrow>
          if st_kind st = Directory then Some (Inr (EISDIR, None))
          else if st_kind st = Socket then Some (Inr (ESPIPE, None))
          else if st_kind st \<noteq> Regular then Some (Inr (EACCES, None))
          else case sys_fopen F a (c_string path) ''r'' of
            Some err \<Rightarrow> Some (Inr (err, None))
          | None \<Rightarrow>
              if \<not> sys_trylock F a then Some (Inr (EACCES, None))
              else if \<not> sys_malloc F (st_size st) then Some (Inr (ENOMEM, None))
              else Option.bind (read_loop F a 0 (st_size st) []) (\<lambda>data.
                if sys_ferror F a then
                  if st_size st = 0 then request_attempt Z F path reqt (a + 1) else Some (Inl UB)
                else if \<not> sys_new F (gzip_bound Z (of_nat (st_size st)) GZIP) then Some (Inr (ENOMEM, None))
                else Some (Inr (compress_entry Z F data reqt (sys_time F 1) (st_mtime st)))))"

definition origin_request :: "zlib \<Rightarrow> fsys \<Rightarrow> string \<Rightarrow> (exc + errno \<times> centry option) option" where
  "origin_request Z F path = request_attempt Z F path (sys_time F 0) 0"

section \<open>Directories\<close>

definition dir_link :: "string \<Rightarrow> string \<Rightarrow> string" where
  "dir_link path name = ''<p><a href=\"/'' @ path @ ''/'' @ name @ ''\">'' @ name @ ''</a></p>''"

definition dir_page :: "string \<Rightarrow> string list \<Rightarrow> string" where
  "dir_page path names = ''<html><head></head><body>'' @ concat (map (dir_link path) names) @ ''</body></html>''"

text \<open>\<open>res\<close> is the caller's pointer, which a failing \<open>new\<close> leaves alone.\<close>

definition origin_dirtoHTML :: "zlib \<Rightarrow> fsys \<Rightarrow> string \<Rightarrow> centry option \<Rightarrow> errno \<times> centry option" where
  "origin_dirtoHTML Z F path res =
     (case sys_opendir F (c_string path) of
        Some err \<Rightarrow> (err, None)
      | None \<Rightarrow>
          if \<not> sys_malloc F 0 then (ENOMEM, None)
          else
            let (names, ans) = sys_readdir F (c_string path) in
            if ans \<noteq> E0 then (ans, None)
            else
              let data = c_string (dir_page path names) in
              if \<not> sys_new F (gzip_bound Z (of_nat (length data)) GZIP) then (ENOMEM, res)
              else compress_entry Z F data (sys_time F 0) (sys_time F 0) (sys_time F 0))"

section \<open>The loops\<close>

text \<open>A file, as the pieces its successive reads deliver, the end of file after them.\<close>

definition delivers :: "fsys \<Rightarrow> nat \<Rightarrow> string list \<Rightarrow> bool" where
  "delivers F a ps \<longleftrightarrow> (\<forall>k. sys_fread F a k = (if k < length ps then ps ! k else []))"

text \<open>What the successive writes accept, nothing after them.\<close>

definition accepts :: "fsys \<Rightarrow> nat \<Rightarrow> nat list \<Rightarrow> bool" where
  "accepts F a ns \<longleftrightarrow> (\<forall>k. sys_fwrite F a k = (if k < length ns then ns ! k else 0))"

text \<open>A loop that makes no progress never ends.\<close>

lemma read_loop_stuck:
  assumes "read_loop F a k n buf = Some r"
  shows "n = 0 \<or> (\<exists>j \<ge> k. sys_fread F a j \<noteq> [])"
proof (rule read_loop.raw_induct [where P = "\<lambda>F a k n buf r. n = 0 \<or> (\<exists>j \<ge> k. sys_fread F a j \<noteq> [])", OF _ assms])
  fix rl F a k n buf r
  assume ih: "\<And>F a k n buf r. rl F a k n buf = Some r \<Longrightarrow> n = 0 \<or> (\<exists>j \<ge> k. sys_fread F a j \<noteq> [])"
    and e: "(if n = 0 then Some buf
      else let got = take n (sys_fread F a k) in
        if length got > 0 then rl F a (k + 1) (n - length got) (buf @ got)
        else rl F a (k + 1) n buf) = Some r"
  show "n = 0 \<or> (\<exists>j \<ge> k. sys_fread F a j \<noteq> [])"
  proof (cases "n = 0 \<or> sys_fread F a k \<noteq> []")
    case False
    then have "rl F a (k + 1) n buf = Some r" using e by simp
    then show ?thesis using ih False by (meson add_leD1)
  qed auto
qed

lemma write_loop_stuck:
  assumes "write_loop F a k tmp f = Some r"
  shows "tmp = [] \<or> (\<exists>j \<ge> k. sys_fwrite F a j \<noteq> 0)"
proof (rule write_loop.raw_induct [where P = "\<lambda>F a k tmp f r. tmp = [] \<or> (\<exists>j \<ge> k. sys_fwrite F a j \<noteq> 0)", OF _ assms])
  fix wl F a k tmp f r
  assume ih: "\<And>F a k tmp f r. wl F a k tmp f = Some r \<Longrightarrow> tmp = [] \<or> (\<exists>j \<ge> k. sys_fwrite F a j \<noteq> 0)"
    and e: "(if tmp = [] then Some f
      else let n = min (length tmp) (sys_fwrite F a k) in
        if n > 0 then wl F a (k + 1) (drop n tmp) (f @ take n tmp)
        else wl F a (k + 1) tmp f) = Some r"
  show "tmp = [] \<or> (\<exists>j \<ge> k. sys_fwrite F a j \<noteq> 0)"
  proof (cases "tmp = [] \<or> sys_fwrite F a k \<noteq> 0")
    case False
    then have "wl F a (k + 1) tmp f = Some r" using e by simp
    then show ?thesis using ih False by (meson add_leD1)
  qed auto
qed

lemma read_loop_eval:
  assumes "delivers F a ps"
  shows "read_loop F a k n buf =
    (if n \<le> length (concat (drop k ps)) then Some (buf @ take n (concat (drop k ps))) else None)"
proof (induction "length ps - k" arbitrary: k n buf)
  case 0
  then have "\<forall>j \<ge> k. sys_fread F a j = []" using assms by (simp add: delivers_def)
  then have "read_loop F a k n buf = None" if "n \<noteq> 0"
    using read_loop_stuck that by (meson option.exhaust)
  then show ?case using 0 by (cases "n = 0") (auto simp: read_loop.simps [of F a k 0])
next
  case (Suc m)
  then have k: "k < length ps" by simp
  have d: "drop k ps = ps ! k # drop (Suc k) ps" using k by (simp add: Cons_nth_drop_Suc)
  have f: "sys_fread F a k = ps ! k" using assms k by (simp add: delivers_def)
  show ?case
  proof (cases "n = 0")
    case True
    then show ?thesis by (simp add: read_loop.simps)
  next
    case False
    have "read_loop F a k n buf =
        (if take n (ps ! k) = [] then read_loop F a (Suc k) n buf
         else read_loop F a (Suc k) (n - length (take n (ps ! k))) (buf @ take n (ps ! k)))"
      using False by (subst read_loop.simps) (simp add: f Let_def)
    then show ?thesis using Suc.hyps(1) [of "Suc k"] Suc.hyps(2) d False by (auto simp: min_def)
  qed
qed

lemma write_loop_eval:
  assumes "accepts F a ns"
  shows "write_loop F a k tmp f = (if length tmp \<le> sum_list (drop k ns) then Some (f @ tmp) else None)"
proof (induction "length ns - k" arbitrary: k tmp f)
  case 0
  then have "\<forall>j \<ge> k. sys_fwrite F a j = 0" using assms by (simp add: accepts_def)
  then have "write_loop F a k tmp f = None" if "tmp \<noteq> []"
    using write_loop_stuck that by (meson option.exhaust)
  then show ?case using 0 by (cases "tmp = []") (auto simp: write_loop.simps [of F a k "[]"])
next
  case (Suc m)
  then have k: "k < length ns" by simp
  have d: "drop k ns = ns ! k # drop (Suc k) ns" using k by (simp add: Cons_nth_drop_Suc)
  have w: "sys_fwrite F a k = ns ! k" using assms k by (simp add: accepts_def)
  show ?case
  proof (cases "tmp = []")
    case True
    then show ?thesis by (simp add: write_loop.simps)
  next
    case False
    have "write_loop F a k tmp f =
        (if ns ! k = 0 then write_loop F a (Suc k) tmp f
         else write_loop F a (Suc k) (drop (ns ! k) tmp) (f @ take (ns ! k) tmp))"
      using False by (subst write_loop.simps) (simp add: w Let_def min_def)
    then show ?thesis using Suc.hyps(1) [of "Suc k"] Suc.hyps(2) d False by auto
  qed
qed

section \<open>Properties\<close>

text \<open>A regular file that can be opened and locked, on the attempt \<open>a\<close>.\<close>

definition openable :: "fsys \<Rightarrow> nat \<Rightarrow> string \<Rightarrow> string \<Rightarrow> nat \<Rightarrow> time_t \<Rightarrow> bool" where
  "openable F a path mode n t \<longleftrightarrow>
     sys_stat F a (c_string path) = Inr \<lparr>st_kind = Regular, st_size = n, st_mtime = t\<rparr> \<and>
     sys_fopen F a (c_string path) mode = None \<and> sys_trylock F a"

lemma compress_entry_roundtrip:
  assumes "zlib_ok Z" and "length data < 2 ^ 62"
    and "gzip_compress Z (gzip_bound Z (of_nat (length data)) GZIP) data GZIP default_level = Some dst"
  shows "\<exists>c. compress_entry Z F data t u v = (E0, Some c) \<and> unat (szondisk c) = length data \<and>
    gzip_compress Z (gzip_bound Z (of_nat (length data)) GZIP) data GZIP default_level = Some (ebuf c) \<and>
    request_time c = t \<and> response_time c = u \<and> last_modified c = v \<and> enc c = gzip"
proof -
  have "unat (of_nat (length data) :: size_t) = length data"
    using assms(2) by (simp add: unsigned_of_nat take_bit_nat_eq_self)
  then show ?thesis using assms(3) by (simp add: compress_entry_def centry_new_def Let_def)
qed

lemma request_attempt_file:
  assumes "openable F a path ''r'' n t" and "sys_malloc F n" and "delivers F a ps"
    and "\<not> sys_ferror F a" and "sys_new F (gzip_bound Z (of_nat n) GZIP)"
  shows "request_attempt Z F path reqt a =
    (if n \<le> length (concat ps)
     then Some (Inr (compress_entry Z F (take n (concat ps)) reqt (sys_time F 1) t)) else None)"
  using assms by (subst request_attempt.simps) (simp add: openable_def read_loop_eval)

text \<open>C12. A regular file that delivers its bytes, in whatever pieces, is served: the entry made of it
  decompresses to exactly the bytes of the file as far as \<open>stat\<close> said it goes, and carries their
  number and the file's time. A file that has become shorter since the \<open>stat\<close> is read forever: the
  call does not return.\<close>

theorem origin_request_file:
  assumes z: "zlib_ok Z" and o: "openable F 0 path ''r'' n t" and m: "sys_malloc F n"
    and d: "delivers F 0 ps" and f: "\<not> sys_ferror F 0" and b: "sys_new F (gzip_bound Z (of_nat n) GZIP)"
    and n: "n < 2 ^ 62"
    and c: "gzip_compress Z (gzip_bound Z (of_nat n) GZIP) (take n (concat ps)) GZIP default_level = Some dst"
  shows "if length (concat ps) < n then origin_request Z F path = None
    else \<exists>c. origin_request Z F path = Some (Inr (E0, Some c)) \<and> unat (szondisk c) = n \<and>
      gzip_uncompress Z (szondisk c) (ebuf c) GZIP = Some (take n (concat ps)) \<and>
      last_modified c = t \<and> request_time c = sys_time F 0 \<and> response_time c = sys_time F 1"
proof -
  note r = request_attempt_file [OF o m d f b, of "sys_time F 0"]
  show ?thesis
  proof (cases "length (concat ps) < n")
    case False
    define data where "data = take n (concat ps)"
    have l: "length data = n" using False by (simp add: data_def)
    have small: "length data < 2 ^ 62" using l n by simp
    have cd: "gzip_compress Z (gzip_bound Z (of_nat (length data)) GZIP) data GZIP default_level = Some dst"
      using c l by (simp add: data_def)
    obtain e where e: "compress_entry Z F data (sys_time F 0) (sys_time F 1) t = (E0, Some e)"
        "unat (szondisk e) = length data"
        "gzip_compress Z (gzip_bound Z (of_nat (length data)) GZIP) data GZIP default_level = Some (ebuf e)"
        "request_time e = sys_time F 0" "response_time e = sys_time F 1" "last_modified e = t"
      using compress_entry_roundtrip [OF z small cd] by blast
    have sz: "szondisk e = of_nat (length data)" unfolding e(2) [symmetric] by simp
    have "gzip_uncompress Z (of_nat (length data)) (ebuf e) GZIP = Some data"
      using gzip_roundtrip_bound [OF z small e(3)] .
    then show ?thesis using r False e l sz by (simp add: origin_request_def data_def [symmetric])
  qed (simp add: r origin_request_def)
qed

text \<open>A file system with one regular file.\<close>

definition one_file :: "string list \<Rightarrow> nat \<Rightarrow> fsys" where
  "one_file ps n = \<lparr>sys_stat = (\<lambda>a p. Inr \<lparr>st_kind = Regular, st_size = n, st_mtime = 7\<rparr>),
     sys_fopen = (\<lambda>a p md. None), sys_trylock = (\<lambda>a. True),
     sys_fread = (\<lambda>a k. if k < length ps then ps ! k else []), sys_fwrite = (\<lambda>a k. if k < 1 then 100 else 0),
     sys_ferror = (\<lambda>a. False), sys_malloc = (\<lambda>n. True), sys_new = (\<lambda>n. True), sys_opendir = (\<lambda>p. None),
     sys_readdir = (\<lambda>p. ([], E0)), sys_time = int\<rparr>"

lemma one_file_openable: "openable (one_file ps n) 0 path mode n 7" "delivers (one_file ps n) a ps"
  "accepts (one_file ps n) a [100]"
  by (simp_all add: openable_def delivers_def accepts_def one_file_def)

theorem origin_request_file_witness:
  "origin_request stored (one_file [''he'', ''llo''] 9) ''f'' = None \<and>
   (\<exists>c. origin_request stored (one_file [''he'', ''llo''] 5) ''f'' = Some (Inr (E0, Some c)) \<and>
      gzip_uncompress stored (szondisk c) (ebuf c) GZIP = Some ''hello'')"
proof
  let ?F = "one_file [''he'', ''llo'']"
  have c: "gzip_compress stored (gzip_bound stored (of_nat n) GZIP) (take n (concat [''he'', ''llo''])) GZIP default_level =
      Some (take n ''hello'')" if "n = 5 \<or> n = 9" for n
    using that by (elim disjE; simp only:) code_simp+
  show "origin_request stored (?F 9) ''f'' = None"
    using origin_request_file [OF stored_ok one_file_openable(1) _ one_file_openable(2) _ _ _ c, of 9 "''f''"]
    by (simp add: one_file_def)
  show "\<exists>c. origin_request stored (?F 5) ''f'' = Some (Inr (E0, Some c)) \<and>
      gzip_uncompress stored (szondisk c) (ebuf c) GZIP = Some ''hello''"
    using origin_request_file [OF stored_ok one_file_openable(1) _ one_file_openable(2) _ _ _ c, of 5 "''f''"]
    by (simp add: one_file_def) blast
qed

text \<open>A PUT or POST of plain contents to a regular file puts exactly the contents in place of, or
  after, what the file had, in however many writes; when the disk accepts no more the call never
  returns.\<close>

theorem origin_put_file:
  assumes "openable F 0 path mode n t" and "accepts F 0 ns" and "\<not> sys_ferror F 0"
  shows "origin_putorpost Z F path contents identity mode f =
    (if length contents \<le> sum_list ns
     then Some (Inr E0, (if mode = ''w'' then [] else f) @ contents) else None)"
  using assms write_loop_eval [OF assms(2), of 0]
  by (subst origin_putorpost_def, subst put_attempt.simps)
    (simp add: openable_def Let_def release_tmp_def)

theorem origin_put_file_witness:
  "origin_putorpost stored (one_file [] 3) ''f'' ''new'' identity ''w'' ''old'' = Some (Inr E0, ''new'') \<and>
   origin_putorpost stored (one_file [] 3) ''f'' ''new'' identity ''a'' ''old'' = Some (Inr E0, ''oldnew'')"
  using origin_put_file [OF one_file_openable(1,3), of "[]" 3 stored "''f''" "''new''" "''w''" "''old''"]
    origin_put_file [OF one_file_openable(1,3), of "[]" 3 stored "''f''" "''new''" "''a''" "''old''"]
  by (simp add: one_file_def)

text \<open>What goes wrong in a PUT: after a write error that was overcome, the retry truncates the file,
  writes nothing and reports success; and a compressed body, once written, is released through a
  pointer that is not the one allocated.\<close>

theorem origin_put_faults:
  assumes o: "openable F 0 path ''w'' n t" "openable F 1 path ''w'' n t" and a: "accepts F 0 ns"
    and room: "length contents \<le> sum_list ns" "length plain \<le> sum_list ns" and ne: "plain \<noteq> []"
    and u: "gzip_uncompress_new Z (sys_new F) body GZIP put_start put_stop = Some (Some plain)"
  shows "(if sys_ferror F 0 \<and> \<not> sys_ferror F 1
      then origin_putorpost Z F path contents identity ''w'' f = Some (Inr E0, [])
      else True) \<and>
    (if \<not> sys_ferror F 0 then origin_putorpost Z F path body gzip ''w'' f = Some (Inl UB, plain) else True)"
proof -
  have w: "write_loop F 0 0 s [] = (if length s \<le> sum_list ns then Some s else None)" for s
    using write_loop_eval [OF a, of 0 s "[]"] by simp
  have retry: "put_attempt F identity path ''w'' 1 mv [] g = Some (Inr E0, [])" if "\<not> sys_ferror F 1" for mv g
    using o(2) that
    by (subst put_attempt.simps) (simp add: openable_def release_tmp_def write_loop.simps [of F "Suc 0" 0 "[]"])
  have "origin_putorpost Z F path contents identity ''w'' f = Some (Inr E0, [])"
    if "sys_ferror F 0" "\<not> sys_ferror F 1"
  proof -
    have "put_attempt F identity path ''w'' 0 False contents f = put_attempt F identity path ''w'' 1 (contents \<noteq> []) [] contents"
      using o(1) that(1) room(1) w by (subst put_attempt.simps) (simp add: openable_def)
    then show ?thesis using retry [OF that(2)] o(1) by (simp add: origin_putorpost_def openable_def)
  qed
  moreover have "origin_putorpost Z F path body gzip ''w'' f = Some (Inl UB, plain)" if "\<not> sys_ferror F 0"
  proof -
    have "put_attempt F gzip path ''w'' 0 False plain f = Some (Inl UB, plain)"
      using o(1) that room(2) w ne by (subst put_attempt.simps) (simp add: openable_def release_tmp_def)
    then show ?thesis using o(1) u by (simp add: origin_putorpost_def openable_def)
  qed
  ultimately show ?thesis by simp
qed

theorem origin_put_faults_witness:
  "origin_putorpost stored ((one_file [] 3)\<lparr>sys_ferror := (\<lambda>a. a = 0)\<rparr>) ''f'' ''new'' identity ''w'' ''old'' =
     Some (Inr E0, []) \<and>
   origin_putorpost stored (one_file [] 3) ''f'' ''abc'' gzip ''w'' ''old'' = Some (Inl UB, ''abc'')"
proof -
  have u: "gzip_uncompress_new stored (sys_new (one_file [] 3)) ''abc'' GZIP put_start put_stop = Some (Some ''abc'')"
    by code_simp
  let ?F = "(one_file [] 3)\<lparr>sys_ferror := (\<lambda>a. a = 0)\<rparr>"
  have o: "openable ?F a ''f'' ''w'' 3 7" "openable (one_file [] 3) a ''f'' ''w'' 3 7" for a
    by (simp_all add: openable_def one_file_def)
  have acc: "accepts ?F 0 [100]" using one_file_openable(3) by (simp add: accepts_def one_file_def)
  have "sys_ferror ?F 0 \<and> \<not> sys_ferror ?F 1" "\<not> sys_ferror (one_file [] 3) 0" by (simp_all add: one_file_def)
  moreover have "gzip_uncompress_new stored (sys_new ?F) ''abc'' GZIP put_start put_stop = Some (Some ''abc'')"
    using u by simp
  ultimately show ?thesis
    using origin_put_faults [OF o(1) o(1) acc, of "''new''" "''abc''" stored "''abc''" "''old''"]
      origin_put_faults [OF o(2) o(2) one_file_openable(3), of "''new''" "''abc''" stored "''abc''" "''old''"] u
    by simp
qed

text \<open>The removal calls itself for ever.\<close>

lemma origin_unlink_None: "origin_unlink err path = None"
proof (cases "origin_unlink err path")
  case (Some r)
  have "False"
    by (rule origin_unlink.raw_induct [where P = "\<lambda>_ _ _. False", OF _ Some])
      (auto simp: bind_eq_Some_conv)
  then show ?thesis ..
qed

text \<open>A directory page whose entry decompresses to it.\<close>

lemma dirtoHTML_page:
  assumes z: "zlib_ok Z" and d: "sys_opendir F (c_string path) = None" "sys_malloc F 0"
    and r: "sys_readdir F (c_string path) = (names, E0)" and p: "data = c_string (dir_page path names)"
    and b: "sys_new F (gzip_bound Z (of_nat (length data)) GZIP)" and n: "length data < 2 ^ 62"
    and c: "gzip_compress Z (gzip_bound Z (of_nat (length data)) GZIP) data GZIP default_level = Some dst"
  shows "\<exists>c. origin_dirtoHTML Z F path res = (E0, Some c) \<and> unat (szondisk c) = length data \<and>
    gzip_uncompress Z (of_nat (length data)) (ebuf c) GZIP = Some data"
proof -
  obtain e where e: "compress_entry Z F data (sys_time F 0) (sys_time F 0) (sys_time F 0) = (E0, Some e)"
      "unat (szondisk e) = length data"
      "gzip_compress Z (gzip_bound Z (of_nat (length data)) GZIP) data GZIP default_level = Some (ebuf e)"
    using compress_entry_roundtrip [OF z n c] by blast
  have "gzip_uncompress Z (of_nat (length data)) (ebuf e) GZIP = Some data" by (rule gzip_roundtrip_bound [OF z n e(3)])
  then show ?thesis using e(1,2) d r b by (simp add: origin_dirtoHTML_def p Let_def)
qed

end
