(* ===== verification/Mime_types.thy ===== *)
theory Mime_types
  imports Streams
begin

text \<open>
  \<open>mime_types.hpp\<close>, \<open>mime_types.cpp\<close>: the table from file name extensions to MIME types, read from
  a database of lines, and the lookup of a file name in it. Then the same by splitting lines into
  words, which is what the parser is shown to compute.
\<close>

section \<open>The parser\<close>

type_synonym mime_table = "string \<Rightarrow> string option"

record mime =
  types :: mime_table
  fallback :: string

lemma read_word_shorter:
  assumes "read_word s old = (w, s')" and "good s"
  shows "length (unread s') < length (unread s) \<or> \<not> good s'"
proof (cases "good (skip_ws s)")
  case False
  then show ?thesis using assms by (auto simp: read_word_def)
next
  case True
  let ?r = "unread s" and ?k = "length (takeWhile isspace (unread s))"
  have k: "?k < length ?r"
    using True assms(2) length_takeWhile_le [of isspace ?r]
    by (auto simp: skip_ws_def good_def Let_def split: if_splits)
  then have s1: "skip_ws s = s\<lparr>gpos := gpos s + ?k\<rparr>" by (simp add: skip_ws_def Let_def)
  have d: "unread (skip_ws s) = dropWhile isspace ?r"
    using k by (simp add: s1 unread_def dropWhile_eq_drop add.commute)
  moreover have "dropWhile isspace ?r \<noteq> []"
    using k by (metis length_takeWhile_eq_iff list.size(3) nat_less_le dropWhile_eq_drop drop_eq_Nil2 leD)
  ultimately obtain c cs where c: "unread (skip_ws s) = c # cs" "\<not> isspace c"
    by (metis hd_dropWhile list.exhaust list.sel(1))
  define w' where "w' = takeWhile (\<lambda>c. \<not> isspace c) (unread (skip_ws s))"
  have "0 < length w'" using c by (simp add: w'_def)
  moreover have "s' = (skip_ws s)\<lparr>gpos := gpos (skip_ws s) + length w', eofb := length w' = length (unread (skip_ws s))\<rparr>"
    using assms True by (auto simp: read_word_def Let_def w'_def)
  moreover have "length (unread (skip_ws s)) \<le> length ?r" by (simp add: d length_dropWhile_le)
  moreover have "0 < length (unread (skip_ws s))" using c by simp
  moreover have "length (unread s') = length (unread (skip_ws s)) - length w'"
    using calculation(2) by (simp add: unread_def)
  ultimately have "length (unread s') < length (unread s)" by linarith
  then show ?thesis ..
qed

text \<open>\<open>while (tmp.good()) { tmp >> extension; types[extension] = type; }\<close>\<close>

function mime_exts :: "string \<Rightarrow> istr \<Rightarrow> string \<Rightarrow> mime_table \<Rightarrow> mime_table" where
  "mime_exts ty tmp ext t =
     (if good tmp then
        let (ext', tmp') = read_word tmp ext in
        if good tmp' then mime_exts ty tmp' ext' (t(ext' \<mapsto> ty)) else t(ext' \<mapsto> ty)
      else t)"
  by pat_completeness auto

termination mime_exts
  by (relation "measure (\<lambda>(ty, tmp, ext, t). length (unread tmp))") (auto dest!: sym [of _ "read_word _ _"] read_word_shorter)

declare mime_exts.simps [simp del]

definition mime_line :: "string \<Rightarrow> mime_table \<Rightarrow> mime_table" where
  "mime_line line t =
     (if line = [] \<or> hd line = CHR ''#'' then t
      else let (ty, tmp) = read_word (str_new line) [] in mime_exts ty tmp [] t)"

text \<open>\<open>init\<close> on the lines of the database; a file that cannot be opened ends the process.\<close>

definition mime_init :: "string list option \<Rightarrow> string \<Rightarrow> mime_table \<Rightarrow> mime option" where
  "mime_init db fb t =
     (case db of None \<Rightarrow> None | Some ls \<Rightarrow> Some \<lparr>types = fold mime_line ls t, fallback = fb\<rparr>)"

text \<open>The position of the last dot.\<close>

fun rfind :: "char \<Rightarrow> string \<Rightarrow> nat option" where
  "rfind c [] = None"
| "rfind c (x # xs) =
     (case rfind c xs of Some k \<Rightarrow> Some (Suc k) | None \<Rightarrow> if x = c then Some 0 else None)"

definition mime_lookup :: "mime \<Rightarrow> string \<Rightarrow> string" where
  "mime_lookup m filename =
     (case rfind CHR ''.'' filename of
        None \<Rightarrow> fallback m
      | Some dot \<Rightarrow>
          (case types m (drop (dot + 1) filename) of None \<Rightarrow> fallback m | Some ty \<Rightarrow> c_string ty))"

section \<open>Lines as words\<close>

function words :: "string \<Rightarrow> string list" where
  "words [] = []"
| "words (c # cs) =
     (if isspace c then words cs
      else (c # takeWhile (\<lambda>c. \<not> isspace c) cs) # words (dropWhile (\<lambda>c. \<not> isspace c) cs))"
  by pat_completeness auto

termination words
  by (relation "measure length") (auto simp: le_imp_less_Suc length_dropWhile_le)

lemma words_next:
  assumes "\<forall>c \<in> set ws. isspace c" and "w \<noteq> []" and "\<forall>c \<in> set w. \<not> isspace c"
    and "rest = [] \<or> isspace (hd rest)"
  shows "words (ws @ w @ rest) = w # words rest"
  using assms(1)
proof (induction ws)
  case Nil
  obtain c w' where "w = c # w'" using assms(2) by (cases w) auto
  moreover have "takeWhile (\<lambda>c. \<not> isspace c) (w' @ rest) = w'" "dropWhile (\<lambda>c. \<not> isspace c) (w' @ rest) = rest"
    using assms(3,4) calculation by (cases rest; auto simp: takeWhile_append2 dropWhile_append2)+
  ultimately show ?case using assms(3) by simp
qed simp

text \<open>A text that does not end in white space either is empty or starts with a word.\<close>

lemma split_word:
  assumes "r \<noteq> []" and "\<not> isspace (last r)"
  obtains ws w rest where "r = ws @ w @ rest" "\<forall>c \<in> set ws. isspace c" "w \<noteq> []"
    "\<forall>c \<in> set w. \<not> isspace c" "rest = [] \<or> isspace (hd rest) \<and> rest \<noteq> [] \<and> \<not> isspace (last rest)"
proof -
  let ?ws = "takeWhile isspace r" and ?d = "dropWhile isspace r"
  let ?w = "takeWhile (\<lambda>c. \<not> isspace c) ?d" and ?rest = "dropWhile (\<lambda>c. \<not> isspace c) ?d"
  have ne: "?d \<noteq> []" using assms last_in_set [OF assms(1)] by (auto simp: dropWhile_eq_Nil_conv)
  then have "\<not> isspace (hd ?d)" by (rule hd_dropWhile)
  with ne have "?w \<noteq> []" by (cases "dropWhile isspace r") simp_all
  moreover have "?rest = [] \<or> isspace (hd ?rest) \<and> ?rest \<noteq> [] \<and> \<not> isspace (last ?rest)"
  proof (cases "?rest = []")
    case False
    have "last ?rest = last (?ws @ ?w @ ?rest)" using False by (simp only: last_append append_is_Nil_conv if_False simp_thms)
    also have "?ws @ ?w @ ?rest = r" by simp
    finally show ?thesis using False assms(2) hd_dropWhile [OF False] by simp
  qed simp
  moreover have "\<forall>c \<in> set ?ws. isspace c" "\<forall>c \<in> set ?w. \<not> isspace c" by (auto dest: set_takeWhileD)
  moreover have "r = ?ws @ ?w @ ?rest" by simp
  ultimately show ?thesis using that [of ?ws ?w ?rest] by blast
qed

lemma mime_exts_words:
  assumes "good tmp" and "unread tmp \<noteq> []" and "\<not> isspace (last (unread tmp))"
  shows "mime_exts ty tmp ext t = fold (\<lambda>e t. t(e \<mapsto> ty)) (words (unread tmp)) t"
  using assms
proof (induction ty tmp ext t rule: mime_exts.induct)
  case (1 ty tmp ext t)
  obtain ws w rest where r: "unread tmp = ws @ w @ rest" "\<forall>c \<in> set ws. isspace c" "w \<noteq> []"
      "\<forall>c \<in> set w. \<not> isspace c" "rest = [] \<or> isspace (hd rest) \<and> rest \<noteq> [] \<and> \<not> isspace (last rest)"
    using split_word [OF 1(3,4)] by metis
  let ?s = "tmp\<lparr>gpos := gpos tmp + length ws + length w, eofb := (rest = [])\<rparr>"
  have rd: "read_word tmp ext = (w, ?s)" using r 1(2) by (intro read_word_hit) auto
  have u: "unread ?s = rest" using r(1) by (simp add: unread_def) (metis add.commute append_eq_conv_conj drop_drop length_append append.assoc)
  have wd: "words (unread tmp) = w # words rest" using words_next r by metis
  have g: "good ?s \<longleftrightarrow> rest \<noteq> []" using 1(2) by (simp add: good_def)
  show ?case
  proof (cases "rest = []")
    case True
    then show ?thesis using 1(2) rd g wd by (subst mime_exts.simps) simp
  next
    case False
    have "mime_exts ty ?s w (t(w \<mapsto> ty)) = fold (\<lambda>e t. t(e \<mapsto> ty)) (words rest) (t(w \<mapsto> ty))"
    proof -
      have gs: "good ?s" using g False by blast
      have us: "unread ?s \<noteq> []" "\<not> isspace (last (unread ?s))" unfolding u using r(5) False by simp_all
      show ?thesis using 1(1) [OF 1(2) rd [symmetric] refl gs gs us] unfolding u .
    qed
    moreover have "mime_exts ty tmp ext t = mime_exts ty ?s w (t(w \<mapsto> ty))"
      using 1(2) rd g False by (subst mime_exts.simps) simp
    ultimately show ?thesis unfolding wd by (simp only: fold.simps comp_apply)
  qed
qed

text \<open>The table after a line: each word but the first is mapped to the first.\<close>

definition line_table :: "string \<Rightarrow> mime_table \<Rightarrow> mime_table" where
  "line_table line t =
     (if line = [] \<or> hd line = CHR ''#'' then t
      else case words line of [] \<Rightarrow> t | ty # es \<Rightarrow> fold (\<lambda>e t. t(e \<mapsto> ty)) es t)"

lemma mime_line_words:
  assumes "line = [] \<or> \<not> isspace (last line)"
  shows "mime_line line t = line_table line t"
proof (cases "line = [] \<or> hd line = CHR ''#''")
  case True
  then show ?thesis by (auto simp: mime_line_def line_table_def)
next
  case False
  then obtain ws w rest where r: "line = ws @ w @ rest" "\<forall>c \<in> set ws. isspace c" "w \<noteq> []"
      "\<forall>c \<in> set w. \<not> isspace c" "rest = [] \<or> isspace (hd rest) \<and> rest \<noteq> [] \<and> \<not> isspace (last rest)"
    using split_word [of line] assms by metis
  let ?s = "(str_new line)\<lparr>gpos := length ws + length w, eofb := (rest = [])\<rparr>"
  have rd: "read_word (str_new line) [] = (w, ?s)"
    using read_word_hit [of "str_new line" ws w rest "[]", OF _ _ r(2,3,4)] r(1,5)
    by (simp add: str_new_def good_def unread_def disj_imp)
  have u: "unread ?s = rest" using r(1) by (simp add: unread_def str_new_def)
  have wd: "words line = w # words rest" using words_next r by metis
  have ex: "mime_exts w ?s [] t = fold (\<lambda>e t. t(e \<mapsto> w)) (words rest) t"
  proof (cases "rest = []")
    case True
    then show ?thesis by (subst mime_exts.simps) (simp add: good_def)
  next
    case False
    then show ?thesis using mime_exts_words [of ?s w "[]" t] r(5) u by (auto simp: good_def str_new_def)
  qed
  then show ?thesis using False rd wd by (simp add: mime_line_def line_table_def)
qed

text \<open>Trailing white space makes the parser store an extension twice, or the empty one.\<close>

lemma mime_trailing_space: "mime_line ''text/plain '' (\<lambda>_. None) [] = Some ''text/plain''"
  by code_simp

lemma rfind_append: "c \<notin> set e \<Longrightarrow> rfind c (p @ c # e) = Some (length p)"
proof (induction p)
  case Nil
  have "rfind c e = None" if "c \<notin> set e" for e using that by (induction e) auto
  then show ?case using Nil by simp
qed auto

text \<open>The MIME database as a table: on lines without trailing white space the table read is the
  one in which each line maps its words after the first to the first, later lines winning, and the
  type of a file is what the table has for the part of its name after the last dot.\<close>

theorem mime_table_words:
  assumes "\<forall>l \<in> set ls. l = [] \<or> \<not> isspace (last l)" and "CHR ''.'' \<notin> set e"
  shows "map_option (\<lambda>m. mime_lookup m (p @ ''.'' @ e)) (mime_init (Some ls) fb t) =
    Some (case fold line_table ls t e of None \<Rightarrow> fb | Some ty \<Rightarrow> c_string ty)"
proof -
  have "fold mime_line ls t = fold line_table ls t"
    using assms(1) mime_line_words by (intro fold_cong) auto
  then show ?thesis using assms(2) by (simp add: mime_init_def mime_lookup_def rfind_append split: option.split)
qed

theorem mime_table_words_witness:
  "map_option (\<lambda>m. mime_lookup m ''a/index.html'') (mime_init (Some [''# types'', ''text/html  htm html'']) ''x'' (\<lambda>_. None)) =
     Some ''text/html''"
proof -
  have "fold line_table [''# types'', ''text/html  htm html''] (\<lambda>_. None) ''html'' = Some ''text/html''" by code_simp
  moreover have "c_string ''text/html'' = ''text/html''" by code_simp
  moreover have "\<forall>l \<in> set [''# types'', ''text/html  htm html'']. l = [] \<or> \<not> isspace (last l)" by code_simp
  ultimately show ?thesis
    using mime_table_words [of "[''# types'', ''text/html  htm html'']" "''html''" "''a/index''" "''x''" "\<lambda>_. None"]
    by simp
qed

end
