(* ===== verification/HTTP_2616_Server_Work.thy ===== *)
theory HTTP_2616_Server_Work
  imports HTTP_Server_Work HTTP_Origin_Server Mime_types Cache
begin

unbundle bit_operations_syntax

text \<open>
  \<open>HTTP_2616_Server_Work.hpp\<close>, \<open>HTTP_2616_Server_Work.cpp\<close>: how a request is answered. The request
  headers are looked through, the cache and the origin server are asked, the response is laid
  out, and after it the connection gives back what it held. A cache entry is a heap object: the
  cache and the connection hold its address.
\<close>

section \<open>State\<close>

text \<open>\<open>struct cc\<close>: the client's cache directives as bits.\<close>

datatype cc_opt = no_cache | no_store | no_transform | only_if_cached | cc_max_age | cc_min_fresh | cc_max_stale

fun cc_bit :: "cc_opt \<Rightarrow> 8 word" where
  "cc_bit no_cache = 1"
| "cc_bit no_store = 2"
| "cc_bit no_transform = 4"
| "cc_bit only_if_cached = 8"
| "cc_bit cc_max_age = 16"
| "cc_bit cc_min_fresh = 32"
| "cc_bit cc_max_stale = 64"

record cc =
  flags :: "8 word"
  max_age :: time_t
  min_fresh :: time_t
  max_stale :: time_t

definition cc_new :: cc where
  "cc_new = \<lparr>flags = 0, max_age = 0, min_fresh = 0, max_stale = 0\<rparr>"

definition cc_set :: "cc_opt \<Rightarrow> cc \<Rightarrow> cc" where
  "cc_set o1 d = d\<lparr>flags := flags d OR cc_bit o1\<rparr>"

definition cc_isset :: "cc_opt \<Rightarrow> cc \<Rightarrow> bool" where
  "cc_isset o1 d \<longleftrightarrow> flags d AND cc_bit o1 \<noteq> 0"

definition cc_clear :: "cc \<Rightarrow> cc" where
  "cc_clear d = d\<lparr>flags := 0\<rparr>"

text \<open>
  The fields of the class; \<open>None\<close> is an uninitialised method or number and a null pointer. The
  last five are the surroundings: the cache all connections share, the entries in memory and the
  next address, the files, and the works created for dynamic resources.
\<close>

record h2616 = hwork +
  rpath :: string
  rquery :: string
  meth :: "http_method option"
  resp_is_cached :: bool
  cptr :: "nat option"
  uncompressed :: "string option"
  cl_cc :: cc
  cl_accept_enc :: content_coding
  cl_content_enc :: content_coding
  cl_max_fwds :: "size_t option"
  hcache :: "(string, nat) cache"
  eheap :: "nat \<Rightarrow> centry option"
  enext :: nat
  files :: "string \<Rightarrow> string"
  dynamic :: "(structured_hdrs \<times> string) list"

text \<open>
  What is outside: zlib, the file system, the MIME table, \<open>strftime\<close> on the thread's \<open>Time_nr\<close>, the
  clock, the command line, which allocations succeed, the order in which an entry's headers
  come, the first failure in making a client socket, and the failure of \<open>epoll_ctl\<close> on it.
\<close>

record env =
  e_zlib :: zlib
  e_fsys :: fsys
  e_mime :: mime
  e_date :: "time_t \<Rightarrow> string"
  e_now :: time_t
  e_max_uri :: size_t
  e_default_resource :: string
  e_cache_expires :: int
  e_malloc :: "size_t \<Rightarrow> bool"
  e_put_mem :: bool
  e_order :: "(header \<Rightarrow> string option) \<Rightarrow> header list"
  e_socket :: "errno option"
  e_schedule :: "errno option"

definition h2616_new :: "fd \<Rightarrow> (string, nat) cache \<Rightarrow> (nat \<Rightarrow> centry option) \<Rightarrow> nat \<Rightarrow> (string \<Rightarrow> string) \<Rightarrow> h2616" where
  "h2616_new d ch h n fs = hwork.extend (hwork_new d) (h2616.fields [] [] None False None None cc_new identity identity
     None ch h n fs [])"

text \<open>Sequencing of what may throw.\<close>

definition andthen :: "'w thrown \<Rightarrow> ('w \<Rightarrow> 'w thrown) \<Rightarrow> 'w thrown" where
  "andthen r f = (case r of (None, w) \<Rightarrow> f w | (Some e, w) \<Rightarrow> (Some e, w))"

definition throw_oops :: "status \<Rightarrow> 'w \<Rightarrow> 'w thrown" where
  "throw_oops st w = (Some (HTTP_oops st), w)"

text \<open>A call that does not return, a runaway recursion: nothing is claimed of what follows.\<close>

definition no_return :: "'w \<Rightarrow> 'w thrown" where
  "no_return w = (Some UB, w)"

section \<open>The request headers\<close>

definition set_hdr :: "header \<Rightarrow> string \<Rightarrow> h2616 \<Rightarrow> h2616" where
  "set_hdr h v w = w\<lparr>inhdrs := (inhdrs w)[header_int h := v]\<rparr>"

definition browse_reqln :: "env \<Rightarrow> h2616 \<Rightarrow> h2616 thrown" where
  "browse_reqln E w =
     (let (e, m, p, q) = parsereqln (e_max_uri E) (inhdrs w ! reqln) (meth w) (rpath w) (rquery w);
          w1 = w\<lparr>meth := m, rpath := p, rquery := q\<rparr> in
      case e of
        Some x \<Rightarrow> (Some x, w1)
      | None \<Rightarrow> (None, if p = ''/'' then w1\<lparr>rpath := e_default_resource E\<rparr> else w1))"

definition browse_accept_enc :: "h2616 \<Rightarrow> h2616 thrown" where
  "browse_accept_enc w =
     (if hdr (inhdrs w) Accept_Encoding = [] then (None, w)
      else
        let tmp = tolower (hdr (inhdrs w) Accept_Encoding); w1 = set_hdr Accept_Encoding tmp w in
        if contains (content_coding_str gzip) tmp then (None, w1\<lparr>cl_accept_enc := gzip\<rparr>)
        else if contains (content_coding_str identity) tmp then (None, w1\<lparr>cl_accept_enc := identity\<rparr>)
        else throw_oops Not_Acceptable w1)"

text \<open>The words of a directive with a value, read into the header itself, then the value.\<close>

definition read_directive :: "string \<Rightarrow> time_t \<Rightarrow> string \<times> time_t" where
  "read_directive t old =
     (let (t1, s1) = read_word (str_new t) t; (t2, s2) = read_word s1 t1; (v, s3) = read_time s2 old in (t2, v))"

definition browse_cache_control :: "h2616 \<Rightarrow> h2616" where
  "browse_cache_control w =
     (let tmp = hdr (inhdrs w) Cache_Control; d = cl_cc w in
      if tmp = [] then w
      else if contains ''no-cache'' tmp then w\<lparr>cl_cc := cc_set no_cache d\<rparr>
      else if contains ''no-store'' tmp then w\<lparr>cl_cc := cc_set no_store d\<rparr>
      else if contains ''no-transform'' tmp then w\<lparr>cl_cc := cc_set no_transform d\<rparr>
      else if contains ''only-if-cached'' tmp then w\<lparr>cl_cc := cc_set only_if_cached d\<rparr>
      else if contains ''max-age'' tmp then
        let (t, v) = read_directive tmp (max_age d) in
        (set_hdr Cache_Control t w)\<lparr>cl_cc := (cc_set cc_max_age d)\<lparr>max_age := v\<rparr>\<rparr>
      else if contains ''max-stale'' tmp then
        if contains ''='' tmp then
          let (t, v) = read_directive tmp (max_stale d) in
          (set_hdr Cache_Control t w)\<lparr>cl_cc := (cc_set cc_max_stale d)\<lparr>max_stale := v\<rparr>\<rparr>
        else w\<lparr>cl_cc := (cc_set cc_max_stale d)\<lparr>max_stale := -1\<rparr>\<rparr>
      else if contains ''min-fresh'' tmp then
        let (t, v) = read_directive tmp (min_fresh d) in
        (set_hdr Cache_Control t w)\<lparr>cl_cc := (cc_set cc_min_fresh d)\<lparr>min_fresh := v\<rparr>\<rparr>
      else w)"

definition browse_connection :: "h2616 \<Rightarrow> h2616" where
  "browse_connection w =
     (if hdr (inhdrs w) Connection \<noteq> [] \<and> contains ''close'' (hdr (inhdrs w) Connection)
      then w\<lparr>deleteme := True\<rparr> else w)"

definition browse_content_enc :: "h2616 \<Rightarrow> h2616 thrown" where
  "browse_content_enc w =
     (if hdr (inhdrs w) Content_Encoding = [] then (None, w)
      else
        let tmp = tolower (hdr (inhdrs w) Content_Encoding); w1 = set_hdr Content_Encoding tmp w in
        if contains (content_coding_str gzip) tmp then (None, w1\<lparr>cl_content_enc := gzip\<rparr>)
        else if contains (content_coding_str identity) tmp then (None, w1\<lparr>cl_content_enc := identity\<rparr>)
        else throw_oops Unsupported_Media_Type w1)"

definition browse_expect :: "h2616 \<Rightarrow> h2616 thrown" where
  "browse_expect w =
     (if hdr (inhdrs w) Expect = [] then (None, w)
      else if tolower ''100-continue'' = tolower (c_string (hdr (inhdrs w) Expect)) then throw_oops Continue w
      else throw_oops Expectation_Failed w)"

definition browse_max_forwards :: "h2616 \<Rightarrow> h2616" where
  "browse_max_forwards w =
     (if hdr (inhdrs w) Max_Forwards = [] then w
      else
        let s = str_new (hdr (inhdrs w) Max_Forwards) in
        w\<lparr>cl_max_fwds := (if good (skip_ws s) then Some (fst (read_size s 0)) else cl_max_fwds w)\<rparr>)"

definition browse_req :: "env \<Rightarrow> h2616 \<Rightarrow> h2616 thrown" where
  "browse_req E w =
     andthen (browse_reqln E w) (\<lambda>w.
     andthen (browse_accept_enc w) (\<lambda>w.
     andthen (browse_content_enc (browse_connection (browse_cache_control w))) (\<lambda>w.
     andthen (browse_expect w) (\<lambda>w. (None, browse_max_forwards w)))))"

section \<open>The cache\<close>

definition show_int :: "int \<Rightarrow> string" where
  "show_int n = (if n < 0 then ''-'' @ show_nat (nat (- n)) else show_nat (nat n))"

definition upd_entry :: "nat \<Rightarrow> (centry \<Rightarrow> centry) \<Rightarrow> h2616 \<Rightarrow> h2616" where
  "upd_entry a f w = w\<lparr>eheap := (eheap w)(a := map_option f (eheap w a))\<rparr>"

text \<open>
  An entry the cache gives up is deleted, and with it what it was put for: the objects of the
  handles \<open>ks\<close> that are no longer in the table.
\<close>

definition drop_evicted :: "string list \<Rightarrow> (string, nat) cache \<Rightarrow> h2616 \<Rightarrow> h2616" where
  "drop_evicted ks old w = w\<lparr>eheap := fold (\<lambda>k h.
     case table old k of
       Some e \<Rightarrow> if table (hcache w) k = None then h(stuff e := None) else h
     | None \<Rightarrow> h) ks (eheap w)\<rparr>"

definition unget_path :: "h2616 \<Rightarrow> h2616" where
  "unget_path w = drop_evicted [rpath w] (hcache w) (w\<lparr>hcache := cache_unget (rpath w) (hcache w)\<rparr>)"

text \<open>
  The jumps to \<open>cache_ok\<close> and \<open>cache_no\<close>. \<open>lesser\<close> is read before it is set when the entry has
  an age limit of its own; that is \<open>None\<close>.
\<close>

definition acceptable :: "cc \<Rightarrow> time_t \<Rightarrow> bool \<Rightarrow> centry \<Rightarrow> bool option" where
  "acceptable d now valid c =
     (if (response_is_fresh now c \<or> valid) \<and> \<not> cc_isset cc_min_fresh d \<and> \<not> cc_isset cc_max_age d then Some True
      else if cc_isset cc_min_fresh d then Some (freshness_lifetime c \<ge> current_age now c + min_fresh d)
      else if cc_isset cc_max_age d then
        if use_max_age c then None
        else if current_age now c \<le> max_age d then
          if cc_isset cc_max_stale d then Some (current_age now c - freshness_lifetime c \<le> max_stale d)
          else Some True
        else Some False
      else if cc_isset cc_max_stale d then Some (current_age now c - freshness_lifetime c \<le> max_stale d)
      else Some True)"

definition stale_warning :: string where
  "stale_warning = ''110 '' @ package_name @ '' \"Response is stale\"''"

definition from_cache :: "env \<Rightarrow> h2616 \<Rightarrow> bool \<times> h2616 thrown" where
  "from_cache E w =
     (if cc_isset no_cache (cl_cc w) then (False, (None, w))
      else case cache_get (rpath w) (hcache w) of
        (None, ch) \<Rightarrow> (False, (None, w\<lparr>hcache := ch\<rparr>))
      | (Some a, ch) \<Rightarrow>
          let w1 = w\<lparr>hcache := ch, cptr := Some a\<rparr> in
          case eheap w a of
            None \<Rightarrow> (False, (Some UB, w1))
          | Some c \<Rightarrow>
              (case acceptable (cl_cc w) (e_now E) (origin_validate (e_fsys E) (rpath w) (Some c)) c of
                 None \<Rightarrow> (False, (Some UB, w1))
               | Some False \<Rightarrow> (False, (None, unget_path w1))
               | Some True \<Rightarrow>
                   let w2 = upd_entry a (entry_hdr Age (show_int (current_age (e_now E) c))) w1 in
                   (True, (None,
                     if response_is_fresh (e_now E) c then w2
                     else upd_entry a (entry_hdr Warning stale_warning)
                       (w2\<lparr>hcache := cs_advise (rpath w) (hcache w2)\<rparr>)))))"

definition into_cache :: "env \<Rightarrow> nat \<Rightarrow> centry \<Rightarrow> h2616 \<Rightarrow> bool \<times> h2616" where
  "into_cache E a c w =
     (if meth w \<in> {Some DELETE, Some OPTIONS, Some PUT, Some TRACE} then (False, w)
      else if meth w = Some POST \<and> (\<not> use_expires c \<or> expires_value c < e_now E) then (False, w)
      else if cc_isset no_store (cl_cc w) then (False, w)
      else let (ok, ch) = cache_put (e_put_mem E) (rpath w) a (szincache c) (hcache w) in
        (ok, drop_evicted (toevict (hcache w)) (hcache w) (w\<lparr>hcache := ch\<rparr>)))"

section \<open>Laying out the response\<close>

text \<open>From where \<open>c\<close> contains some kind of response. \<open>bodysz\<close> is set before the allocation that
  may fail.\<close>

definition lay_out :: "env \<Rightarrow> nat \<Rightarrow> centry \<Rightarrow> h2616 \<Rightarrow> h2616 thrown" where
  "lay_out E a c w =
     (case entry_put (e_order E (hdrmap c)) c of
        Inl e \<Rightarrow> (Some e, w)
      | Inr (t, c') \<Rightarrow> (None, push_out t (w\<lparr>eheap := (eheap w)(a \<mapsto> c')\<rparr>)))"

definition respond :: "env \<Rightarrow> h2616 \<Rightarrow> h2616 thrown" where
  "respond E w =
     (case Option.bind (cptr w) (\<lambda>a. map_option (Pair a) (eheap w a)) of
        None \<Rightarrow> (Some UB, w)
      | Some (a, c) \<Rightarrow>
          if meth w = Some HEAD then
            lay_out E a (entry_manip as_HEAD c) (w\<lparr>outbody := [], outbody_sz := 0\<rparr>)
          else if cl_accept_enc w = gzip then
            lay_out E a c (w\<lparr>outbody := ebuf c, outbody_sz := szincache c\<rparr>)
          else if cl_accept_enc w = identity then
            if \<not> e_malloc E (szondisk c) then throw_oops Internal_Server_Error (w\<lparr>outbody_sz := szondisk c\<rparr>)
            else case gzip_uncompress (e_zlib E) (szondisk c) (ebuf c) GZIP of
              None \<Rightarrow> throw_oops Internal_Server_Error (w\<lparr>uncompressed := None, outbody := [], outbody_sz := 0\<rparr>)
            | Some b \<Rightarrow>
                lay_out E a (entry_manip as_identity c)
                  (w\<lparr>uncompressed := Some b, outbody := b, outbody_sz := of_nat (length b)\<rparr>)
          else lay_out E a c w)"

section \<open>Answering a request\<close>

definition new_entry :: "centry \<Rightarrow> h2616 \<Rightarrow> h2616" where
  "new_entry c w = w\<lparr>eheap := (eheap w)(enext w \<mapsto> c), cptr := Some (enext w), enext := enext w + 1\<rparr>"

text \<open>The headers that need the thread's state.\<close>

definition expiry :: "env \<Rightarrow> time_t" where
  "expiry E = e_now E + 60 * e_cache_expires E"

definition file_headers :: "env \<Rightarrow> status \<Rightarrow> string \<Rightarrow> centry \<Rightarrow> centry" where
  "file_headers E st path c =
     (entry_hdr Expires (e_date E (expiry E))
       ((entry_hdr Last_Modified (e_date E (last_modified c))
         (entry_hdr Date (e_date E (e_now E))
           (entry_hdr Content_Type (mime_lookup (e_mime E) path) (entry_status st c))))
        \<lparr>use_expires := True, expires_value := expiry E\<rparr>))"

definition dir_headers :: "env \<Rightarrow> status \<Rightarrow> centry \<Rightarrow> centry" where
  "dir_headers E st c =
     (entry_hdr Expires (e_date E (expiry E))
       ((entry_hdr Date (e_date E (e_now E)) (entry_hdr Content_Type ''text/html'' (entry_status st c)))
        \<lparr>use_expires := True, expires_value := expiry E\<rparr>))"

text \<open>The label \<open>handle_request_domain_socket\<close>.\<close>

definition domain_socket :: "env \<Rightarrow> h2616 \<Rightarrow> h2616 thrown" where
  "domain_socket E w =
     (if e_socket E \<noteq> None then throw_oops Internal_Server_Error w
      else
        let w1 = w\<lparr>dynamic := dynamic w @ [(inhdrs w, inbody w)], nosch := True\<rparr> in
        case e_schedule E of Some e \<Rightarrow> (Some (ResourceErr ''epoll_ctl (EPOLL_CTL_ADD)'' e), w1) | None \<Rightarrow> (None, w1))"

text \<open>A directory is turned into a page.\<close>

definition dir_case :: "env \<Rightarrow> h2616 \<Rightarrow> h2616 thrown" where
  "dir_case E w =
     (let (err, res) = origin_dirtoHTML (e_zlib E) (e_fsys E) (rpath w) None in
      case res of
        None \<Rightarrow> throw_oops Internal_Server_Error w
      | Some c0 \<Rightarrow>
          if err \<noteq> E0 then throw_oops Internal_Server_Error w
          else respond E ((new_entry (dir_headers E (stat w) c0) w)\<lparr>resp_is_cached := False\<rparr>))"

text \<open>What the origin server answered: \<open>err\<close> and the pointer it set.\<close>

definition fetched :: "env \<Rightarrow> errno \<Rightarrow> centry option \<Rightarrow> h2616 \<Rightarrow> h2616 thrown" where
  "fetched E err res w =
     (if err = E0 then
        (case res of
           None \<Rightarrow> (Some UB, w\<lparr>cptr := None\<rparr>)
         | Some c0 \<Rightarrow>
             let c1 = file_headers E (stat w) (rpath w) c0;
                 (ok, w1) = into_cache E (enext w) c1 (new_entry c1 w) in
             respond E (w1\<lparr>resp_is_cached := ok\<rparr>))
      else let w1 = w\<lparr>cptr := None\<rparr> in
        if err = ENOENT then throw_oops Not_Found w1
        else if err = EACCES then throw_oops Forbidden w1
        else if err = EISDIR then dir_case E w1
        else if err = ESPIPE then domain_socket E w1
        else throw_oops Internal_Server_Error w1)"

definition ask_origin :: "env \<Rightarrow> h2616 \<Rightarrow> h2616 thrown" where
  "ask_origin E w =
     (case origin_request (e_zlib E) (e_fsys E) (rpath w) of
        None \<Rightarrow> no_return w
      | Some (Inl e) \<Rightarrow> (Some e, w)
      | Some (Inr (err, res)) \<Rightarrow> fetched E err res w)"

definition get_case :: "env \<Rightarrow> h2616 \<Rightarrow> h2616 thrown" where
  "get_case E w =
     (let (hit, r) = from_cache E w in
      andthen r (\<lambda>w0.
        let w1 = w0\<lparr>resp_is_cached := hit\<rparr> in
        if hit then respond E w1
        else if cc_isset only_if_cached (cl_cc w1) then throw_oops Gateway_Timeout w1
        else ask_origin E w1))"

definition put_case :: "env \<Rightarrow> h2616 \<Rightarrow> h2616 thrown" where
  "put_case E w =
     (case origin_putorpost (e_zlib E) (e_fsys E) (rpath w) (inbody w) (cl_content_enc w)
          (if meth w = Some POST then ''a'' else ''w'') (files w (rpath w)) of
        None \<Rightarrow> no_return w
      | Some (r, f) \<Rightarrow>
          let w1 = w\<lparr>files := (files w)(rpath w := f)\<rparr> in
          case r of
            Inl e \<Rightarrow> (Some e, w1)
          | Inr err \<Rightarrow>
              if err = E0 then throw_oops OK (w1\<lparr>hcache := cs_advise (rpath w1) (hcache w1)\<rparr>)
              else if err = ESPIPE then domain_socket E w1
              else if err = ENOENT then throw_oops Not_Found w1
              else if err = EACCES \<or> err = EISDIR then throw_oops Forbidden w1
              else throw_oops Internal_Server_Error w1)"

text \<open>\<open>err\<close> is the result of \<open>unlink\<close>.\<close>

definition delete_case :: "env \<Rightarrow> h2616 \<Rightarrow> h2616 thrown" where
  "delete_case E w =
     (case origin_unlink 1 (rpath w) of
        None \<Rightarrow> no_return w
      | Some err \<Rightarrow>
          if err = 0 then throw_oops OK (w\<lparr>hcache := cs_advise (rpath w) (hcache w)\<rparr>)
          else throw_oops Internal_Server_Error w)"

definition prepare_2616 :: "env \<Rightarrow> h2616 \<Rightarrow> h2616 thrown" where
  "prepare_2616 E w =
     andthen (browse_req E w) (\<lambda>w.
       if meth w = Some CONNECT then throw_oops Method_Not_Allowed w
       else if meth w = Some POST \<or> meth w = Some PUT then put_case E w
       else if meth w = Some DELETE then delete_case E w
       else get_case E w)"

definition on_oops_2616 :: "env \<Rightarrow> status \<Rightarrow> h2616 \<Rightarrow> h2616" where
  "on_oops_2616 E st w =
     push_out (HTTP_Version @ '' '' @ status_put st @ CRLF @ header_put Date @ e_date E (e_now E) @ CRLF @
       header_put Server @ package_name @ CRLF) w"

section \<open>After the response\<close>

definition reset_2616 :: "h2616 \<Rightarrow> h2616" where
  "reset_2616 w =
     (let w1 = (if resp_is_cached w then unget_path w
                else case cptr w of None \<Rightarrow> w | Some a \<Rightarrow> w\<lparr>eheap := (eheap w)(a := None)\<rparr>) in
      w1\<lparr>uncompressed := None, rpath := [], rquery := [], cl_cc := cc_clear (cl_cc w1), cptr := None\<rparr>)"

text \<open>The response of a dynamic resource has come: \<open>mem\<close> is the allocation of the body's copy.\<close>

definition async_setresponse_2616 :: "bool \<Rightarrow> structured_hdrs \<Rightarrow> string \<Rightarrow> h2616 \<Rightarrow> h2616 thrown" where
  "async_setresponse_2616 mem resphdrs respbody w =
     reschedule ((base_async_setresponse mem resphdrs respbody w)\<lparr>nosch := False, wmode := mode_write\<rparr>)"

definition step_2616 :: "env \<Rightarrow> limits \<Rightarrow> h2616 \<Rightarrow> h2616 thrown" where
  "step_2616 E lim = server_step lim (prepare_2616 E) (on_oops_2616 E) reset_2616"

section \<open>What the hooks keep\<close>

definition conn_ok :: "h2616 \<Rightarrow> h2616 thrown \<Rightarrow> bool" where
  "conn_ok w r \<longleftrightarrow> conn_same w (snd r) \<and> (fst r = None \<longrightarrow> body_ok w \<longrightarrow> body_ok (snd r))"

lemma conn_ok_andthen: "conn_ok w r \<Longrightarrow> (\<And>v. conn_ok v (f v)) \<Longrightarrow> conn_ok w (andthen r f)"
  by (cases r; cases "fst r") (fastforce simp: conn_ok_def andthen_def conn_same_def)+

lemma conn_ok_trans: "conn_same w v \<Longrightarrow> body_ok w = body_ok v \<Longrightarrow> conn_ok v r \<Longrightarrow> conn_ok w r"
  by (auto simp: conn_ok_def conn_same_def)

lemmas conn_defs = conn_ok_def conn_same_def body_ok_def throw_oops_def no_return_def

lemma browse_parts_conn:
  "conn_ok v (browse_reqln E v)" "conn_ok v (browse_accept_enc v)" "conn_ok v (browse_content_enc v)"
  "conn_ok v (browse_expect v)" "conn_ok v (None, browse_max_forwards v)"
  by (simp_all add: browse_reqln_def browse_accept_enc_def browse_content_enc_def browse_expect_def
      browse_max_forwards_def conn_defs set_hdr_def Let_def split: prod.split option.split)

lemma browse_cache_control_conn:
  "conn_same v (browse_cache_control v)" "body_ok (browse_cache_control v) = body_ok v"
  by (simp_all add: browse_cache_control_def conn_defs set_hdr_def Let_def case_prod_beta)

lemma browse_conn: "conn_ok w (browse_req E w)"
proof -
  have "conn_same v (browse_connection v) \<and> body_ok (browse_connection v) = body_ok v" for v
    by (simp add: browse_connection_def conn_defs)
  then have "conn_ok v (browse_content_enc (browse_connection (browse_cache_control v)))" for v
    using browse_cache_control_conn [of v] browse_parts_conn(3)
    by (intro conn_ok_trans [of v "browse_cache_control v"] conn_ok_trans [OF _ _ browse_parts_conn(3)]) auto
  then show ?thesis unfolding browse_req_def by (intro conn_ok_andthen browse_parts_conn)
qed

text \<open>The entries in memory have the size they announce; this is kept by every hook.\<close>

definition entries_ok :: "(nat \<Rightarrow> centry option) \<Rightarrow> bool" where
  "entries_ok h \<longleftrightarrow> (\<forall>a c. h a = Some c \<longrightarrow> unat (szincache c) \<le> length (ebuf c))"

definition own_2616 :: "unit h2616_ext \<Rightarrow> bool" where
  "own_2616 x \<longleftrightarrow> entries_ok (eheap (hwork.extend (hwork_new 0) x))"

lemma own_2616_eq [simp]: "own_2616 (hwork.more w) = entries_ok (eheap w)"
  by (cases w) (simp add: own_2616_def hwork.defs hwork_new_def)

lemma entry_ops_size [simp]:
  "ebuf (entry_hdr h v c) = ebuf c" "szincache (entry_hdr h v c) = szincache c"
  "ebuf (entry_manip mp c) = ebuf c" "szincache (entry_manip mp c) = szincache c"
  "ebuf (entry_status st c) = ebuf c" "szincache (entry_status st c) = szincache c"
  "ebuf (file_headers E st p c) = ebuf c" "szincache (file_headers E st p c) = szincache c"
  "ebuf (dir_headers E st c) = ebuf c" "szincache (dir_headers E st c) = szincache c"
  by (simp_all add: entry_hdr_def entry_manip_def entry_status_def file_headers_def dir_headers_def split: manip.split)

lemma entry_put_size: "entry_put ord c = Inr (t, c') \<Longrightarrow> ebuf c' = ebuf c \<and> szincache c' = szincache c"
  by (auto simp: entry_put_def split: option.splits)

lemma compress_entry_ok: "compress_entry Z F d t u v = (e, Some c) \<Longrightarrow> unat (szincache c) \<le> length (ebuf c)"
  by (auto simp: compress_entry_def centry_new_def Let_def unsigned_of_nat take_bit_nat_less_eq_self split: option.splits)

lemma origin_request_ok:
  "origin_request Z F p = Some (Inr (e, Some c)) \<Longrightarrow> unat (szincache c) \<le> length (ebuf c)"
proof -
  assume r: "origin_request Z F p = Some (Inr (e, Some c))"
  have "case y of Inr (e, Some c) \<Rightarrow> unat (szincache c) \<le> length (ebuf c) | _ \<Rightarrow> True"
    if "request_attempt Z F p t a = Some y" for Z F p t a y
  proof (rule request_attempt.raw_induct [where P = "\<lambda>Z F p t a y.
      case y of Inr (e, Some c) \<Rightarrow> unat (szincache c) \<le> length (ebuf c) | _ \<Rightarrow> True", OF _ that])
    fix ra Z F p t a y
    assume ih: "\<And>Z F p t a y. ra Z F p t a = Some y \<Longrightarrow>
        case y of Inr (e, Some c) \<Rightarrow> unat (szincache c) \<le> length (ebuf c) | _ \<Rightarrow> True"
      and e: "(case sys_stat F a (c_string p) of
         Inl err \<Rightarrow> Some (Inr (err, None))
       | Inr st \<Rightarrow>
           if st_kind st = Directory then Some (Inr (EISDIR, None))
           else if st_kind st = Socket then Some (Inr (ESPIPE, None))
           else if st_kind st \<noteq> Regular then Some (Inr (EACCES, None))
           else case sys_fopen F a (c_string p) ''r'' of
             Some err \<Rightarrow> Some (Inr (err, None))
           | None \<Rightarrow>
               if \<not> sys_trylock F a then Some (Inr (EACCES, None))
               else if \<not> sys_malloc F (st_size st) then Some (Inr (ENOMEM, None))
               else Option.bind (read_loop F a 0 (st_size st) []) (\<lambda>data.
                 if sys_ferror F a then if st_size st = 0 then ra Z F p t (a + 1) else Some (Inl UB)
                 else if \<not> sys_new F (gzip_bound Z (of_nat (st_size st)) GZIP) then Some (Inr (ENOMEM, None))
                 else Some (Inr (compress_entry Z F data t (sys_time F 1) (st_mtime st))))) = Some y"
    show "case y of Inr (e, Some c) \<Rightarrow> unat (szincache c) \<le> length (ebuf c) | _ \<Rightarrow> True"
      using e compress_entry_ok ih [of Z F p t "a + 1" y]
      by (auto simp: bind_eq_Some_conv split: sum.splits option.splits if_splits prod.splits)
  qed
  from this [OF r [unfolded origin_request_def]] show ?thesis by simp
qed

lemma dirtoHTML_ok: "origin_dirtoHTML Z F p None = (e, Some c) \<Longrightarrow> unat (szincache c) \<le> length (ebuf c)"
  using compress_entry_ok by (auto simp: origin_dirtoHTML_def Let_def split: option.splits if_splits prod.splits)

text \<open>A result that keeps the connection and the entries.\<close>

definition kept :: "h2616 \<Rightarrow> h2616 thrown \<Rightarrow> bool" where
  "kept w r \<longleftrightarrow> conn_same w (snd r) \<and> (entries_ok (eheap w) \<longrightarrow> entries_ok (eheap (snd r))) \<and>
     (entries_ok (eheap w) \<longrightarrow> fst r = None \<longrightarrow> body_ok w \<longrightarrow> body_ok (snd r))"

lemma kept_andthen: "kept w r \<Longrightarrow> (\<And>v. kept v (f v)) \<Longrightarrow> kept w (andthen r f)"
  by (cases r; cases "fst r") (fastforce simp: kept_def andthen_def conn_same_def)+

lemma kept_trans:
  "kept v r \<Longrightarrow> conn_same w v \<Longrightarrow> body_ok v = body_ok w \<Longrightarrow> (entries_ok (eheap w) \<Longrightarrow> entries_ok (eheap v)) \<Longrightarrow> kept w r"
  by (auto simp: kept_def conn_same_def)

lemma kept_throw [simp]: "kept w (throw_oops st w)" "kept w (no_return w)" "kept w (Some e, w)"
  by (simp_all add: kept_def throw_oops_def no_return_def conn_same_def)

lemma andthen_eheap: "(\<And>v. eheap (snd (f v)) = eheap v) \<Longrightarrow> eheap (snd (andthen r f)) = eheap (snd r)"
  by (cases r; cases "fst r") (auto simp: andthen_def)

lemma browse_parts_eheap:
  "eheap (snd (browse_reqln E v)) = eheap v" "eheap (snd (browse_accept_enc v)) = eheap v"
  "eheap (snd (browse_content_enc v)) = eheap v" "eheap (snd (browse_expect v)) = eheap v"
  "eheap (browse_max_forwards v) = eheap v" "eheap (browse_connection v) = eheap v"
  "eheap (browse_cache_control v) = eheap v"
  by (simp_all add: browse_reqln_def browse_accept_enc_def browse_content_enc_def browse_expect_def
      browse_max_forwards_def browse_connection_def browse_cache_control_def set_hdr_def throw_oops_def
      Let_def case_prod_beta split: option.split)

lemma browse_eheap: "eheap (snd (browse_req E w)) = eheap w"
  by (simp add: browse_req_def andthen_eheap browse_parts_eheap)

lemma browse_kept: "kept w (browse_req E w)"
  using browse_conn [of w E] by (auto simp: kept_def conn_ok_def browse_eheap)

lemma entries_ok_upd:
  "entries_ok h \<Longrightarrow> unat (szincache c) \<le> length (ebuf c) \<Longrightarrow> entries_ok (h(a \<mapsto> c))"
  "entries_ok h \<Longrightarrow> entries_ok (h(a := None))"
  by (auto simp: entries_ok_def)

lemma drop_evicted_frame: "\<exists>h. drop_evicted ks c w = w\<lparr>eheap := h\<rparr> \<and> (entries_ok (eheap w) \<longrightarrow> entries_ok h)"
proof -
  have "entries_ok h \<longrightarrow> entries_ok (fold (\<lambda>k h. case table c k of
      Some e \<Rightarrow> if t k = None then h(stuff e := None) else h | None \<Rightarrow> h) ks h)" for h and t :: "string \<Rightarrow> nat entry option"
    by (induction ks arbitrary: h) (auto simp: entries_ok_upd(2) split: option.split)
  then show ?thesis by (auto simp: drop_evicted_def)
qed

lemma drop_evicted_same:
  "conn_same w (drop_evicted ks c w) \<and> body_ok (drop_evicted ks c w) = body_ok w \<and>
   (entries_ok (eheap w) \<longrightarrow> entries_ok (eheap (drop_evicted ks c w)))"
proof -
  obtain h where "drop_evicted ks c w = w\<lparr>eheap := h\<rparr>" "entries_ok (eheap w) \<longrightarrow> entries_ok h"
    using drop_evicted_frame by blast
  then show ?thesis by (simp add: conn_same_def body_ok_def)
qed

lemma unget_path_same:
  "conn_same w (unget_path w) \<and> body_ok (unget_path w) = body_ok w \<and>
   (entries_ok (eheap w) \<longrightarrow> entries_ok (eheap (unget_path w)))"
  using drop_evicted_same [of "w\<lparr>hcache := cache_unget (rpath w) (hcache w)\<rparr>" "[rpath w]" "hcache w"]
  by (simp add: unget_path_def conn_same_def body_ok_def)

lemma lay_out_kept:
  assumes "entries_ok (eheap w) \<Longrightarrow> unat (szincache c) \<le> length (ebuf c)"
  shows "kept w (lay_out E a c w)"
  using assms entries_ok_upd(1) entry_put_size
  by (fastforce simp: lay_out_def kept_def conn_same_def push_out_def body_ok_def split: sum.split prod.split)

lemma respond_kept: "kept w (respond E w)"
proof (cases "Option.bind (cptr w) (\<lambda>a. map_option (Pair a) (eheap w a))")
  case None
  then show ?thesis by (simp add: respond_def)
next
  case (Some p)
  then obtain a c where c: "cptr w = Some a" "eheap w a = Some c" "p = (a, c)" by (auto simp: bind_eq_Some_conv)
  have sz: "unat (szincache c) \<le> length (ebuf c)" if "entries_ok (eheap w)"
    using that c(2) by (auto simp: entries_ok_def)
  have l: "kept w (lay_out E a c' (w\<lparr>outbody := b, outbody_sz := n\<rparr>))"
    if "c' \<in> {c, entry_manip as_HEAD c}" "entries_ok (eheap w) \<Longrightarrow> unat n \<le> length b" for c' b n
  proof -
    have "kept (w\<lparr>outbody := b, outbody_sz := n\<rparr>) (lay_out E a c' (w\<lparr>outbody := b, outbody_sz := n\<rparr>))"
      using that(1) sz by (intro lay_out_kept) auto
    then show ?thesis using that(2) by (auto simp: kept_def conn_same_def body_ok_def)
  qed
  have i: "kept w (lay_out E a (entry_manip as_identity c)
      (w\<lparr>uncompressed := Some b, outbody := b, outbody_sz := of_nat (length b)\<rparr>))" (is "kept w (lay_out E a _ ?w)") for b
  proof -
    have "kept ?w (lay_out E a (entry_manip as_identity c) ?w)" using sz by (intro lay_out_kept) auto
    moreover have "body_ok ?w" by (simp add: body_ok_def unsigned_of_nat take_bit_nat_less_eq_self)
    ultimately show ?thesis by (auto simp: kept_def conn_same_def)
  qed
  have t: "kept w (throw_oops st (w\<lparr>outbody_sz := n\<rparr>))"
    "kept w (throw_oops st (w\<lparr>uncompressed := None, outbody := [], outbody_sz := 0\<rparr>))" for st n
    by (simp_all add: kept_def throw_oops_def conn_same_def)
  show ?thesis
    using Some c(3) l i t sz lay_out_kept [of w c E a]
    by (simp add: respond_def split: option.split)
qed

lemma upd_entry_kept: "conn_same w (upd_entry a f w)" "body_ok (upd_entry a f w) = body_ok w"
  by (simp_all add: upd_entry_def conn_same_def body_ok_def)

lemma upd_entry_hdr_ok: "entries_ok (eheap w) \<Longrightarrow> entries_ok (eheap (upd_entry a (entry_hdr h v) w))"
  by (auto simp: upd_entry_def entries_ok_def)

lemma from_cache_kept: "kept w (snd (from_cache E w))"
proof -
  have up: "kept w (None, upd_entry a (entry_hdr h v) u)" if "kept w (None, u)" for a h v u
    using that upd_entry_kept [where w = u and a = a and f = "entry_hdr h v"] upd_entry_hdr_ok [where w = u and a = a and h = h and v = v]
    by (simp add: kept_def conn_same_def)
  have same: "kept w (None, w)" "kept w (None, w\<lparr>hcache := ch\<rparr>)" "kept w (None, w\<lparr>hcache := ch, cptr := p\<rparr>)"
      "kept w (None, w\<lparr>cptr := p, hcache := ch\<rparr>)"
      "kept w (Some e, w\<lparr>hcache := ch, cptr := p\<rparr>)" for ch p e
    by (simp_all add: kept_def conn_same_def body_ok_def)
  have adv: "kept w (None, u\<lparr>hcache := ch\<rparr>)" if "kept w (None, u)" for u ch
    using that by (simp add: kept_def conn_same_def body_ok_def)
  have ung: "kept w (None, unget_path u)" if "kept w (None, u)" for u
    using that unget_path_same [of u] by (simp add: kept_def conn_same_def)
  show ?thesis
    using same up adv ung
    by (simp add: from_cache_def Let_def split: option.split prod.split bool.split)
qed

lemma into_cache_same:
  "into_cache E a c w = (ok, w') \<Longrightarrow> conn_same w w' \<and> body_ok w' = body_ok w \<and>
     (entries_ok (eheap w) \<longrightarrow> entries_ok (eheap w'))"
proof -
  assume i: "into_cache E a c w = (ok, w')"
  have "\<exists>ks c ch. w' = drop_evicted ks c (w\<lparr>hcache := ch\<rparr>)"
  proof (cases "meth w \<in> {Some DELETE, Some OPTIONS, Some PUT, Some TRACE} \<or>
      meth w = Some POST \<and> (\<not> use_expires c \<or> expires_value c < e_now E) \<or> cc_isset no_store (cl_cc w)")
    case True
    then have "w' = w" using i unfolding into_cache_def by (simp only: split: if_split_asm) auto
    then show ?thesis by (intro exI [of _ "[]"] exI [of _ "hcache w"]) (simp add: drop_evicted_def)
  next
    case False
    then have "w' = drop_evicted (toevict (hcache w)) (hcache w)
        (w\<lparr>hcache := snd (cache_put (e_put_mem E) (rpath w) a (szincache c) (hcache w))\<rparr>)"
      using i unfolding into_cache_def by (simp only: de_Morgan_disj if_False case_prod_beta Let_def prod.inject)
    then show ?thesis by blast
  qed
  then obtain ks ch0 ch where w': "w' = drop_evicted ks ch0 (w\<lparr>hcache := ch\<rparr>)" by blast
  show ?thesis
    using drop_evicted_same [of "w\<lparr>hcache := ch\<rparr>" ks ch0] unfolding w' by (simp add: conn_same_def body_ok_def)
qed

lemma domain_socket_kept: "kept w (domain_socket E w)"
  by (simp add: domain_socket_def kept_def conn_same_def body_ok_def throw_oops_def Let_def split: option.split)

lemma kept_files: "kept (w\<lparr>files := f\<rparr>) r = kept w r" "kept (w\<lparr>hcache := ch\<rparr>) r = kept w r"
  by (simp_all add: kept_def conn_same_def body_ok_def)

lemma put_case_kept: "kept w (put_case E w)"
proof -
  let ?p = "origin_putorpost (e_zlib E) (e_fsys E) (rpath w) (inbody w) (cl_content_enc w)
    (if meth w = Some POST then ''a'' else ''w'') (files w (rpath w))"
  have thr: "kept w (throw_oops st (w\<lparr>files := f\<rparr>))" "kept w (Some e, w\<lparr>files := f\<rparr>)"
      "kept w (domain_socket E (w\<lparr>files := f\<rparr>))" "kept w (throw_oops st (w\<lparr>files := f, hcache := ch\<rparr>))" for st e f ch
    using kept_throw [of "w\<lparr>files := f\<rparr>"] kept_throw [of "w\<lparr>files := f, hcache := ch\<rparr>"]
      domain_socket_kept [of "w\<lparr>files := f\<rparr>"] by (simp_all only: kept_files)
  show ?thesis
  proof (cases ?p)
    case None
    then show ?thesis by (simp add: put_case_def)
  next
    case (Some q)
    obtain r f where q: "q = (r, f)" by fastforce
    show ?thesis using Some q thr by (cases r) (simp_all add: put_case_def Let_def del: kept_throw)
  qed
qed

lemma delete_case_kept: "kept w (delete_case E w)"
  by (simp add: delete_case_def origin_unlink_None)

lemma new_entry_kept:
  assumes "unat (szincache c) \<le> length (ebuf c)" and "kept (new_entry c w) r"
  shows "kept w r"
  using assms entries_ok_upd(1) [of "eheap w" c "enext w"]
  by (intro kept_trans [OF assms(2)]) (auto simp: new_entry_def conn_same_def body_ok_def)

lemma kept_fields: "kept (w\<lparr>resp_is_cached := b\<rparr>) r = kept w r" "kept (w\<lparr>cptr := p\<rparr>) r = kept w r"
  by (simp_all add: kept_def conn_same_def body_ok_def)

lemma dir_case_kept: "kept w (dir_case E w)"
proof -
  obtain e r where d: "origin_dirtoHTML (e_zlib E) (e_fsys E) (rpath w) None = (e, r)" by fastforce
  have "kept w (respond E ((new_entry (dir_headers E (stat w) c) w)\<lparr>resp_is_cached := False\<rparr>))" if "r = Some c" for c
  proof (rule new_entry_kept)
    show "unat (szincache (dir_headers E (stat w) c)) \<le> length (ebuf (dir_headers E (stat w) c))"
      using dirtoHTML_ok d that by simp
    show "kept (new_entry (dir_headers E (stat w) c) w)
        (respond E ((new_entry (dir_headers E (stat w) c) w)\<lparr>resp_is_cached := False\<rparr>))"
      using respond_kept kept_fields(1) by blast
  qed
  then show ?thesis using d by (cases r) (simp_all add: dir_case_def)
qed

lemma file_case_kept:
  assumes "unat (szincache c) \<le> length (ebuf c)"
  shows "kept w (let (ok, v) = into_cache E a c (new_entry c w) in respond E (v\<lparr>resp_is_cached := ok\<rparr>))"
proof -
  obtain ok v where i: "into_cache E a c (new_entry c w) = (ok, v)" by fastforce
  have "kept v (respond E (v\<lparr>resp_is_cached := ok\<rparr>))" using respond_kept kept_fields(1) by blast
  then have "kept (new_entry c w) (respond E (v\<lparr>resp_is_cached := ok\<rparr>))"
    using into_cache_same [OF i] by (auto intro: kept_trans)
  then show ?thesis using i new_entry_kept [OF assms] by simp
qed

lemma fetched_kept:
  assumes "\<And>c. res = Some c \<Longrightarrow> unat (szincache c) \<le> length (ebuf c)"
  shows "kept w (fetched E err res w)"
proof (cases "err = E0")
  case True
  have "kept w (Some UB, w\<lparr>cptr := None\<rparr>)" by (simp add: kept_def conn_same_def)
  then show ?thesis
    using True file_case_kept [of "file_headers E (stat w) (rpath w) c" for c] assms
    by (cases res) (simp_all add: fetched_def Let_def)
next
  case False
  let ?w = "w\<lparr>cptr := None\<rparr>"
  have "kept w (throw_oops st ?w)" "kept w (dir_case E ?w)" "kept w (domain_socket E ?w)" for st
    using kept_throw(1) [of ?w] dir_case_kept [of ?w] domain_socket_kept [of ?w] by (simp_all only: kept_fields)
  then show ?thesis using False by (simp add: fetched_def Let_def del: kept_throw)
qed

lemma ask_origin_kept: "kept w (ask_origin E w)"
proof (cases "origin_request (e_zlib E) (e_fsys E) (rpath w)")
  case (Some r)
  show ?thesis
  proof (cases r)
    case (Inr p)
    then obtain err res where p: "r = Inr (err, res)" by (cases p) simp
    have "kept w (fetched E err res w)"
      using origin_request_ok Some p by (intro fetched_kept) simp
    then show ?thesis using Some p by (simp add: ask_origin_def)
  qed (use Some in \<open>simp add: ask_origin_def\<close>)
qed (simp add: ask_origin_def)

lemma get_case_kept: "kept w (get_case E w)"
proof -
  obtain hit r where f: "from_cache E w = (hit, r)" by (cases "from_cache E w")
  have "kept (v\<lparr>resp_is_cached := hit\<rparr>) (if hit then respond E (v\<lparr>resp_is_cached := hit\<rparr>)
      else if cc_isset only_if_cached (cl_cc (v\<lparr>resp_is_cached := hit\<rparr>)) then throw_oops Gateway_Timeout (v\<lparr>resp_is_cached := hit\<rparr>)
      else ask_origin E (v\<lparr>resp_is_cached := hit\<rparr>))" for v
    by (simp only: respond_kept ask_origin_kept kept_throw if_True if_False split: if_split) simp
  moreover have "kept w r" using from_cache_kept [of w E] f by simp
  ultimately show ?thesis
    unfolding get_case_def f Let_def prod.case by (intro kept_andthen) (simp_all only: kept_fields)
qed

lemma prepare_kept: "kept w (prepare_2616 E w)"
  unfolding prepare_2616_def
  by (intro kept_andthen browse_kept)
    (simp add: put_case_kept delete_case_kept get_case_kept)

text \<open>The hooks of this class keep the contract of the main loop.\<close>

interpretation rfc: server_hooks own_2616 "prepare_2616 E" "on_oops_2616 E" reset_2616
proof
  fix w w' :: h2616 and e st
  show "prepare_2616 E w = (e, w') \<Longrightarrow> conn_same w w'"
    using prepare_kept [of w E] by (simp add: kept_def)
  show "own_2616 (hwork.more w) \<Longrightarrow> prepare_2616 E w = (None, w') \<Longrightarrow> body_ok w \<Longrightarrow> body_ok w'"
    using prepare_kept [of w E] by (simp add: kept_def)
  show "own_2616 (hwork.more w) \<Longrightarrow> prepare_2616 E w = (e, w') \<Longrightarrow> own_2616 (hwork.more w')"
    using prepare_kept [of w E] by (simp add: kept_def)
  show "conn_same w (on_oops_2616 E st w)" "own_2616 (hwork.more w) \<Longrightarrow> own_2616 (hwork.more (on_oops_2616 E st w))"
    by (simp_all add: on_oops_2616_def push_out_def conn_same_def)
  show "conn_same w (reset_2616 w)" "own_2616 (hwork.more w) \<Longrightarrow> own_2616 (hwork.more (reset_2616 w))"
    using unget_path_same [of w]
    by (auto simp: reset_2616_def conn_same_def entries_ok_upd Let_def split: option.split)
qed

end
