(* ===== verification/HTTP_2616_Requests.thy ===== *)
theory HTTP_2616_Requests
  imports HTTP_2616_Server_Work
begin

text \<open>
  What answering a request does, from \<open>prepare_response\<close> to \<open>reset\<close>: the bytes served, the
  references to cache entries and the entries in memory.
\<close>

section \<open>What the cache gives up\<close>

text \<open>Between the tables \<open>t\<close> and \<open>t'\<close> only unreferenced entries under handles in \<open>ks\<close> have gone.\<close>

definition only_evicted :: "'h set \<Rightarrow> ('h \<Rightarrow> 's entry option) \<Rightarrow> ('h \<Rightarrow> 's entry option) \<Rightarrow> bool" where
  "only_evicted ks t t' \<longleftrightarrow> (\<forall>k. t' k = t k \<or>
     k \<in> ks \<and> t' k = None \<and> (\<exists>e. t k = Some e \<and> refcnt e = 0))"

lemma only_evicted_refl [simp]: "only_evicted ks t t"
  by (simp add: only_evicted_def)

lemma only_evicted_trans:
  "only_evicted ks t t1 \<Longrightarrow> only_evicted ks' t1 t2 \<Longrightarrow> ks' \<subseteq> ks \<Longrightarrow> only_evicted ks t t2"
  unfolding only_evicted_def by (metis subsetD)

lemma cs_evict_only: "only_evicted {h} (table c) (table (snd (cs_evict h c)))"
  by (auto simp: only_evicted_def cs_evict_def split: option.split)

lemma evict_any_only:
  "only_evicted (set (toevict c)) (table c) (table (snd (evict_any c))) \<and>
   set (toevict (snd (evict_any c))) \<subseteq> set (toevict c)"
proof (induction c rule: evict_any.induct)
  case (1 c)
  show ?case
  proof (cases "toevict c")
    case Nil
    then show ?thesis by (subst evict_any.simps, subst (2) evict_any.simps) simp
  next
    case (Cons h hs)
    obtain ev c1 where e: "cs_evict h (cs_pop h c) = (ev, c1)" by fastforce
    have s: "only_evicted {h} (table c) (table c1)" "toevict c1 = removeAll h (toevict c)"
      using cs_evict_only [of h "cs_pop h c"] cs_simps(6) [of h "cs_pop h c"] e by simp_all
    have r: "evict_any c = (if ev then (True, c1) else evict_any c1)"
      using Cons e by (subst evict_any.simps) simp
    show ?thesis
    proof (cases ev)
      case True
      have "only_evicted (set (toevict c)) (table c) (table c1)"
        using only_evicted_trans [OF only_evicted_refl s(1), of "set (toevict c)"] Cons by simp
      then show ?thesis using r True s(2) by auto
    next
      case False
      note ih = 1 [OF Cons e [symmetric] refl False]
      have "only_evicted (set (toevict c)) (table c) (table c1)"
        using only_evicted_trans [OF only_evicted_refl s(1), of "set (toevict c)"] Cons by simp
      then show ?thesis using r False ih s(2) only_evicted_trans [of "set (toevict c)" "table c" "table c1"] by auto
    qed
  qed
qed

lemma put_tryagain_only:
  assumes "put_tryagain mem h s sz c = (ok, c')" and "table c h = None"
  shows "\<exists>t. only_evicted (set (toevict c)) (table c) t \<and> t h = None \<and>
    (if ok then \<exists>e. stuff e = s \<and> refcnt e = 1 \<and> table c' = t(h \<mapsto> e) else table c' = t)"
  using assms
proof (induction mem h s sz c rule: put_tryagain.induct)
  case (1 mem h s sz c)
  obtain full c1 where r: "cs_reserve sz c = (full, c1)" by fastforce
  then have t1: "table c1 = table c" "toevict c1 = toevict c" by (auto simp: cs_reserve_def)
  obtain ev c2 where e: "evict_any (cs_release sz c1) = (ev, c2)" by fastforce
  have t2: "only_evicted (set (toevict c)) (table c) (table c2)" "set (toevict c2) \<subseteq> set (toevict c)"
    using evict_any_only [of "cs_release sz c1"] e t1 by simp_all
  have h2: "table c2 h = None"
    using evict_any_None [of "cs_release sz c1" h] 1(3) e t1 by simp
  show ?case
  proof (cases full)
    case True
    have u: "(if ev then put_tryagain mem h s sz c2 else (False, c2)) = (ok, c')"
      using 1(2) r e True by (subst (asm) put_tryagain.simps) simp
    show ?thesis
    proof (cases ev)
      case evt: True
      then have p: "put_tryagain mem h s sz c2 = (ok, c')" using u by simp
      show ?thesis
        using 1(1) [OF r [symmetric] refl True e [symmetric] refl evt p h2] t2 only_evicted_trans by blast
    next
      case False
      then show ?thesis using u t2(1) h2 by auto
    qed
  next
    case False
    then show ?thesis
      using 1(2,3) r t1
      by (subst (asm) put_tryagain.simps)
        (auto simp: stuff_new_def cs_insert_def cs_already_def split: if_splits
          intro!: exI [of _ "table c"] exI [of _ "\<lparr>stuff = s, refcnt = 1, invalid = False, esz = sz, eid = next_id c1\<rparr>"])
  qed
qed

lemma cache_put_only:
  assumes "cache_put mem h s sz c = (ok, c')"
  shows "\<exists>t. only_evicted (set (toevict c)) (table c) t \<and>
    (if ok then table c h = None \<and> (\<exists>e. stuff e = s \<and> refcnt e = 1 \<and> table c' = t(h \<mapsto> e)) else table c' = t)"
  using assms put_tryagain_only [of mem h s sz c ok c']
  by (auto simp: cache_put_def cs_already_def split: if_splits intro: exI [of _ "table c"])

section \<open>The store\<close>

text \<open>
  The entries in memory are those in the cache and those in \<open>A\<close>, which connections own
  themselves; no entry is in both, or in the cache under two handles.
\<close>

definition cached :: "(string, nat) cache \<Rightarrow> nat set" where
  "cached c = {a. \<exists>k. cache_lookup k c = Some a}"

definition store_ok :: "nat set \<Rightarrow> h2616 \<Rightarrow> bool" where
  "store_ok A w \<longleftrightarrow> dom (eheap w) = A \<union> cached (hcache w) \<and> A \<inter> cached (hcache w) = {} \<and>
     (\<forall>a \<in> dom (eheap w). a < enext w) \<and> (\<forall>k. 0 \<le> cache_refs k (hcache w)) \<and>
     (\<forall>k k' a. cache_lookup k (hcache w) = Some a \<longrightarrow> cache_lookup k' (hcache w) = Some a \<longrightarrow> k' = k)"

text \<open>The references a connection and the others hold, and the entry it owns.\<close>

definition refs :: "h2616 \<Rightarrow> string \<Rightarrow> int" where
  "refs w k = cache_refs k (hcache w)"

definition owned :: "h2616 \<Rightarrow> nat set" where
  "owned w = (if resp_is_cached w then {} else set_option (cptr w))"

text \<open>
  In the middle of a request: besides the references \<open>R\<close> and the entries \<open>A\<close> of the others there
  are those of this connection.
\<close>

definition balanced :: "(string \<Rightarrow> int) \<Rightarrow> nat set \<Rightarrow> h2616 \<Rightarrow> bool" where
  "balanced R A w \<longleftrightarrow> store_ok (A \<union> owned w) w \<and> owned w \<inter> A = {} \<and>
     (\<forall>k. refs w k = R k + (if resp_is_cached w \<and> k = rpath w then 1 else 0))"

definition same_store :: "h2616 \<Rightarrow> h2616 \<Rightarrow> bool" where
  "same_store w w' \<longleftrightarrow> dom (eheap w') = dom (eheap w) \<and> enext w' = enext w \<and>
     (\<forall>k. cache_lookup k (hcache w') = cache_lookup k (hcache w) \<and> cache_refs k (hcache w') = cache_refs k (hcache w))"

definition same_entry :: "h2616 \<Rightarrow> h2616 \<Rightarrow> bool" where
  "same_entry w w' \<longleftrightarrow> resp_is_cached w' = resp_is_cached w \<and> cptr w' = cptr w \<and> rpath w' = rpath w"

lemma store_ok_cong: "same_store w w' \<Longrightarrow> store_ok A w' = store_ok A w"
  by (simp add: same_store_def store_ok_def cached_def)

lemma balanced_cong: "same_store w w' \<Longrightarrow> same_entry w w' \<Longrightarrow> balanced R A w' = balanced R A w"
  using store_ok_cong [of w w'] by (simp add: balanced_def same_entry_def owned_def refs_def same_store_def)

text \<open>An evicted entry takes its object with it.\<close>

lemma drop_evicted_heap:
  "eheap (drop_evicted ks c w) = (\<lambda>a. if \<exists>k \<in> set ks. cache_lookup k c = Some a \<and> cache_lookup k (hcache w) = None
     then None else eheap w a)"
proof -
  have "fold (\<lambda>k h. case table c k of Some e \<Rightarrow> if t k = None then h(stuff e := None) else h | None \<Rightarrow> h) ks h =
      (\<lambda>a. if \<exists>k \<in> set ks. map_option stuff (table c k) = Some a \<and> t k = None then None else h a)"
    for h and t :: "string \<Rightarrow> nat entry option"
    by (induction ks arbitrary: h) (auto simp: fun_eq_iff split: option.split)
  then show ?thesis by (simp add: drop_evicted_def cache_lookup_def)
qed

lemma drop_evicted_other:
  "hcache (drop_evicted ks c w) = hcache w" "enext (drop_evicted ks c w) = enext w"
  "resp_is_cached (drop_evicted ks c w) = resp_is_cached w" "cptr (drop_evicted ks c w) = cptr w"
  "rpath (drop_evicted ks c w) = rpath w" "meth (drop_evicted ks c w) = meth w"
  "cl_cc (drop_evicted ks c w) = cl_cc w" "cl_accept_enc (drop_evicted ks c w) = cl_accept_enc w"
  "outbuf (drop_evicted ks c w) = outbuf w"
  by (simp_all add: drop_evicted_def)

lemma store_evict:
  assumes "store_ok A w"
    and "\<And>k. cache_lookup k c = cache_lookup k (hcache w) \<or> k \<in> set ks \<and> cache_lookup k c = None"
    and "\<And>k. 0 \<le> cache_refs k c"
  shows "store_ok A (drop_evicted ks (hcache w) (w\<lparr>hcache := c\<rparr>))"
proof -
  let ?gone = "{a. \<exists>k \<in> set ks. cache_lookup k (hcache w) = Some a \<and> cache_lookup k c = None}"
  have c: "cached c = cached (hcache w) - ?gone"
  proof (intro set_eqI iffI)
    fix a assume "a \<in> cached c"
    then obtain k where k: "cache_lookup k c = Some a" by (auto simp: cached_def)
    then have l: "cache_lookup k (hcache w) = Some a" using assms(2) [of k] by simp
    have "\<not> (\<exists>k' \<in> set ks. cache_lookup k' (hcache w) = Some a \<and> cache_lookup k' c = None)"
    proof
      assume "\<exists>k' \<in> set ks. cache_lookup k' (hcache w) = Some a \<and> cache_lookup k' c = None"
      then obtain k' where k': "cache_lookup k' (hcache w) = Some a" "cache_lookup k' c = None" by blast
      have "k' = k" using assms(1) k'(1) l unfolding store_ok_def by blast
      then show False using k k'(2) by simp
    qed
    then show "a \<in> cached (hcache w) - ?gone" using l by (auto simp: cached_def)
  next
    fix a assume a: "a \<in> cached (hcache w) - ?gone"
    then obtain k where "cache_lookup k (hcache w) = Some a" by (auto simp: cached_def)
    then show "a \<in> cached c" using a assms(2) [of k] by (auto simp: cached_def)
  qed
  have g: "?gone \<subseteq> cached (hcache w)" by (auto simp: cached_def)
  have d: "dom (eheap (drop_evicted ks (hcache w) (w\<lparr>hcache := c\<rparr>))) = dom (eheap w) - ?gone"
    unfolding drop_evicted_heap by (fastforce simp: dom_def split: if_splits)
  have inj: "k' = k" if "cache_lookup k c = Some a" "cache_lookup k' c = Some a" for k k' a
  proof -
    have "cache_lookup k (hcache w) = Some a" "cache_lookup k' (hcache w) = Some a"
      using that assms(2) [of k] assms(2) [of k'] by auto
    then show ?thesis using assms(1) unfolding store_ok_def by blast
  qed
  have w: "dom (eheap w) = A \<union> cached (hcache w)" "A \<inter> cached (hcache w) = {}" "\<forall>a \<in> dom (eheap w). a < enext w"
    using assms(1) unfolding store_ok_def by blast+
  have "dom (eheap w) - ?gone = A \<union> cached c" "A \<inter> cached c = {}" using w g unfolding c by blast+
  moreover have "\<forall>a \<in> dom (eheap w) - ?gone. a < enext w" using w(3) by blast
  ultimately show ?thesis
    unfolding store_ok_def drop_evicted_other d using inj assms(3) by simp
qed

lemma store_insert:
  assumes "store_ok (insert a A) w" and "a \<notin> A" and "cache_lookup h (hcache w) = None" and "cache_lookup h c = Some a"
    and "\<And>k. k \<noteq> h \<Longrightarrow> cache_lookup k c = cache_lookup k (hcache w)"
    and "\<And>k. 0 \<le> cache_refs k c"
  shows "store_ok A (w\<lparr>hcache := c\<rparr>)"
proof -
  have c: "cached c = insert a (cached (hcache w))"
  proof (intro set_eqI iffI)
    fix b assume "b \<in> cached c"
    then obtain k where "cache_lookup k c = Some b" by (auto simp: cached_def)
    then show "b \<in> insert a (cached (hcache w))" using assms(4) assms(5) [of k] by (cases "k = h") (auto simp: cached_def)
  next
    fix b assume "b \<in> insert a (cached (hcache w))"
    then consider "b = a" | k where "cache_lookup k (hcache w) = Some b" by (auto simp: cached_def)
    then show "b \<in> cached c"
    proof cases
      case 2
      then have "k \<noteq> h" using assms(3) by auto
      then have "cache_lookup k c = Some b" using 2 assms(5) by simp
      then show ?thesis by (auto simp: cached_def)
    qed (use assms(4) in \<open>auto simp: cached_def\<close>)
  qed
  have a: "a \<notin> cached (hcache w)" using assms(1) by (auto simp: store_ok_def)
  have inj: "k' = k" if "cache_lookup k c = Some b" "cache_lookup k' c = Some b" for k k' b
  proof -
    have n: "cache_lookup k'' (hcache w) \<noteq> Some a" for k'' using a by (auto simp: cached_def)
    consider "k = h" "k' = h" | "k = h" "k' \<noteq> h" | "k \<noteq> h" "k' = h" | "k \<noteq> h" "k' \<noteq> h" by blast
    then show ?thesis
    proof cases
      case 4
      then have "cache_lookup k (hcache w) = Some b" "cache_lookup k' (hcache w) = Some b"
        using that assms(5) [of k] assms(5) [of k'] by simp_all
      then show ?thesis using assms(1) unfolding store_ok_def by blast
    qed (use that assms(4) assms(5) [of k] assms(5) [of k'] n in simp_all)
  qed
  have "dom (eheap w) = A \<union> cached c" "A \<inter> cached c = {}" "\<forall>a \<in> dom (eheap w). a < enext w"
    using assms(1,2) c unfolding store_ok_def by auto
  then show ?thesis using inj assms(6) unfolding store_ok_def by simp
qed

section \<open>Giving back\<close>

lemma only_evicted_lookup:
  "only_evicted ks (table c) (table c') \<Longrightarrow>
     (cache_lookup k c' = cache_lookup k c \<or> k \<in> ks \<and> cache_lookup k c' = None) \<and>
     cache_refs k c' = cache_refs k c"
  unfolding only_evicted_def cache_lookup_def cache_refs_def by (metis option.case option.map(1))

lemma unget_effect:
  assumes "table c h = Some e"
  shows "only_evicted {h} ((table c)(h \<mapsto> e\<lparr>refcnt := refcnt e - 1\<rparr>)) (table (cache_unget h c))"
  using assms by (auto simp: only_evicted_def cache_unget_def cs_unget_def cs_evict_def cs_enq_def Let_def
      split: option.split prod.split)

lemma unget_balance:
  assumes "store_ok A w" and "0 < cache_refs (rpath w) (hcache w)"
  shows "store_ok A (unget_path w) \<and>
    refs (unget_path w) k = refs w k - (if k = rpath w then 1 else 0)"
proof -
  let ?c = "cache_unget (rpath w) (hcache w)"
  obtain e where e: "table (hcache w) (rpath w) = Some e"
    using assms(2) by (auto simp: cache_refs_def split: option.splits)
  let ?c1 = "(hcache w)\<lparr>table := (table (hcache w))(rpath w \<mapsto> e\<lparr>refcnt := refcnt e - 1\<rparr>)\<rparr>"
  have o: "only_evicted {rpath w} (table ?c1) (table ?c)" using unget_effect [OF e] by simp
  have l: "cache_lookup k ?c1 = cache_lookup k (hcache w)" for k using e by (simp add: cache_lookup_def)
  have r: "cache_refs k ?c = refs w k - (if k = rpath w then 1 else 0)" for k
    using only_evicted_lookup [OF o, of k] e by (auto simp: cache_refs_def refs_def)
  have "0 \<le> cache_refs k ?c" for k using r [of k] assms by (auto simp: store_ok_def refs_def)
  then have "store_ok A (drop_evicted [rpath w] (hcache w) (w\<lparr>hcache := ?c\<rparr>))"
    using only_evicted_lookup [OF o] unfolding l by (intro store_evict [OF assms(1)]) simp_all
  then show ?thesis using r by (simp add: unget_path_def refs_def drop_evicted_other)
qed

text \<open>After \<open>reset\<close> the connection holds nothing, if before it held what its fields say.\<close>

lemma reset_balance:
  assumes "balanced R A w" and "\<And>k. 0 \<le> R k"
  shows "store_ok A (reset_2616 w) \<and> refs (reset_2616 w) = R \<and> cptr (reset_2616 w) = None"
proof (cases "resp_is_cached w")
  case True
  then have "store_ok A w" and r: "refs w k = R k + (if k = rpath w then 1 else 0)" for k
    using assms(1) by (auto simp: balanced_def owned_def)
  then have u: "store_ok A (unget_path w)" "refs (unget_path w) = R"
    using unget_balance [of A w] assms(2) [of "rpath w"] by (auto simp: refs_def fun_eq_iff)
  have "same_store (unget_path w) (reset_2616 w)" using True by (simp add: same_store_def reset_2616_def Let_def)
  then show ?thesis using u store_ok_cong True by (simp add: reset_2616_def refs_def fun_eq_iff Let_def)
next
  case False
  then have r: "refs w = R" and s: "store_ok (A \<union> set_option (cptr w)) w" "set_option (cptr w) \<inter> A = {}"
    using assms(1) by (auto simp: balanced_def owned_def)
  have e: "refs (reset_2616 w) = R" using False r
    by (auto simp: reset_2616_def refs_def fun_eq_iff Let_def split: option.split)
  show ?thesis
  proof (cases "cptr w")
    case None
    have "same_store w (reset_2616 w)" using None False by (simp add: same_store_def reset_2616_def Let_def)
    then show ?thesis using s None e store_ok_cong False by (simp add: reset_2616_def Let_def)
  next
    case (Some a)
    then have "store_ok A (reset_2616 w)"
      using s False unfolding store_ok_def by (auto simp: reset_2616_def Let_def)
    then show ?thesis using e Some False by (simp add: reset_2616_def Let_def)
  qed
qed

section \<open>Answering\<close>

text \<open>What holds when the main loop goes on: nothing was thrown, or a status to be answered.\<close>

definition settled :: "('w \<Rightarrow> bool) \<Rightarrow> 'w thrown \<Rightarrow> bool" where
  "settled P r \<longleftrightarrow> (fst r = None \<or> (\<exists>st. fst r = Some (HTTP_oops st))) \<longrightarrow> P (snd r)"

lemma settled_andthen:
  "settled P r \<Longrightarrow> (\<And>v. fst r = None \<Longrightarrow> P v \<Longrightarrow> settled Q (f v)) \<Longrightarrow> (\<And>v. P v \<Longrightarrow> Q v) \<Longrightarrow> settled Q (andthen r f)"
  by (cases r; cases "fst r") (auto simp: settled_def andthen_def)

lemma settled_simps [simp]:
  "settled P (None, w) = P w" "settled P (throw_oops st w) = P w" "settled P (no_return w)" "settled P (Some UB, w)"
  by (simp_all add: settled_def throw_oops_def no_return_def)

lemma settledI: "P (snd r) \<Longrightarrow> settled P r"
  by (simp add: settled_def)

text \<open>Reading the headers touches neither the cache nor the entries, and sets one directive.\<close>

definition entries :: "h2616 \<Rightarrow> (nat \<Rightarrow> centry option) \<times> (string, nat) cache \<times> nat \<times> bool \<times> nat option" where
  "entries w = (eheap w, hcache w, enext w, resp_is_cached w, cptr w)"

lemma andthen_keeps: "(\<And>v. F (snd (f v)) = F v) \<Longrightarrow> F (snd (andthen r f)) = F (snd r)"
  by (cases r; cases "fst r") (auto simp: andthen_def)

lemma browse_parts_entries:
  "entries (snd (browse_reqln E v)) = entries v" "entries (snd (browse_accept_enc v)) = entries v"
  "entries (snd (browse_content_enc v)) = entries v" "entries (snd (browse_expect v)) = entries v"
  "entries (browse_max_forwards v) = entries v" "entries (browse_connection v) = entries v"
  "entries (browse_cache_control v) = entries v"
  by (simp_all add: entries_def browse_reqln_def browse_accept_enc_def browse_content_enc_def browse_expect_def
      browse_max_forwards_def browse_connection_def browse_cache_control_def set_hdr_def throw_oops_def
      Let_def case_prod_beta split: option.split)

lemma browse_entries: "entries (snd (browse_req E w)) = entries w"
  by (simp add: browse_req_def andthen_keeps [where F = entries] browse_parts_entries)

definition one_directive :: "h2616 \<Rightarrow> bool" where
  "one_directive w \<longleftrightarrow> flags (cl_cc w) = 0 \<or> (\<exists>d. flags (cl_cc w) = cc_bit d)"

lemma browse_parts_cc:
  "cl_cc (snd (browse_reqln E v)) = cl_cc v" "cl_cc (snd (browse_accept_enc v)) = cl_cc v"
  "cl_cc (snd (browse_content_enc v)) = cl_cc v" "cl_cc (snd (browse_expect v)) = cl_cc v"
  "cl_cc (browse_max_forwards v) = cl_cc v" "cl_cc (browse_connection v) = cl_cc v"
  by (simp_all add: browse_reqln_def browse_accept_enc_def browse_content_enc_def browse_expect_def
      browse_max_forwards_def browse_connection_def set_hdr_def throw_oops_def
      Let_def case_prod_beta split: option.split)

lemma cache_control_one: "flags (cl_cc v) = 0 \<Longrightarrow> one_directive (browse_cache_control v)"
  unfolding browse_cache_control_def one_directive_def
  by (auto simp: cc_set_def set_hdr_def Let_def case_prod_beta simp del: cc_bit.simps)

lemma browse_one: "flags (cl_cc w) = 0 \<Longrightarrow> one_directive (snd (browse_req E w))"
proof -
  assume "flags (cl_cc w) = 0"
  then have c: "one_directive (browse_cache_control v)" if "cl_cc v = cl_cc w" for v
    using that cache_control_one by simp
  let ?g = "\<lambda>v. andthen (browse_expect v) (\<lambda>v. (None, browse_max_forwards v))"
  let ?h = "\<lambda>v. andthen (browse_content_enc (browse_connection (browse_cache_control v))) ?g"
  have "cl_cc (snd (?g v)) = cl_cc v" for v
    by (simp add: andthen_keeps [where F = cl_cc] browse_parts_cc)
  then have "cl_cc (snd (?h v)) = cl_cc (browse_cache_control v)" for v
    by (simp add: andthen_keeps [where F = cl_cc] browse_parts_cc)
  then have h: "one_directive (snd (?h v))" if "cl_cc v = cl_cc w" for v
    using c [OF that] by (simp add: one_directive_def)
  have w: "one_directive v" if "cl_cc v = cl_cc w" for v
    using that \<open>flags (cl_cc w) = 0\<close> by (simp add: one_directive_def)
  have i: "one_directive (snd (andthen (browse_accept_enc v) ?h))" if "cl_cc v = cl_cc w" for v
    using h [of "snd (browse_accept_enc v)"] w [of "snd (browse_accept_enc v)"] that browse_parts_cc(2) [of v]
    by (cases "browse_accept_enc v"; cases "fst (browse_accept_enc v)") (simp_all add: andthen_def)
  show ?thesis
    unfolding browse_req_def
    using i [of "snd (browse_reqln E w)"] w [of "snd (browse_reqln E w)"] browse_parts_cc(1) [of E w]
    by (cases "browse_reqln E w"; cases "fst (browse_reqln E w)") (simp_all add: andthen_def)
qed

lemma cc_bit_AND: "cc_bit d AND cc_bit d' \<noteq> 0 \<longleftrightarrow> d = d'"
  by (cases d; cases d'; simp)

lemma one_directive_excl:
  "one_directive w \<Longrightarrow> cc_isset d (cl_cc w) \<Longrightarrow> cc_isset d' (cl_cc w) \<Longrightarrow> d = d'"
  using cc_bit_AND by (auto simp: one_directive_def cc_isset_def simp del: cc_bit.simps)

lemma lay_out_store:
  "a \<in> dom (eheap w) \<Longrightarrow> same_store w (snd (lay_out E a c w)) \<and> same_entry w (snd (lay_out E a c w))"
  by (auto simp: lay_out_def same_store_def same_entry_def push_out_def split: sum.split)

lemma same_store_trans: "same_store w v \<Longrightarrow> same_store v u \<Longrightarrow> same_store w u"
  by (simp add: same_store_def)

lemma respond_store: "same_store w (snd (respond E w)) \<and> same_entry w (snd (respond E w))"
proof -
  have l: "same_store w (snd (lay_out E a c v)) \<and> same_entry w (snd (lay_out E a c v))"
    if "same_store w v" "same_entry w v" "a \<in> dom (eheap w)" for a c v
    using lay_out_store [of a v E c] that by (auto simp: same_store_def same_entry_def)
  have u: "same_store w (w\<lparr>outbody := b, outbody_sz := n\<rparr>)" "same_entry w (w\<lparr>outbody := b, outbody_sz := n\<rparr>)"
    "same_store w (w\<lparr>uncompressed := x, outbody := b, outbody_sz := n\<rparr>)"
    "same_entry w (w\<lparr>uncompressed := x, outbody := b, outbody_sz := n\<rparr>)"
    "same_store w (w\<lparr>outbody_sz := n\<rparr>)" "same_entry w (w\<lparr>outbody_sz := n\<rparr>)" "same_store w w" "same_entry w w" for b n x
    by (simp_all add: same_store_def same_entry_def)
  show ?thesis
  proof (cases "Option.bind (cptr w) (\<lambda>a. map_option (Pair a) (eheap w a))")
    case None
    then show ?thesis using u by (simp add: respond_def)
  next
    case (Some p)
    then obtain a c where c: "p = (a, c)" "a \<in> dom (eheap w)" by (auto simp: bind_eq_Some_conv)
    note l [OF u(1,2) c(2), simp] l [OF u(3,4) c(2), simp] l [OF u(7,8) c(2), simp]
    show ?thesis using Some c(1) u by (simp add: respond_def throw_oops_def split: option.split)
  qed
qed

lemma domain_socket_store: "same_store w (snd (domain_socket E w)) \<and> same_entry w (snd (domain_socket E w))"
  by (simp add: domain_socket_def throw_oops_def same_store_def same_entry_def Let_def split: option.split)

lemma upd_entry_store: "same_store w (upd_entry a f w)" "same_entry w (upd_entry a f w)"
  by (auto simp: upd_entry_def same_store_def same_entry_def)

lemma advise_store:
  "same_store w (w\<lparr>hcache := cs_advise h (hcache w)\<rparr>)" "same_entry w (w\<lparr>hcache := cs_advise h (hcache w)\<rparr>)"
  by (simp_all add: same_store_def same_entry_def hc.advise_keeps)

text \<open>A connection that holds nothing.\<close>

definition idle :: "(string \<Rightarrow> int) \<Rightarrow> nat set \<Rightarrow> h2616 \<Rightarrow> bool" where
  "idle R A w \<longleftrightarrow> store_ok A w \<and> refs w = R \<and> \<not> resp_is_cached w"

lemma idle_balanced: "idle R A w \<Longrightarrow> cptr w = None \<Longrightarrow> balanced R A w"
  by (auto simp: idle_def balanced_def owned_def)

lemma idle_cong: "same_store w w' \<Longrightarrow> resp_is_cached w' = resp_is_cached w \<Longrightarrow> idle R A w' = idle R A w"
  using store_ok_cong [of w w'] by (auto simp: idle_def refs_def same_store_def fun_eq_iff)

lemma get_effect:
  assumes "cache_get h c = (r, c')"
  shows "r = cache_lookup h c" "cache_lookup k c' = cache_lookup k c"
    "cache_refs k c' = cache_refs k c + (if r \<noteq> None \<and> k = h then 1 else 0)"
  using assms hc.get_result [of h c] hc.get_keeps [of k h c] hc.get_counts [of h c k] hc.get_misses [of h c]
  by (cases "cache_lookup h c"; auto)+

definition stamped :: "h2616 \<Rightarrow> h2616 \<Rightarrow> bool" where
  "stamped w v \<longleftrightarrow> same_store w v \<and> same_entry w v \<and> meth v = meth w \<and> cl_cc v = cl_cc w"

lemma stamped_ops:
  "stamped w w" "stamped w v \<Longrightarrow> stamped w (upd_entry a f v)" "stamped w v \<Longrightarrow> stamped w (v\<lparr>hcache := cs_advise h (hcache v)\<rparr>)"
  using upd_entry_store [of v a f] advise_store [of v h]
  by (auto simp: stamped_def same_store_def same_entry_def upd_entry_def)

text \<open>The three outcomes of asking the cache.\<close>

lemma from_cache_idle:
  assumes "idle R A w" and "one_directive w" and "from_cache E w = (hit, None, v)"
  shows "rpath v = rpath w \<and> meth v = meth w \<and> cl_cc v = cl_cc w \<and>
    (if hit then balanced R A (v\<lparr>resp_is_cached := True\<rparr>)
     else idle R A v \<and> (cc_isset only_if_cached (cl_cc w) \<longrightarrow> cptr v = cptr w))"
proof -
  obtain r ch where g: "cache_get (rpath w) (hcache w) = (r, ch)" by fastforce
  note ge = get_effect [OF g]
  have i: "store_ok A w" "\<not> resp_is_cached w" "refs w = R" using assms(1) by (auto simp: idle_def)
  show ?thesis
  proof (cases "cc_isset no_cache (cl_cc w) \<or> r = None")
    case True
    have "same_store w (w\<lparr>hcache := ch\<rparr>)" if "r = None" using ge that by (simp add: same_store_def)
    then show ?thesis using True g assms(1,3) idle_cong [of w "w\<lparr>hcache := ch\<rparr>"]
      by (auto simp: from_cache_def split: if_splits)
  next
    case False
    then obtain a where a: "r = Some a" by auto
    have nc: "\<not> cc_isset no_cache (cl_cc w)" using False by blast
    let ?w1 = "w\<lparr>hcache := ch, cptr := Some a\<rparr>"
    have s1: "store_ok A ?w1"
      using i(1) ge(2,3) unfolding store_ok_def cached_def by (simp add: ge(2) add_nonneg_nonneg)
    have r1: "refs ?w1 k = R k + (if k = rpath w then 1 else 0)" for k
      using ge(3) a i(3) by (auto simp: refs_def)
    have R0: "0 \<le> R k" for k using i(1,3) by (auto simp: store_ok_def refs_def)
    obtain c where c: "eheap w a = Some c"
      using assms(3) g a nc by (cases "eheap w a") (auto simp: from_cache_def)
    let ?ok = "acceptable (cl_cc w) (e_now E) (origin_validate (e_fsys E) (rpath w) (Some c)) c"
    show ?thesis
    proof (cases "?ok = Some True")
      case True
      have "balanced R A (v\<lparr>resp_is_cached := True\<rparr>) \<and> rpath v = rpath w \<and> meth v = meth w \<and> cl_cc v = cl_cc w \<and> hit"
      proof -
        let ?w2 = "upd_entry a (entry_hdr Age (show_int (current_age (e_now E) c))) ?w1"
        have v: "hit" "v = (if response_is_fresh (e_now E) c then ?w2
            else upd_entry a (entry_hdr Warning stale_warning) (?w2\<lparr>hcache := cs_advise (rpath w) (hcache ?w2)\<rparr>))"
          using assms(3) g a nc c True by (simp_all add: from_cache_def Let_def)
        have st: "stamped ?w1 ?w2"
          "stamped ?w1 (upd_entry a (entry_hdr Warning stale_warning) (?w2\<lparr>hcache := cs_advise (rpath w) (hcache ?w2)\<rparr>))"
          by (intro stamped_ops)+
        have s: "same_store ?w1 v" "same_entry ?w1 v" "meth v = meth w" "cl_cc v = cl_cc w" "hit"
          using v st by (auto simp: stamped_def)
        have "same_store v (v\<lparr>resp_is_cached := True\<rparr>)" by (simp add: same_store_def)
        then have "store_ok A (v\<lparr>resp_is_cached := True\<rparr>)" using s1 s(1) store_ok_cong by blast
        moreover have "refs v k = R k + (if k = rpath w then 1 else 0)" for k
          using r1 s(1) by (simp add: refs_def same_store_def)
        ultimately show ?thesis using s by (simp add: balanced_def owned_def refs_def same_entry_def)
      qed
      then show ?thesis by simp
    next
      case False
      have "?ok \<noteq> None" using assms(3) g a nc c by (cases ?ok) (simp_all add: from_cache_def Let_def)
      then have ok: "?ok = Some False" using False by auto
      then have no: "?ok = Some False" "v = unget_path ?w1" "\<not> hit"
        using assms(3) g a nc c by (simp_all add: from_cache_def Let_def)
      have "cc_isset cc_min_fresh (cl_cc w) \<or> cc_isset cc_max_age (cl_cc w) \<or> cc_isset cc_max_stale (cl_cc w)"
        using no(1) by (auto simp: acceptable_def split: if_splits)
      then have "\<not> cc_isset only_if_cached (cl_cc w)"
        using one_directive_excl [OF assms(2), of only_if_cached] by blast
      moreover have "store_ok A v" "refs v k = R k" for k
        using unget_balance [OF s1] r1 R0 [of "rpath w"] no(2) by (auto simp: refs_def)
      ultimately show ?thesis
        using no(2,3) i(2) by (simp add: idle_def unget_path_def drop_evicted_other fun_eq_iff)
    qed
  qed
qed

text \<open>A new entry is the connection's own until the cache takes it.\<close>

lemma new_entry_balanced:
  assumes "idle R A w"
  shows "balanced R A (new_entry c w) \<and> owned (new_entry c w) = {enext w} \<and> enext w \<notin> A"
proof -
  have d: "dom (eheap w) = A \<union> cached (hcache w)" "A \<inter> cached (hcache w) = {}" "\<forall>a \<in> dom (eheap w). a < enext w"
    using assms by (auto simp: idle_def store_ok_def)
  then have n: "enext w \<notin> A" "enext w \<notin> cached (hcache w)" by auto
  have "store_ok (insert (enext w) A) (new_entry c w)"
    using assms d n unfolding idle_def store_ok_def new_entry_def by (auto intro: less_SucI)
  then show ?thesis using assms n by (auto simp: balanced_def idle_def owned_def new_entry_def refs_def)
qed

lemma put_effect:
  assumes "cache_put m h a n c = (ok, c')"
  shows "\<exists>t. only_evicted (set (toevict c)) (table c) (table t) \<and>
    (if ok then cache_lookup h c = None \<and> cache_lookup h t = None \<and> cache_lookup h c' = Some a \<and> cache_refs h c' = 1 \<and>
        (\<forall>k. k \<noteq> h \<longrightarrow> cache_lookup k c' = cache_lookup k t \<and> cache_refs k c' = cache_refs k t)
     else \<forall>k. cache_lookup k c' = cache_lookup k t \<and> cache_refs k c' = cache_refs k t)"
proof -
  obtain t where t: "only_evicted (set (toevict c)) (table c) t"
    "if ok then table c h = None \<and> (\<exists>e. stuff e = a \<and> refcnt e = 1 \<and> table c' = t(h \<mapsto> e)) else table c' = t"
    using cache_put_only [OF assms] by blast
  have "t h = None" if "table c h = None" using t(1) that by (metis only_evicted_def option.distinct(1))
  then show ?thesis using t
    by (intro exI [of _ "c\<lparr>table := t\<rparr>"]) (auto simp: cache_lookup_def cache_refs_def)
qed

lemma into_cache_balanced:
  assumes b: "balanced R A w" and own: "owned w = {a}" and "\<not> resp_is_cached w" and "\<And>k. 0 \<le> R k"
    and i: "into_cache E a c w = (ok, v)"
  shows "balanced R A (v\<lparr>resp_is_cached := ok\<rparr>) \<and> rpath v = rpath w \<and> cptr v = cptr w"
proof (cases "meth w \<in> {Some DELETE, Some OPTIONS, Some PUT, Some TRACE} \<or>
    meth w = Some POST \<and> (\<not> use_expires c \<or> expires_value c < e_now E) \<or> cc_isset no_store (cl_cc w)")
  case True
  then have "v = w" "\<not> ok" using i unfolding into_cache_def by (simp only: split: if_split_asm, auto)+
  moreover have "w\<lparr>resp_is_cached := False\<rparr> = w" using assms(3) by simp
  ultimately show ?thesis using b by (simp only: simp_thms)
next
  case False
  obtain ok' c' where p: "cache_put (e_put_mem E) (rpath w) a (szincache c) (hcache w) = (ok', c')" by fastforce
  let ?ks = "toevict (hcache w)"
  have v: "ok = ok'" "v = drop_evicted ?ks (hcache w) (w\<lparr>hcache := c'\<rparr>)"
    using False i p unfolding into_cache_def by (simp_all only: de_Morgan_disj if_False case_prod_beta Let_def prod.inject fst_conv snd_conv)
  obtain t where t: "only_evicted (set ?ks) (table (hcache w)) (table t)"
    and e: "if ok then cache_lookup (rpath w) (hcache w) = None \<and> cache_lookup (rpath w) t = None \<and>
        cache_lookup (rpath w) c' = Some a \<and> cache_refs (rpath w) c' = 1 \<and>
        (\<forall>k. k \<noteq> rpath w \<longrightarrow> cache_lookup k c' = cache_lookup k t \<and> cache_refs k c' = cache_refs k t)
     else \<forall>k. cache_lookup k c' = cache_lookup k t \<and> cache_refs k c' = cache_refs k t"
    using put_effect [OF p] v(1) by blast
  have s: "store_ok (insert a A) w" "a \<notin> A" "refs w = R"
    using b own assms(3) by (auto simp: balanced_def fun_eq_iff)
  note lt = only_evicted_lookup [OF t]
  have rt: "0 \<le> cache_refs k t" for k using lt [of k] s(1) by (auto simp: store_ok_def)
  let ?u = "drop_evicted ?ks (hcache w) (w\<lparr>hcache := t\<rparr>)"
  have u: "store_ok (insert a A) ?u" using lt rt by (intro store_evict [OF s(1)]) auto
  have "refs w (rpath w) = 0" if ok
    using that e by (auto simp: refs_def cache_lookup_def cache_refs_def split: option.splits)
  then have R: "R (rpath w) = 0" if ok using that s(3) by simp
  have heap: "eheap v = eheap ?u"
  proof (rule ext)
    fix b
    have rec: "hcache (w\<lparr>hcache := x\<rparr>) = x" "eheap (w\<lparr>hcache := x\<rparr>) = eheap w" for x by simp_all
    have "(\<exists>k \<in> set ?ks. cache_lookup k (hcache w) = Some b \<and> cache_lookup k c' = None) \<longleftrightarrow>
        (\<exists>k \<in> set ?ks. cache_lookup k (hcache w) = Some b \<and> cache_lookup k t = None)"
      using e by (intro bex_cong refl) (metis option.distinct(1))
    moreover have "eheap v b = (if \<exists>k \<in> set ?ks. cache_lookup k (hcache w) = Some b \<and> cache_lookup k c' = None
        then None else eheap w b)"
      "eheap ?u b = (if \<exists>k \<in> set ?ks. cache_lookup k (hcache w) = Some b \<and> cache_lookup k t = None
        then None else eheap w b)"
      unfolding v(2) drop_evicted_heap by (simp_all only: rec)
    ultimately show "eheap v b = eheap ?u b" by (simp only:)
  qed
  have same: "rpath v = rpath w" "cptr v = cptr w" "enext v = enext ?u" "hcache v = c'" "hcache ?u = t"
    by (simp_all add: v(2) drop_evicted_other)
  show ?thesis
  proof (cases ok)
    case True
    have "0 \<le> cache_refs k c'" for k using e rt [of k] True by (cases "k = rpath w") auto
    then have "store_ok A (?u\<lparr>hcache := c'\<rparr>)"
      using True e same by (intro store_insert [OF u s(2), where h = "rpath w"]) auto
    moreover have "refs v k = R k + (if k = rpath w then 1 else 0)" for k
      using True e lt [of k] R s(3) by (cases "k = rpath w") (auto simp: refs_def same)
    ultimately show ?thesis
      using True heap same by (simp add: balanced_def owned_def store_ok_def refs_def drop_evicted_other)
  next
    case False
    have "store_ok (insert a A) v"
      using False u e heap same unfolding store_ok_def cached_def by simp
    moreover have "refs v k = R k" for k using False e lt [of k] s(3) by (auto simp: refs_def same)
    moreover have "cptr v = Some a" using own assms(3) same(2) by (cases "cptr w") (auto simp: owned_def)
    ultimately show ?thesis
      using False same s(2) by (simp add: balanced_def owned_def store_ok_def refs_def)
  qed
qed

lemma respond_balanced: "balanced R A w \<Longrightarrow> settled (balanced R A) (respond E w)"
  using respond_store [of w E] balanced_cong by (intro settledI) blast

lemma domain_socket_balanced: "balanced R A w \<Longrightarrow> settled (balanced R A) (domain_socket E w)"
  using domain_socket_store [of w E] balanced_cong by (intro settledI) blast

lemma idle_pos: "idle R A w \<Longrightarrow> 0 \<le> R k"
  by (auto simp: idle_def store_ok_def refs_def)

lemma idle_cptr: "idle R A (w\<lparr>cptr := p\<rparr>) = idle R A w"
  by (simp add: idle_def store_ok_def refs_def fun_eq_iff)

lemma idle_files: "idle R A (w\<lparr>files := f\<rparr>) = idle R A w" "balanced R A (w\<lparr>files := f\<rparr>) = balanced R A w"
  by (simp_all add: idle_def balanced_def owned_def store_ok_def refs_def fun_eq_iff)

lemma dir_case_balanced:
  assumes "idle R A w" and "cptr w = None"
  shows "settled (balanced R A) (dir_case E w)"
proof -
  have "balanced R A w" using assms by (rule idle_balanced)
  moreover have "(new_entry c w)\<lparr>resp_is_cached := False\<rparr> = new_entry c w" for c
    using assms(1) by (simp add: idle_def new_entry_def)
  then have "settled (balanced R A) (respond E ((new_entry c w)\<lparr>resp_is_cached := False\<rparr>))" for c
    using new_entry_balanced [OF assms(1), of c] by (intro respond_balanced) metis
  ultimately show ?thesis by (simp add: dir_case_def Let_def split: option.split prod.split)
qed

lemma fetched_balanced:
  assumes "idle R A w"
  shows "settled (balanced R A) (fetched E err res w)"
proof (cases "err = E0")
  case True
  have "settled (balanced R A) (let (ok, v) = into_cache E (enext w) c (new_entry c w) in respond E (v\<lparr>resp_is_cached := ok\<rparr>))" for c
  proof -
    obtain ok v where i: "into_cache E (enext w) c (new_entry c w) = (ok, v)" by fastforce
    have r: "\<not> resp_is_cached (new_entry c w)" using assms by (simp add: idle_def new_entry_def)
    have p: "\<And>k. 0 \<le> R k" using assms by (rule idle_pos)
    have "balanced R A (v\<lparr>resp_is_cached := ok\<rparr>)"
      using new_entry_balanced [OF assms, of c] into_cache_balanced [where R = R and A = A, OF _ _ r p i] by blast
    then show ?thesis unfolding i by (simp add: respond_balanced)
  qed
  then show ?thesis using True by (cases res) (simp_all add: fetched_def Let_def)
next
  case False
  have i: "idle R A (w\<lparr>cptr := None\<rparr>)" "cptr (w\<lparr>cptr := None\<rparr>) = None" using assms idle_cptr by simp_all
  show ?thesis
    using False idle_balanced [OF i] dir_case_balanced [OF i] domain_socket_balanced [OF idle_balanced [OF i]]
    by (simp add: fetched_def Let_def)
qed

text \<open>Apart from a status nothing but undefined behaviour is thrown.\<close>

lemma request_exc: "origin_request Z F p = Some (Inl e) \<Longrightarrow> e = UB"
proof -
  assume r: "origin_request Z F p = Some (Inl e)"
  have "case y of Inl e \<Rightarrow> e = UB | _ \<Rightarrow> True"
    if "request_attempt Z F p t a = Some y" for Z F p t a y
  proof (rule request_attempt.raw_induct [where P = "\<lambda>Z F p t a y. case y of Inl e \<Rightarrow> e = UB | _ \<Rightarrow> True", OF _ that])
    fix ra Z F p t a y
    assume ih: "\<And>Z F p t a y. ra Z F p t a = Some y \<Longrightarrow> case y of Inl e \<Rightarrow> e = UB | _ \<Rightarrow> True"
      and e: "(case sys_stat F a (c_string p) of
         Inl err \<Rightarrow> Some (Inr (err, None))
       | Inr st \<Rightarrow>
           if st_kind st = Directory then Some (Inr (EISDIR, None))
           else if st_kind st = Socket then Some (Inr (ESPIPE, None))
           else if st_kind st \<noteq> Regular then Some (Inr (EACCES, None))
           else case sys_fopen F a (c_string p) ''r'' of
             Some err \<Rightarrow> Some (Inr (err, None))
           | None \<Rightarrow>
               if \<not> sys_trylock F a then Some (Inr (EACCES, None))
               else if \<not> sys_malloc F (st_size st) then Some (Inr (ENOMEM, None))
               else Option.bind (read_loop F a 0 (st_size st) []) (\<lambda>data.
                 if sys_ferror F a then if st_size st = 0 then ra Z F p t (a + 1) else Some (Inl UB)
                 else if \<not> sys_new F (gzip_bound Z (of_nat (st_size st)) GZIP) then Some (Inr (ENOMEM, None))
                 else Some (Inr (compress_entry Z F data t (sys_time F 1) (st_mtime st))))) = Some y"
    show "case y of Inl e \<Rightarrow> e = UB | _ \<Rightarrow> True"
      using e ih [of Z F p t "a + 1" y]
      by (auto simp: bind_eq_Some_conv split: sum.split_asm option.split_asm if_split_asm)
  qed
  from this [OF r [unfolded origin_request_def]] show ?thesis by simp
qed

lemma put_exc: "origin_putorpost Z F p b c mode f = Some (Inl e, f') \<Longrightarrow> e = UB"
proof -
  assume r: "origin_putorpost Z F p b c mode f = Some (Inl e, f')"
  have "case fst y of Inl e \<Rightarrow> e = UB | _ \<Rightarrow> True"
    if "put_attempt F c p mode a m tmp f = Some y" for F c p mode a m tmp f y
  proof (rule put_attempt.raw_induct [where P = "\<lambda>F c p mode a m tmp f y. case fst y of Inl e \<Rightarrow> e = UB | _ \<Rightarrow> True", OF _ that])
    fix pa F c p mode a m tmp f y
    assume ih: "\<And>F c p mode a m tmp f y. pa F c p mode a m tmp f = Some y \<Longrightarrow> case fst y of Inl e \<Rightarrow> e = UB | _ \<Rightarrow> True"
      and e: "(case sys_fopen F a (c_string p) mode of
        Some err \<Rightarrow> Some (release_tmp c m err, f)
      | None \<Rightarrow>
          let f1 = (if mode = ''w'' then [] else f) in
          if \<not> sys_trylock F a then Some (release_tmp c m EACCES, f1)
          else Option.bind (write_loop F a 0 tmp f1) (\<lambda>f2.
            if sys_ferror F a then pa F c p mode (a + 1) (m \<or> tmp \<noteq> []) [] f2
            else Some (release_tmp c (m \<or> tmp \<noteq> []) E0, f2))) = Some y"
    have rel: "case release_tmp c m x of Inl e \<Rightarrow> e = UB | _ \<Rightarrow> True" for c m x by (simp add: release_tmp_def)
    show "case fst y of Inl e \<Rightarrow> e = UB | _ \<Rightarrow> True"
    proof (cases "sys_fopen F a (c_string p) mode = None \<and> sys_trylock F a \<and> sys_ferror F a")
      case True
      then obtain f2 where "pa F c p mode (a + 1) (m \<or> tmp \<noteq> []) [] f2 = Some y"
        using e by (auto simp: bind_eq_Some_conv Let_def)
      then show ?thesis by (rule ih)
    next
      case False
      then show ?thesis using e rel
        by (auto simp: bind_eq_Some_conv Let_def split: option.split_asm if_split_asm)
    qed
  qed
  then have "put_attempt F c p mode 0 False tmp f = Some (Inl e, f') \<Longrightarrow> e = UB" for tmp by fastforce
  then show ?thesis using r
    by (auto simp: origin_putorpost_def split: sum.split_asm if_split_asm content_coding.split_asm option.split_asm)
qed

lemma from_cache_exc: "from_cache E w = (hit, Some x, v) \<Longrightarrow> x = UB"
  by (auto simp: from_cache_def Let_def split: if_split_asm prod.split_asm option.split_asm bool.split_asm)

lemma ask_origin_balanced: "idle R A w \<Longrightarrow> settled (balanced R A) (ask_origin E w)"
proof -
  assume i: "idle R A w"
  have u: "x = UB" if "origin_request (e_zlib E) (e_fsys E) (rpath w) = Some (Inl x)" for x
    using that by (rule request_exc)
  show ?thesis
    using fetched_balanced [OF i] u
    by (cases "origin_request (e_zlib E) (e_fsys E) (rpath w)")
      (auto simp: ask_origin_def split: sum.split prod.split)
qed

lemma get_case_balanced:
  assumes "idle R A w" and "cptr w = None" and "one_directive w"
  shows "settled (balanced R A) (get_case E w)"
proof -
  obtain hit e v where f: "from_cache E w = (hit, e, v)" by (cases "from_cache E w"; cases "snd (from_cache E w)") auto
  show ?thesis
  proof (cases e)
    case (Some x)
    have "x = UB" using f Some from_cache_exc by blast
    then show ?thesis using f Some by (simp add: get_case_def andthen_def)
  next
    case None
    let ?v = "v\<lparr>resp_is_cached := hit\<rparr>"
    note c = from_cache_idle [OF assms(1,3) f [unfolded None]]
    show ?thesis
    proof (cases hit)
      case True
      then show ?thesis using c f None respond_balanced [of R A ?v E] by (simp add: get_case_def andthen_def)
    next
      case False
      then have "?v = v" using c by (simp add: idle_def)
      then have i: "idle R A ?v" using c False by (simp only: if_False)
      have "balanced R A ?v" if "cc_isset only_if_cached (cl_cc ?v)"
        using idle_balanced [OF i] that c False assms(2) by auto
      then show ?thesis using False f None ask_origin_balanced [OF i, of E] by (simp add: get_case_def andthen_def Let_def)
    qed
  qed
qed

lemma put_case_balanced:
  assumes "idle R A w" and "cptr w = None"
  shows "settled (balanced R A) (put_case E w)"
proof -
  have b: "balanced R A (w\<lparr>files := f\<rparr>)" for f using idle_balanced [OF assms] by (simp add: idle_files)
  have "same_store (w\<lparr>files := f\<rparr>) (w\<lparr>files := f, hcache := cs_advise h (hcache w)\<rparr>)"
      "same_entry (w\<lparr>files := f\<rparr>) (w\<lparr>files := f, hcache := cs_advise h (hcache w)\<rparr>)" for f h
    using advise_store [of "w\<lparr>files := f\<rparr>" h] by simp_all
  then have adv: "balanced R A (w\<lparr>files := f, hcache := cs_advise h (hcache w)\<rparr>)" for f h
    using b balanced_cong by blast
  let ?p = "origin_putorpost (e_zlib E) (e_fsys E) (rpath w) (inbody w) (cl_content_enc w)
    (if meth w = Some POST then ''a'' else ''w'') (files w (rpath w))"
  show ?thesis
  proof (cases ?p)
    case None
    then show ?thesis by (simp add: put_case_def)
  next
    case (Some q)
    obtain r f where q: "q = (r, f)" by (cases q)
    show ?thesis
    proof (cases r)
      case (Inl e)
      then have "e = UB" using put_exc Some q by blast
      then show ?thesis using Some q Inl by (simp add: put_case_def)
    next
      case (Inr err)
      then show ?thesis using Some q b adv domain_socket_balanced [OF b] by (simp add: put_case_def Let_def)
    qed
  qed
qed

lemma prepare_balanced:
  assumes "idle R A w" and "cptr w = None" and "flags (cl_cc w) = 0"
  shows "settled (balanced R A) (prepare_2616 E w)"
  unfolding prepare_2616_def
proof (rule settled_andthen)
  let ?P = "\<lambda>v. idle R A v \<and> cptr v = None \<and> one_directive v"
  have "same_store w (snd (browse_req E w))" "resp_is_cached (snd (browse_req E w)) = resp_is_cached w"
    "cptr (snd (browse_req E w)) = None"
    using browse_entries [of E w] assms(2) by (simp_all add: entries_def same_store_def)
  then have "?P (snd (browse_req E w))"
    using browse_one [OF assms(3)] assms(1) idle_cong [of w "snd (browse_req E w)"] by simp
  then show "settled ?P (browse_req E w)" by (rule settledI)
  fix v assume "?P v"
  then have v: "idle R A v" "cptr v = None" "one_directive v" by simp_all
  then show "balanced R A v" by (intro idle_balanced)
  then show "settled (balanced R A) (if meth v = Some CONNECT then throw_oops Method_Not_Allowed v
      else if meth v = Some POST \<or> meth v = Some PUT then put_case E v
      else if meth v = Some DELETE then delete_case E v else get_case E v)"
    using put_case_balanced [OF v(1,2)] get_case_balanced [OF v] by (simp add: delete_case_def origin_unlink_None)
qed

section \<open>The bytes served\<close>

text \<open>The entry is a compressed file, with no manipulator on.\<close>

definition holds_file :: "zlib \<Rightarrow> centry \<Rightarrow> string \<Rightarrow> bool" where
  "holds_file Z c data \<longleftrightarrow>
     gzip_compress Z (gzip_bound Z (of_nat (length data)) GZIP) data GZIP default_level = Some (ebuf c) \<and>
     szondisk c = of_nat (length data) \<and> szincache c = of_nat (length (ebuf c)) \<and> enc c = gzip \<and>
     length data < 2 ^ 62 \<and> \<not> omit_body c \<and> \<not> asif_uncompressed c"

text \<open>
  The response laid out in \<open>w\<close> to the request in \<open>v\<close>: its head, which announces the length and the
  encoding of the body, and the body, which is the data, or decompresses to them, or is left out.
\<close>

definition answers :: "env \<Rightarrow> status \<Rightarrow> h2616 \<Rightarrow> string \<Rightarrow> h2616 \<Rightarrow> bool" where
  "answers E st v data w \<longleftrightarrow>
     (let b = take (unat (outbody_sz w)) (outbody w);
          plain = (meth v \<noteq> Some HEAD \<and> cl_accept_enc v = identity) in
      (\<exists>fs. outbuf w = str_put (lines_text (status_line st # map field_line
          ([(Content_Length, show_nat (length b)),
            (Content_Encoding, content_coding_put (if plain then identity else gzip)),
            (Server, package_name)] @ fs)) @ CRLF) (outbuf v)) \<and>
      (if meth v = Some HEAD then b = []
       else if plain then b = data
       else gzip_uncompress (e_zlib E) (of_nat (length data)) b GZIP = Some data))"

lemma lay_out_text:
  assumes "estat c = Some st"
  shows "lay_out E a c w = (None, push_out (lines_text (status_line st # map field_line (entry_fields (e_order E (hdrmap c)) c)) @ CRLF)
    (w\<lparr>eheap := (eheap w)(a \<mapsto> c\<lparr>omit_body := False, asif_uncompressed := False\<rparr>)\<rparr>))"
proof -
  let ?ord = "e_order E (hdrmap c)"
  have "entry_put ?ord c = Inr (fst (projr (entry_put ?ord c)), c\<lparr>omit_body := False, asif_uncompressed := False\<rparr>)"
    using assms by (simp add: entry_put_def)
  then have "entry_put ?ord c = Inr (lines_text (status_line st # map field_line (entry_fields ?ord c)) @ CRLF,
      c\<lparr>omit_body := False, asif_uncompressed := False\<rparr>)"
    unfolding entry_put_lines [OF assms] .
  then show ?thesis by (simp only: lay_out_def sum.case prod.case)
qed

lemma respond_answers:
  assumes z: "zlib_ok (e_zlib E)" and a: "cptr v = Some a" "eheap v a = Some c"
    and h: "holds_file (e_zlib E) c data" and st: "estat c = Some st"
    and acc: "cl_accept_enc v \<in> {gzip, identity}" and m: "e_malloc E (of_nat (length data))"
  shows "\<exists>w. respond E v = (None, w) \<and> answers E st v data w \<and> eheap w = eheap v \<and> hcache w = hcache v \<and>
    cptr w = cptr v \<and> resp_is_cached w = resp_is_cached v"
proof -
  have g: "gzip_compress (e_zlib E) (gzip_bound (e_zlib E) (of_nat (length data)) GZIP) data GZIP default_level = Some (ebuf c)"
    and sz: "szondisk c = of_nat (length data)" "szincache c = of_nat (length (ebuf c))" "enc c = gzip" "length data < 2 ^ 62"
    and fl: "\<not> omit_body c" "\<not> asif_uncompressed c"
    using h by (auto simp: holds_file_def)
  have u: "gzip_uncompress (e_zlib E) (of_nat (length data)) (ebuf c) GZIP = Some data"
    by (rule gzip_roundtrip_bound [OF z sz(4) g])
  have l: "length (ebuf c) < 2 ^ 32" using compress_GZIP(2,3) [OF z g] by linarith
  have un: "unat (of_nat (length (ebuf c)) :: size_t) = length (ebuf c)" "unat (of_nat (length data) :: size_t) = length data"
    using l sz(4) by (simp_all add: unsigned_of_nat take_bit_nat_eq_self)
  have clear: "c\<lparr>omit_body := False, asif_uncompressed := False\<rparr> = c" using fl by simp
  have manip: "(entry_manip mp c)\<lparr>omit_body := False, asif_uncompressed := False\<rparr> = c" for mp
    using clear by (cases mp) (simp_all add: entry_manip_def)
  have stm: "estat (entry_manip mp c) = Some st" for mp using st by (simp add: entry_manip_def split: manip.split)
  have same: "(eheap v)(a \<mapsto> c) = eheap v" using a(2) by (simp add: fun_upd_idem)
  define fs where "fs = map (\<lambda>h. (h, the (hdrmap c h))) (e_order E (hdrmap c))"
  let ?T = "\<lambda>n k. lines_text (status_line st # map field_line ([(Content_Length, show_nat n),
      (Content_Encoding, content_coding_put k), (Server, package_name)] @ fs)) @ CRLF"
  let ?w = "\<lambda>n k w. (None, push_out (?T n k) (w\<lparr>eheap := (eheap w)(a \<mapsto> c)\<rparr>))"
  have hd: "lay_out E a (entry_manip as_HEAD c) w = ?w 0 gzip w"
    and id: "lay_out E a (entry_manip as_identity c) w = ?w (length data) identity w" for w
    unfolding lay_out_text [OF stm] manip
    by (simp_all add: fs_def entry_fields_def content_length_of_def entry_manip_def fl sz un)
  have gz: "lay_out E a c w = ?w (length (ebuf c)) gzip w" for w
    unfolding lay_out_text [OF st] clear by (simp add: fs_def entry_fields_def content_length_of_def fl sz un)
  show ?thesis
  proof (cases "meth v = Some HEAD")
    case True
    then have "respond E v = ?w 0 gzip (v\<lparr>outbody := [], outbody_sz := 0\<rparr>)" using a hd by (simp add: respond_def)
    then show ?thesis using True same by (auto simp: answers_def push_out_def Let_def)
  next
    case nh: False
    show ?thesis
    proof (cases "cl_accept_enc v = gzip")
      case True
      then have "respond E v = ?w (length (ebuf c)) gzip (v\<lparr>outbody := ebuf c, outbody_sz := szincache c\<rparr>)"
        using a gz nh by (simp add: respond_def)
      then show ?thesis using True nh same u by (auto simp: answers_def push_out_def Let_def sz un)
    next
      case False
      then have i: "cl_accept_enc v = identity" using acc by simp
      then have "respond E v = ?w (length data) identity
          (v\<lparr>uncompressed := Some data, outbody := data, outbody_sz := of_nat (length data)\<rparr>)"
        using a id nh m u sz by (simp add: respond_def)
      then show ?thesis using i nh same by (auto simp: answers_def push_out_def Let_def un)
    qed
  qed
qed

text \<open>The origin server's answer for a regular file is such an entry.\<close>

definition file_there :: "env \<Rightarrow> string \<Rightarrow> string \<Rightarrow> bool" where
  "file_there E path data \<longleftrightarrow> (\<exists>t ps n. openable (e_fsys E) 0 path ''r'' n t \<and> sys_malloc (e_fsys E) n \<and>
     delivers (e_fsys E) 0 ps \<and> \<not> sys_ferror (e_fsys E) 0 \<and> n \<le> length (concat ps) \<and> data = take n (concat ps) \<and>
     sys_new (e_fsys E) (gzip_bound (e_zlib E) (of_nat n) GZIP) \<and> n < 2 ^ 62 \<and>
     gzip_compress (e_zlib E) (gzip_bound (e_zlib E) (of_nat n) GZIP) data GZIP default_level \<noteq> None)"

lemma file_there_entry:
  assumes "file_there E path data"
  shows "\<exists>c. origin_request (e_zlib E) (e_fsys E) path = Some (Inr (E0, Some c)) \<and> holds_file (e_zlib E) c data"
proof -
  obtain t ps n where f: "openable (e_fsys E) 0 path ''r'' n t" "sys_malloc (e_fsys E) n"
      "delivers (e_fsys E) 0 ps" "\<not> sys_ferror (e_fsys E) 0" "n \<le> length (concat ps)" "data = take n (concat ps)"
      "sys_new (e_fsys E) (gzip_bound (e_zlib E) (of_nat n) GZIP)" "n < 2 ^ 62"
      "gzip_compress (e_zlib E) (gzip_bound (e_zlib E) (of_nat n) GZIP) data GZIP default_level \<noteq> None"
    using assms unfolding file_there_def by blast
  have l: "length data = n" using f(5,6) by simp
  obtain dst where d: "gzip_compress (e_zlib E) (gzip_bound (e_zlib E) (of_nat n) GZIP) data GZIP default_level = Some dst"
    using f(9) by blast
  let ?c = "centry_new (of_nat n) (of_nat (length dst)) (sys_time (e_fsys E) 0) (sys_time (e_fsys E) 1) t dst gzip"
  have "origin_request (e_zlib E) (e_fsys E) path = Some (Inr (E0, Some ?c))"
    using request_attempt_file [OF f(1-4,7), of "sys_time (e_fsys E) 0"] f(5,6) l d
    by (simp add: origin_request_def compress_entry_def Let_def)
  moreover have "holds_file (e_zlib E) ?c data" using d l f(8) by (simp add: holds_file_def centry_new_def)
  ultimately show ?thesis by blast
qed

lemma holds_file_hdrs [simp]:
  "holds_file Z (entry_hdr h v c) data = holds_file Z c data"
  "holds_file Z (file_headers E st p c) data = holds_file Z c data"
  by (simp_all add: holds_file_def file_headers_def entry_hdr_def entry_status_def)

lemma file_headers_status: "estat (file_headers E st p c) = Some st"
  by (simp add: file_headers_def entry_hdr_def entry_status_def)

lemma answers_cong:
  "meth u = meth v \<Longrightarrow> cl_accept_enc u = cl_accept_enc v \<Longrightarrow> outbuf u = outbuf v \<Longrightarrow> answers E st u data w = answers E st v data w"
  by (simp add: answers_def)

lemma from_cache_miss:
  "cc_isset no_cache (cl_cc v) \<or> cache_lookup (rpath v) (hcache v) = None \<Longrightarrow> from_cache E v = (False, None, v)"
proof -
  assume m: "cc_isset no_cache (cl_cc v) \<or> cache_lookup (rpath v) (hcache v) = None"
  have "cache_get (rpath v) (hcache v) = (None, hcache v)" if "cache_lookup (rpath v) (hcache v) = None"
    using hc.get_misses [OF that] hc.get_result [of "rpath v" "hcache v"] that by (metis prod.collapse)
  then show ?thesis using m by (auto simp: from_cache_def)
qed

text \<open>Offering an entry to the cache keeps it in memory, and keeps the request.\<close>

lemma into_cache_keeps:
  assumes "into_cache E a c w = (ok, v)" and "a \<notin> cached (hcache w)"
  shows "eheap v a = eheap w a \<and> meth v = meth w \<and> cl_accept_enc v = cl_accept_enc w \<and> outbuf v = outbuf w \<and>
    cptr v = cptr w \<and> (ok \<longrightarrow> cache_lookup (rpath w) (hcache v) = Some a)"
proof (cases "meth w \<in> {Some DELETE, Some OPTIONS, Some PUT, Some TRACE} \<or>
    meth w = Some POST \<and> (\<not> use_expires c \<or> expires_value c < e_now E) \<or> cc_isset no_store (cl_cc w)")
  case True
  then have "v = w" "\<not> ok" using assms(1) unfolding into_cache_def by (simp only: split: if_split_asm, auto)+
  then show ?thesis by simp
next
  case False
  obtain ok' c' where p: "cache_put (e_put_mem E) (rpath w) a (szincache c) (hcache w) = (ok', c')" by fastforce
  have v: "ok = ok'" "v = drop_evicted (toevict (hcache w)) (hcache w) (w\<lparr>hcache := c'\<rparr>)"
    using False assms(1) p unfolding into_cache_def
    by (simp_all only: de_Morgan_disj if_False case_prod_beta Let_def prod.inject fst_conv snd_conv)
  have "eheap v a = eheap w a"
    using assms(2) unfolding v(2) drop_evicted_heap by (auto simp: cached_def)
  then show ?thesis using put_effect [OF p] by (auto simp: v drop_evicted_other)
qed
text \<open>A server with one file \<open>f\<close>, and a connection on which a request line has arrived.\<close>

definition env1 :: "string list \<Rightarrow> nat \<Rightarrow> env" where
  "env1 ps n = \<lparr>e_zlib = stored, e_fsys = one_file ps n, e_mime = \<lparr>types = (\<lambda>_. None), fallback = ''text/plain''\<rparr>,
     e_date = (\<lambda>t. ''now''), e_now = 100, e_max_uri = npos, e_default_resource = ''index.html'', e_cache_expires = 60,
     e_malloc = (\<lambda>_. True), e_put_mem = True, e_order = (\<lambda>m. filter (\<lambda>h. m h \<noteq> None) all_header),
     e_socket = None, e_schedule = None\<rparr>"

definition conn1 :: "string \<Rightarrow> (header \<times> string) list \<Rightarrow> (string, nat) cache \<Rightarrow> (nat \<Rightarrow> centry option) \<Rightarrow> nat \<Rightarrow> h2616" where
  "conn1 l hs ch h n = (h2616_new 5 ch h n (\<lambda>_. []))\<lparr>inhdrs :=
     fold (\<lambda>(g, v) t. t[header_int g := header_put g @ v]) hs (empty_hdrs[reqln := l])\<rparr>"

definition asks :: "string \<Rightarrow> http_method \<Rightarrow> h2616 \<Rightarrow> h2616" where
  "asks p m w = w\<lparr>meth := Some m, rpath := p\<rparr>"

lemma conn1_simps:
  "rpath (asks p m w) = p" "meth (asks p m w) = Some m" "hcache (asks p m w) = hcache w" "eheap (asks p m w) = eheap w"
  "cl_cc (asks p m w) = cl_cc w" "cl_accept_enc (asks p m w) = cl_accept_enc w" "enext (asks p m w) = enext w"
  "stat (asks p m w) = stat w" "resp_is_cached (asks p m w) = resp_is_cached w" "refs (asks p m w) = refs w"
  "rpath (conn1 l hs ch h n) = []" "hcache (conn1 l hs ch h n) = ch" "eheap (conn1 l hs ch h n) = h"
  "cl_cc (conn1 l hs ch h n) = cc_new" "cl_accept_enc (conn1 l hs ch h n) = identity" "enext (conn1 l hs ch h n) = n"
  "stat (conn1 l hs ch h n) = OK" "resp_is_cached (conn1 l hs ch h n) = False" "cptr (conn1 l hs ch h n) = None"
  "refs (conn1 l hs ch h n) k = cache_refs k ch"
  by (simp_all add: asks_def conn1_def h2616_new_def hwork_new_def hwork.defs h2616.defs refs_def fun_eq_iff)

lemma conn1_browse:
  assumes "parsereqln npos l None [] [] = (None, Some m, p, [])" and "p \<noteq> ''/''"
  shows "browse_req (env1 ps n) ((conn1 l [] ch h k)\<lparr>resp_is_cached := b\<rparr>) =
    (None, asks p m ((conn1 l [] ch h k)\<lparr>resp_is_cached := b\<rparr>))"
proof -
  have e: "empty_hdrs[reqln := l] ! reqln = l" by (simp add: empty_hdrs_def table_simps)
  have "header_int g \<noteq> reqln" for g using header_int_inv(2) [of g] by (simp add: table_simps)
  then have o: "hdr (empty_hdrs[reqln := l]) g = []" for g
    using header_int_inv(2) [of g] by (simp add: hdr_def empty_hdrs_def table_simps)
  show ?thesis
    using assms e o by (simp add: browse_req_def browse_reqln_def browse_accept_enc_def browse_cache_control_def
        browse_connection_def browse_content_enc_def browse_expect_def browse_max_forwards_def andthen_def
        conn1_def h2616_new_def hwork_new_def hwork.defs h2616.defs env1_def asks_def)
qed

lemma conn1_fresh: "(conn1 l hs ch h n)\<lparr>resp_is_cached := False\<rparr> = conn1 l hs ch h n"
  by (simp add: conn1_simps)

lemma reqlns:
  "parsereqln npos ''GET /f HTTP/1.1'' None [] [] = (None, Some GET, ''f'', [])"
  "parsereqln npos ''PUT /f HTTP/1.1'' None [] [] = (None, Some PUT, ''f'', [])"
  by code_simp+

lemma env1_file: "n \<le> length (concat ps) \<Longrightarrow> n < 2 ^ 31 \<Longrightarrow> file_there (env1 ps n) p (take n (concat ps))"
proof -
  assume n: "n \<le> length (concat ps)" "n < 2 ^ 31"
  have u: "unat (of_nat n :: size_t) = n" using n(2) by (simp add: unsigned_of_nat take_bit_nat_eq_self)
  have b: "unat (of_nat n + 256 :: size_t) = n + 256"
    using n(2) u by (subst unat_word_ariths) (simp add: take_bit_nat_eq_self)
  have "gzip_compress stored (gzip_bound stored (of_nat n) GZIP) (take n (concat ps)) GZIP default_level \<noteq> None"
    using n u b uInt_id [of "of_nat n"] uInt_id [of "of_nat n + 256"]
    by (simp add: gzip_compress_def readme_compress2_def gzip_bound_def gzip_hdr_extra_def stored_def Let_def min_def)
  then show ?thesis
    using n one_file_openable [of ps n] unfolding file_there_def
    by (intro exI [of _ 7] exI [of _ ps] exI [of _ n]) (simp add: env1_def one_file_def)
qed

lemma empty_store: "cached (cache_new m) = {}" "store_ok {} (conn1 l hs (cache_new m) (\<lambda>_. None) n)"
  by (simp_all add: cached_def store_ok_def conn1_simps cache_lookup_def cache_refs_def cache_new_def)

text \<open>The cache with the entry of that file in it, to which nobody refers.\<close>

definition entry1 :: centry where
  "entry1 = (entry_status OK (centry_new 5 5 90 90 7 ''hello'' gzip))\<lparr>use_expires := True, expires_value := 200\<rparr>"

definition cache1 :: "(string, nat) cache" where
  "cache1 = (cache_new 100)\<lparr>table := [''f'' \<mapsto> \<lparr>stuff = 0, refcnt = 0, invalid = False, esz = 5, eid = 0\<rparr>],
     toevict := [''f''], cur := 5, next_id := 1\<rparr>"

definition conn2 :: h2616 where
  "conn2 = conn1 ''GET /f HTTP/1.1'' [] cache1 (\<lambda>a. if a = 0 then Some entry1 else None) 1"

lemma conn2_store: "store_ok {} conn2"
proof -
  have l: "cache_lookup k cache1 = (if k = ''f'' then Some 0 else None)" "cache_refs k cache1 = 0" for k
    by (simp_all add: cache1_def cache_lookup_def cache_refs_def cache_new_def)
  then have "cached cache1 = {0}" by (auto simp: cached_def)
  then show ?thesis using l by (auto simp: store_ok_def conn2_def conn1_simps split: if_splits)
qed

lemma conn2_browse: "browse_req (env1 ps n) conn2 = (None, asks ''f'' GET conn2)"
  using conn1_browse [OF reqlns(1), of ps n False cache1 "\<lambda>a. if a = 0 then Some entry1 else None" 1]
  by (simp add: conn2_def conn1_fresh)

text \<open>That connection after it has sent the file from the cache, with a PUT of it; another connection
  refers to the entry.\<close>

definition conn3 :: h2616 where
  "conn3 = (conn1 ''PUT /f HTTP/1.1'' [] (cache1\<lparr>table := [''f'' \<mapsto> \<lparr>stuff = 0, refcnt = 1, invalid = False, esz = 5, eid = 0\<rparr>]\<rparr>)
     (\<lambda>a. if a = 0 then Some entry1 else None) 1)\<lparr>resp_is_cached := True\<rparr>"

lemma conn3_fields:
  "resp_is_cached conn3" "hcache conn3 = cache1\<lparr>table := [''f'' \<mapsto> \<lparr>stuff = 0, refcnt = 1, invalid = False, esz = 5, eid = 0\<rparr>]\<rparr>"
  "inbody (asks p m conn3) = []" "cl_content_enc (asks p m conn3) = identity" "files (asks p m conn3) = (\<lambda>_. [])"
  by (simp_all add: conn3_def conn1_def h2616_new_def hwork_new_def hwork.defs h2616.defs asks_def)

text \<open>A request with header values.\<close>

definition conn4 :: h2616 where
  "conn4 = conn1 ''GET /f HTTP/1.1'' [(Expect, ''100-continue''), (Cache_Control, ''max-age=3600'')] cache1 (\<lambda>_. None) 1"

lemma entry1_holds: "holds_file stored entry1 ''hello''"
proof -
  have "gzip_compress stored (gzip_bound stored 5 GZIP) ''hello'' GZIP default_level = Some ''hello''" by code_simp
  then show ?thesis by (simp add: holds_file_def entry1_def centry_new_def entry_status_def)
qed

section \<open>Properties\<close>



text \<open>C4. A file is served. A GET or HEAD request that names a regular file and is not answered from
  the cache is answered with a head that announces the length and the encoding of the body, and with
  the very bytes of the file, or with a body that decompresses to them where the client takes gzip,
  or with no body for HEAD; and if the entry went into the cache, it is the one that was served.\<close>

theorem get_file_served:
  assumes b: "browse_req E w = (None, v)" and m: "meth v = Some GET \<or> meth v = Some HEAD"
    and miss: "cc_isset no_cache (cl_cc v) \<or> cache_lookup (rpath v) (hcache v) = None"
    and oc: "\<not> cc_isset only_if_cached (cl_cc v)" and s: "store_ok A v"
    and z: "zlib_ok (e_zlib E)" and f: "file_there E (rpath v) data"
    and acc: "cl_accept_enc v \<in> {gzip, identity}" and mem: "e_malloc E (of_nat (length data))"
  shows "\<exists>u c. prepare_2616 E w = (None, u) \<and> answers E (stat v) v data u \<and>
    cptr u = Some (enext v) \<and> eheap u (enext v) = Some c \<and> holds_file (e_zlib E) c data \<and> estat c = Some (stat v) \<and>
    (resp_is_cached u \<longrightarrow> cache_lookup (rpath v) (hcache u) = Some (enext v))"
proof -
  obtain c0 where c0: "origin_request (e_zlib E) (e_fsys E) (rpath v) = Some (Inr (E0, Some c0))"
      "holds_file (e_zlib E) c0 data"
    using file_there_entry [OF f] by blast
  let ?v = "v\<lparr>resp_is_cached := False\<rparr>"
  let ?c = "file_headers E (stat v) (rpath v) c0" and ?a = "enext v"
  obtain ok v1 where i: "into_cache E ?a ?c (new_entry ?c ?v) = (ok, v1)" by fastforce
  have "?a \<notin> cached (hcache (new_entry ?c ?v))" using s by (auto simp: store_ok_def new_entry_def)
  note k = into_cache_keeps [OF i this]
  let ?u = "v1\<lparr>resp_is_cached := ok\<rparr>"
  have "cptr ?u = Some ?a" "eheap ?u ?a = Some ?c" "cl_accept_enc ?u = cl_accept_enc v"
    using k by (simp_all add: new_entry_def)
  then obtain u where u: "respond E ?u = (None, u)" "answers E (stat v) ?u data u" "eheap u = eheap ?u"
      "hcache u = hcache ?u" "cptr u = cptr ?u" "resp_is_cached u = ok"
    using respond_answers [OF z, of ?u ?a ?c data "stat v"] c0(2) file_headers_status acc mem by auto
  have "prepare_2616 E w = respond E ?u"
  proof -
    have "prepare_2616 E w = get_case E v"
      using b m by (auto simp: prepare_2616_def andthen_def)
    also have "\<dots> = ask_origin E ?v"
      using from_cache_miss [OF miss, of E] oc by (simp add: get_case_def andthen_def Let_def)
    also have "\<dots> = respond E ?u" using c0(1) i by (simp add: ask_origin_def fetched_def Let_def)
    finally show ?thesis .
  qed
  moreover have "answers E (stat v) v data u" using u(2) k by (simp add: answers_def new_entry_def)
  ultimately show ?thesis
    using u k c0(2) file_headers_status by (intro exI [of _ u] exI [of _ ?c]) (simp add: new_entry_def)
qed

theorem get_file_served_witness:
  "\<exists>u. prepare_2616 (env1 [''he'', ''llo''] 5) (conn1 ''GET /f HTTP/1.1'' [] (cache_new 100) (\<lambda>_. None) 0) = (None, u) \<and>
     take (unat (outbody_sz u)) (outbody u) = ''hello''"
proof -
  let ?w = "conn1 ''GET /f HTTP/1.1'' [] (cache_new 100) (\<lambda>_. None) 0" and ?E = "env1 [''he'', ''llo''] 5"
  have nd: "\<not> cc_isset d cc_new" for d by (simp add: cc_isset_def cc_new_def)
  have "file_there ?E ''f'' ''hello''" using env1_file [of 5 "[''he'', ''llo'']" "''f''"] by simp
  moreover have "store_ok {} (asks ''f'' GET ?w)" using empty_store(2) by (simp add: store_ok_def conn1_simps)
  ultimately show ?thesis
    using get_file_served [OF conn1_browse [OF reqlns(1), of "[''he'', ''llo'']" 5 False "cache_new 100" "\<lambda>_. None" 0, simplified conn1_fresh], of "{}" "''hello''"] nd
    by (auto simp: conn1_simps env1_def stored_ok cache_lookup_def cache_new_def answers_def Let_def)
qed



text \<open>C33. What goes wrong: \<open>reset\<close> does not clear the mark that the last response came from the cache.
  A PUT or POST that succeeds on such a connection marks the entry as invalid, then gives back a
  reference it never took; if another connection is sending that entry, its only reference is gone
  and the entry is deleted under it.\<close>

theorem put_evicts_in_use:
  assumes b: "browse_req E w = (None, v)" and m: "meth v = Some PUT \<or> meth v = Some POST"
    and stale: "resp_is_cached v"
    and p: "origin_putorpost (e_zlib E) (e_fsys E) (rpath v) (inbody v) (cl_content_enc v)
      (if meth v = Some POST then ''a'' else ''w'') (files v (rpath v)) = Some (Inr E0, f)"
    and x: "table (hcache v) (rpath v) = Some x" "refcnt x = 1"
  shows "\<exists>u. prepare_2616 E w = (Some (HTTP_oops OK), u) \<and> refs u (rpath v) = 1 \<and>
    table (hcache (reset_2616 u)) (rpath v) = None \<and> eheap (reset_2616 u) (stuff x) = None \<and>
    resp_is_cached (reset_2616 u)"
proof -
  let ?u = "v\<lparr>files := (files v)(rpath v := f), hcache := cs_advise (rpath v) (hcache v)\<rparr>"
  have pr: "prepare_2616 E w = (Some (HTTP_oops OK), ?u)"
    using b m p by (auto simp: prepare_2616_def andthen_def put_case_def throw_oops_def)
  have t: "table (hcache ?u) (rpath v) = Some (x\<lparr>invalid := True\<rparr>)" using x(1) by (simp add: cs_advise_def)
  then have gone: "table (cache_unget (rpath v) (hcache ?u)) (rpath v) = None"
    using x(2) by (simp add: cache_unget_def cs_unget_def cs_evict_def)
  have "eheap (unget_path ?u) (stuff x) = None"
    using gone t by (simp add: unget_path_def drop_evicted_heap cache_lookup_def)
  moreover have "table (hcache (unget_path ?u)) (rpath v) = None" using gone by (simp add: unget_path_def drop_evicted_other)
  ultimately have "table (hcache (reset_2616 ?u)) (rpath v) = None \<and> eheap (reset_2616 ?u) (stuff x) = None \<and>
      resp_is_cached (reset_2616 ?u)"
    using stale by (simp add: reset_2616_def Let_def unget_path_def drop_evicted_other)
  then show ?thesis using pr t x(2) by (intro exI [of _ ?u]) (simp add: refs_def cache_refs_def)
qed

theorem put_evicts_in_use_witness:
  "\<exists>u. prepare_2616 (env1 [] 3) conn3 = (Some (HTTP_oops OK), u) \<and> refs u ''f'' = 1 \<and> eheap (reset_2616 u) 0 = None"
proof -
  have b: "browse_req (env1 [] 3) conn3 = (None, asks ''f'' PUT conn3)"
    unfolding conn3_def by (rule conn1_browse) (simp_all add: reqlns)
  have p: "origin_putorpost (e_zlib (env1 [] 3)) (e_fsys (env1 [] 3)) ''f'' [] identity ''w'' [] = Some (Inr E0, [])"
    by (simp add: origin_putorpost_def env1_def one_file_def put_attempt.simps write_loop.simps release_tmp_def Let_def)
  have "\<exists>u. prepare_2616 (env1 [] 3) conn3 = (Some (HTTP_oops OK), u) \<and> refs u ''f'' = 1 \<and>
      table (hcache (reset_2616 u)) ''f'' = None \<and> eheap (reset_2616 u) 0 = None \<and> resp_is_cached (reset_2616 u)"
    using put_evicts_in_use [OF b, of "[]" "\<lparr>stuff = 0, refcnt = 1, invalid = False, esz = 5, eid = 0\<rparr>"] p conn3_fields
    by (simp add: conn1_simps)
  then show ?thesis by blast
qed

text \<open>The manipulators of an entry are fields of the entry, which all its readers share. If one
  connection has asked for the plain form of an entry when another, which takes gzip, prints it, the
  second response announces a plain body of the file's length and sends a compressed one, and the
  first announces a compressed body and sends a plain one.\<close>

theorem shared_manipulators:
  assumes z: "zlib_ok (e_zlib E)" and h: "holds_file (e_zlib E) c data" and st: "estat c = Some st"
    and w: "cptr w = Some a" "eheap w a = Some c" "meth w = Some GET" "cl_accept_enc w = gzip"
  shows "\<exists>u fs. respond E (upd_entry a (entry_manip as_identity) w) = (None, u) \<and>
    outbuf u = str_put (lines_text (status_line st # map field_line ([(Content_Length, show_nat (length data)),
      (Content_Encoding, content_coding_put identity), (Server, package_name)] @ fs)) @ CRLF) (outbuf w) \<and>
    outbody u = ebuf c \<and> unat (outbody_sz u) = length (ebuf c) \<and>
    (\<exists>c' gs. eheap u a = Some c' \<and> snd (lay_out E a c' first) = push_out (lines_text (status_line st # map field_line
      ([(Content_Length, show_nat (length (ebuf c))), (Content_Encoding, content_coding_put gzip), (Server, package_name)] @ gs))
      @ CRLF) (first\<lparr>eheap := (eheap first)(a \<mapsto> c')\<rparr>))"
proof -
  have g: "gzip_compress (e_zlib E) (gzip_bound (e_zlib E) (of_nat (length data)) GZIP) data GZIP default_level = Some (ebuf c)"
    and sz: "szondisk c = of_nat (length data)" "szincache c = of_nat (length (ebuf c))" "enc c = gzip" "length data < 2 ^ 62"
    and fl: "\<not> omit_body c" "\<not> asif_uncompressed c"
    using h by (auto simp: holds_file_def)
  have "length (ebuf c) < 2 ^ 32" using compress_GZIP(2,3) [OF z g] by linarith
  then have un: "unat (of_nat (length (ebuf c)) :: size_t) = length (ebuf c)" "unat (of_nat (length data) :: size_t) = length data"
    using sz(4) by (simp_all add: unsigned_of_nat take_bit_nat_eq_self)
  let ?c = "entry_manip as_identity c"
  have stm: "estat ?c = Some st" using st by (simp add: entry_manip_def)
  have clear: "?c\<lparr>omit_body := False, asif_uncompressed := False\<rparr> = c" "c\<lparr>omit_body := False, asif_uncompressed := False\<rparr> = c"
    using fl by (simp_all add: entry_manip_def)
  define fs where "fs = map (\<lambda>h. (h, the (hdrmap c h))) (e_order E (hdrmap c))"
  have f: "entry_fields (e_order E (hdrmap ?c)) ?c = [(Content_Length, show_nat (length data)),
      (Content_Encoding, content_coding_put identity), (Server, package_name)] @ fs"
    "entry_fields (e_order E (hdrmap c)) c = [(Content_Length, show_nat (length (ebuf c))),
      (Content_Encoding, content_coding_put gzip), (Server, package_name)] @ fs"
    using fl sz un by (simp_all add: fs_def entry_fields_def content_length_of_def entry_manip_def)
  let ?w = "(upd_entry a (entry_manip as_identity) w)\<lparr>outbody := ebuf c, outbody_sz := szincache c\<rparr>"
  have "respond E (upd_entry a (entry_manip as_identity) w) = lay_out E a ?c ?w"
    using w by (simp add: respond_def upd_entry_def entry_manip_def)
  then have r: "respond E (upd_entry a (entry_manip as_identity) w) =
      (None, push_out (lines_text (status_line st # map field_line ([(Content_Length, show_nat (length data)),
        (Content_Encoding, content_coding_put identity), (Server, package_name)] @ fs)) @ CRLF)
        (?w\<lparr>eheap := (eheap ?w)(a \<mapsto> c)\<rparr>))"
    unfolding lay_out_text [OF stm] clear f .
  note l = lay_out_text [OF st, of E a first, unfolded clear f]
  define u where "u = push_out (lines_text (status_line st # map field_line ([(Content_Length, show_nat (length data)),
        (Content_Encoding, content_coding_put identity), (Server, package_name)] @ fs)) @ CRLF)
        (?w\<lparr>eheap := (eheap ?w)(a \<mapsto> c)\<rparr>)"
  have "eheap u a = Some c" "outbody u = ebuf c" "unat (outbody_sz u) = length (ebuf c)"
    "outbuf u = str_put (lines_text (status_line st # map field_line ([(Content_Length, show_nat (length data)),
        (Content_Encoding, content_coding_put identity), (Server, package_name)] @ fs)) @ CRLF) (outbuf w)"
    by (simp_all add: u_def push_out_def upd_entry_def sz un)
  then show ?thesis
    unfolding r u_def [symmetric] using l by (intro exI [of _ u] exI [of _ fs] exI [of _ c] conjI) simp_all
qed

theorem shared_manipulators_witness:
  "\<exists>u. respond (env1 [] 5) (upd_entry 0 (entry_manip as_identity)
      ((asks ''f'' GET conn2)\<lparr>cptr := Some 0, cl_accept_enc := gzip\<rparr>)) = (None, u) \<and>
    outbody u = ''hello'' \<and> unat (outbody_sz u) = 5"
proof -
  let ?w = "(asks ''f'' GET conn2)\<lparr>cptr := Some 0, cl_accept_enc := gzip\<rparr>"
  have "zlib_ok (e_zlib (env1 [] 5))" by (simp add: env1_def stored_ok)
  moreover have "estat entry1 = Some OK" "cptr ?w = Some 0" "eheap ?w 0 = Some entry1" "meth ?w = Some GET" "cl_accept_enc ?w = gzip"
    by (simp_all add: conn1_simps conn2_def entry1_def entry_status_def)
  ultimately obtain u where "respond (env1 [] 5) (upd_entry 0 (entry_manip as_identity) ?w) = (None, u)" "outbody u = ebuf entry1"
      "unat (outbody_sz u) = length (ebuf entry1)"
    using shared_manipulators [of "env1 [] 5" entry1 "''hello''" OK ?w 0] entry1_holds by (auto simp: env1_def)
  then show ?thesis by (simp add: entry1_def entry_status_def centry_new_def)
qed

text \<open>What comes of header values: the parser leaves the name at the head of a stored header, and the
  readers of the values do not expect it. So every Expect header is refused, 100-continue included;
  and the number of seconds of a max-age is never read: the limit stays what it was, 0 on a new
  connection, and with it any cached entry that has an age is refused, whatever the client asked.\<close>

theorem header_values_lost:
  assumes "hdr (inhdrs w) Expect = header_put Expect @ x"
    and c: "hdr (inhdrs w) Cache_Control = header_put Cache_Control @ ''max-age='' @ n"
    and n: "\<forall>ch \<in> set n. \<not> isspace ch"
    and o: "\<forall>d \<in> {''no-cache'', ''no-store'', ''no-transform'', ''only-if-cached''}.
      \<not> contains d (hdr (inhdrs w) Cache_Control)"
  shows "browse_expect w = throw_oops Expectation_Failed w \<and>
    (let d = cl_cc (browse_cache_control w) in
     cc_isset cc_max_age d \<and> max_age d = max_age (cl_cc w) \<and>
     (max_age (cl_cc w) = 0 \<longrightarrow> \<not> cc_isset cc_min_fresh (cl_cc w) \<longrightarrow> \<not> use_max_age e \<longrightarrow> 0 < current_age now e \<longrightarrow>
        acceptable d now valid e = Some False))"
proof
  have "header_put Expect = ''Expect: ''" by code_simp
  then show "browse_expect w = throw_oops Expectation_Failed w"
    using assms(1) by (simp add: browse_expect_def tolower_def c_string_def to_lower_def Let_def)
  let ?t = "hdr (inhdrs w) Cache_Control"
  have hp: "header_put Cache_Control = ''Cache-Control: ''" by code_simp
  have t: "?t = ''Cache-Control:'' @ '' '' @ (''max-age='' @ n)" unfolding c hp by simp
  have ma: "contains ''max-age'' ?t" unfolding contains_iff sublist_def t
    by (intro exI [of _ "''Cache-Control: ''"] exI [of _ "''='' @ n"]) simp
  have rd: "read_directive ?t old = (''max-age='' @ n, old)" for old
  proof -
    let ?v = "''max-age='' @ n"
    have sp: "\<forall>ch \<in> set ''Cache-Control:''. \<not> isspace ch" "\<forall>ch \<in> set ?v. \<not> isspace ch" "isspace SP"
      using n by (simp_all add: isspace_def)
    have u: "unread (str_new ?t) = [] @ ''Cache-Control:'' @ ('' '' @ ?v)" "good (str_new ?t)"
      using t by simp_all
    let ?s = "(str_new ?t)\<lparr>gpos := gpos (str_new ?t) + length ([] :: string) + length ''Cache-Control:'', eofb := ('' '' @ ?v = [])\<rparr>"
    have r1: "read_word (str_new ?t) ?t = (''Cache-Control:'', ?s)"
      using u(2) by (rule read_word_hit [OF _ u(1)]) (use sp in simp_all)
    have u2: "unread ?s = '' '' @ ?v @ []" "good ?s" using t by (simp_all add: str_new_def unread_def good_def)
    have "read_word ?s ''Cache-Control:'' = (?v, ?s\<lparr>gpos := gpos ?s + length '' '' + length ?v, eofb := True\<rparr>)"
      using u2(2) by (subst read_word_hit [OF _ u2(1)]) (use sp in simp_all)
    then show ?thesis using r1 by (simp add: read_directive_def read_time_def good_def)
  qed
  have b: "cl_cc (browse_cache_control w) = (cc_set cc_max_age (cl_cc w))\<lparr>max_age := max_age (cl_cc w)\<rparr>"
    using o ma rd t by (simp add: browse_cache_control_def Let_def set_hdr_def)
  have i: "cc_isset d (cc_set cc_max_age (cl_cc w)) \<longleftrightarrow> d = cc_max_age \<or> cc_isset d (cl_cc w)" for d
    using cc_bit_AND [of cc_max_age d]
    by (auto simp: cc_isset_def cc_set_def bit.conj_disj_distrib2 simp del: cc_bit.simps)
  have m: "cc_isset d (k\<lparr>max_age := x\<rparr>) = cc_isset d k" for d k x by (simp add: cc_isset_def)
  show "let d = cl_cc (browse_cache_control w) in
     cc_isset cc_max_age d \<and> max_age d = max_age (cl_cc w) \<and>
     (max_age (cl_cc w) = 0 \<longrightarrow> \<not> cc_isset cc_min_fresh (cl_cc w) \<longrightarrow> \<not> use_max_age e \<longrightarrow> 0 < current_age now e \<longrightarrow>
        acceptable d now valid e = Some False)"
    unfolding b Let_def by (simp add: m i acceptable_def)
qed

theorem header_values_lost_witness:
  "browse_expect conn4 = throw_oops Expectation_Failed conn4 \<and>
   acceptable (cl_cc (browse_cache_control conn4)) 100 True entry1 = Some False"
proof -
  have h: "hdr (inhdrs conn4) Expect = header_put Expect @ ''100-continue''"
    "hdr (inhdrs conn4) Cache_Control = header_put Cache_Control @ ''max-age='' @ ''3600''"
    "\<forall>d \<in> {''no-cache'', ''no-store'', ''no-transform'', ''only-if-cached''}. \<not> contains d (hdr (inhdrs conn4) Cache_Control)"
    by code_simp+
  have n: "\<forall>ch \<in> set ''3600''. \<not> isspace ch" by code_simp
  have d: "max_age (cl_cc conn4) = 0" "\<not> cc_isset cc_min_fresh (cl_cc conn4)"
    by (simp_all add: conn4_def conn1_simps cc_new_def cc_isset_def)
  have e: "\<not> use_max_age entry1" "0 < current_age 100 entry1" by code_simp+
  show ?thesis
    using header_values_lost [OF h(1,2) n h(3), of entry1 100 True] d e by (simp add: Let_def)
qed

text \<open>
  A connection over many calls: for each, what the kernel delivers and accepts, the surroundings,
  and the cache and entries as the other connections have left them.
\<close>

record call =
  c_env :: env
  c_read :: "rd_event list"
  c_write :: "wr_event list"
  c_cache :: "(string, nat) cache"
  c_entries :: "nat \<Rightarrow> centry option"
  c_next :: nat

fun run_2616 :: "limits \<Rightarrow> call list \<Rightarrow> h2616 \<Rightarrow> h2616 thrown" where
  "run_2616 lim [] w = (None, w)"
| "run_2616 lim (k # ks) w =
     (case step_2616 (c_env k) lim (w\<lparr>rdq := c_read k, wrq := c_write k, hcache := c_cache k, eheap := c_entries k,
         enext := c_next k\<rparr>) of
        (None, v) \<Rightarrow> run_2616 lim ks v
      | (Some e, v) \<Rightarrow> (Some e, v))"

lemma step_2616_ok:
  assumes "conn_inv w" and "entries_ok (eheap w)"
  shows "step_ok w (step_2616 E lim w) \<and> entries_ok (eheap (snd (step_2616 E lim w)))"
  using rfc.server_step_ok [of w lim E] rfc.server_step_own [of w lim E] assms by (simp add: step_2616_def)



end
