(* ===== verification/FindWork.thy ===== *)
theory FindWork
  imports HTTP_constants Work LockFreeQueue
begin

text \<open>
  \<open>FindWork.hpp\<close>, \<open>FindWork_prealloc.hpp\<close>, \<open>Preallocated.hpp\<close>: the map from descriptors to works,
  and the store that works are allocated from. The queue under the store is a parameter, held to
  the interface \<open>conc_queue\<close>; the code uses the lock-free one.
\<close>

section \<open>The store\<close>

text \<open>
  The state of \<open>Preallocated<Derived>\<close>: the queue of addresses, the next address the free store
  would give, and how each address came: by \<open>new uint8_t[]\<close> or by \<open>::operator new\<close>.
\<close>

record 'q pool =
  pstore :: 'q
  heap_next :: nat
  arrays :: "nat list"
  singles :: "nat list"

definition pool_new :: "'q \<Rightarrow> 'q pool" where
  "pool_new q = \<lparr>pstore = q, heap_next = 0, arrays = [], singles = []\<rparr>"

definition pre_new :: "('q \<Rightarrow> nat option \<times> 'q) \<Rightarrow> 'q pool \<Rightarrow> nat \<times> 'q pool" where
  "pre_new deq p =
     (case deq (pstore p) of
        (Some a, q) \<Rightarrow> (a, p\<lparr>pstore := q\<rparr>)
      | (None, q) \<Rightarrow> (heap_next p, p\<lparr>pstore := q, heap_next := heap_next p + 1, singles := heap_next p # singles p\<rparr>))"

definition pre_delete :: "(nat \<Rightarrow> 'q \<Rightarrow> 'q) \<Rightarrow> nat \<Rightarrow> 'q pool \<Rightarrow> 'q pool" where
  "pre_delete enq a p = p\<lparr>pstore := enq a (pstore p)\<rparr>"

fun prealloc_init :: "(nat \<Rightarrow> 'q \<Rightarrow> 'q) \<Rightarrow> nat \<Rightarrow> 'q pool \<Rightarrow> 'q pool" where
  "prealloc_init enq 0 p = p"
| "prealloc_init enq (Suc n) p =
     prealloc_init enq n (p\<lparr>pstore := enq (heap_next p) (pstore p), heap_next := heap_next p + 1,
       arrays := heap_next p # arrays p\<rparr>)"

text \<open>\<open>delete[]\<close> is only defined for what \<open>new[]\<close> gave.\<close>

partial_function (option) prealloc_deinit :: "('q \<Rightarrow> nat option \<times> 'q) \<Rightarrow> 'q pool \<Rightarrow> (exc option \<times> 'q pool) option" where
  "prealloc_deinit deq p =
     (case deq (pstore p) of
        (None, q) \<Rightarrow> Some (None, p\<lparr>pstore := q\<rparr>)
      | (Some a, q) \<Rightarrow>
          if a \<in> set (arrays p) then prealloc_deinit deq (p\<lparr>pstore := q, arrays := removeAll a (arrays p)\<rparr>)
          else Some (Some UB, p\<lparr>pstore := q\<rparr>))"

section \<open>The map\<close>

text \<open>
  \<open>FindWork_prealloc\<close>: the map in the order it is iterated in; the live work objects by address,
  and those among them that came with \<open>register_alien\<close>; the open descriptors, which the
  destructor of a work closes. The destructor of the works made here takes them out of the map
  (\<open>HTTP_2616_Server_Work::~HTTP_2616_Server_Work\<close>); that of a client work does not.
\<close>

record ('q, 'x) findwork =
  wmap :: "(fd \<times> nat) list"
  wobjs :: "nat \<Rightarrow> 'x work_scheme option"
  aliens :: "nat list"
  wpool :: "'q pool"
  wopen :: "fd list"

definition fw_new :: "(nat \<Rightarrow> 'q \<Rightarrow> 'q) \<Rightarrow> nat \<Rightarrow> nat \<Rightarrow> 'q \<Rightarrow> fd list \<Rightarrow> ('q, 'x) findwork" where
  "fw_new enq bytes sz q opens =
     \<lparr>wmap = [], wobjs = (\<lambda>_. None), aliens = [], wpool = prealloc_init enq (bytes div sz) (pool_new q), wopen = opens\<rparr>"

text \<open>\<open>operator()\<close>; \<open>mk\<close> is the constructor of the work.\<close>

definition fw_find :: "('q \<Rightarrow> nat option \<times> 'q) \<Rightarrow> (fd \<Rightarrow> work_mode \<Rightarrow> 'x work_scheme) \<Rightarrow> fd \<Rightarrow> work_mode \<Rightarrow>
    ('q, 'x) findwork \<Rightarrow> nat \<times> ('q, 'x) findwork" where
  "fw_find deq mk d m s =
     (case map_of (wmap s) d of
        Some a \<Rightarrow> (a, s)
      | None \<Rightarrow> let (a, p) = pre_new deq (wpool s)
          in (a, s\<lparr>wmap := (d, a) # wmap s, wobjs := (wobjs s)(a \<mapsto> mk d m), wpool := p\<rparr>))"

definition fw_unregister :: "fd \<Rightarrow> ('q, 'x) findwork \<Rightarrow> ('q, 'x) findwork" where
  "fw_unregister d s = s\<lparr>wmap := filter (\<lambda>(d', a). d' \<noteq> d) (wmap s)\<rparr>"

definition fw_register_alien :: "nat option \<Rightarrow> ('q, 'x) findwork \<Rightarrow> bool \<times> ('q, 'x) findwork" where
  "fw_register_alien w s =
     (case w of
        None \<Rightarrow> (False, s)
      | Some a \<Rightarrow> let d = wfd (the (wobjs s a))
          in if map_of (wmap s) d = None then (True, s\<lparr>wmap := (d, a) # wmap s\<rparr>) else (False, s))"

text \<open>A work of another kind, from the free store.\<close>

definition alien_new :: "'x work_scheme \<Rightarrow> ('q, 'x) findwork \<Rightarrow> nat \<times> ('q, 'x) findwork" where
  "alien_new w s = (let a = heap_next (wpool s)
     in (a, s\<lparr>wobjs := (wobjs s)(a \<mapsto> w), aliens := a # aliens s, wpool := (wpool s)\<lparr>heap_next := a + 1\<rparr>\<rparr>))"

text \<open>\<open>delete w\<close>: the destructor of the derived class, then that of \<open>Work\<close>, then \<open>operator delete\<close>.\<close>

definition fw_delete :: "(nat \<Rightarrow> 'q \<Rightarrow> 'q) \<Rightarrow> fd \<Rightarrow> nat \<Rightarrow> ('q, 'x) findwork \<Rightarrow> ('q, 'x) findwork" where
  "fw_delete enq listenfd a s =
     (let w = the (wobjs s a); own = a \<notin> set (aliens s); s = (if own then fw_unregister (wfd w) s else s)
      in s\<lparr>wobjs := (wobjs s)(a := None), aliens := removeAll a (aliens s),
           wpool := (if own then pre_delete enq a (wpool s) else wpool s),
           wopen := work_destroy listenfd w (wopen s)\<rparr>)"

definition fw_clear :: "(nat \<Rightarrow> 'q \<Rightarrow> 'q) \<Rightarrow> fd \<Rightarrow> ('q, 'x) findwork \<Rightarrow> ('q, 'x) findwork" where
  "fw_clear enq listenfd s = (fold (fw_delete enq listenfd) (map snd (wmap s)) s)\<lparr>wmap := []\<rparr>"

definition fw_destroy :: "(nat \<Rightarrow> 'q \<Rightarrow> 'q) \<Rightarrow> ('q \<Rightarrow> nat option \<times> 'q) \<Rightarrow> fd \<Rightarrow> ('q, 'x) findwork \<Rightarrow>
    (exc option \<times> ('q, 'x) findwork) option" where
  "fw_destroy enq deq listenfd s =
     (let s = fw_clear enq listenfd s
      in map_option (\<lambda>(e, p). (e, s\<lparr>wpool := p\<rparr>)) (prealloc_deinit deq (wpool s)))"

text \<open>What the rest of the server does to the map: a work is looked up, or made, at a descriptor
  that is open; the works of a descriptor in the map are deleted by whoever has them.\<close>

datatype fw_op = Find fd work_mode | Delete fd

fun fw_step :: "(nat \<Rightarrow> 'q \<Rightarrow> 'q) \<Rightarrow> ('q \<Rightarrow> nat option \<times> 'q) \<Rightarrow> fd \<Rightarrow> (fd \<Rightarrow> work_mode \<Rightarrow> 'x work_scheme) \<Rightarrow> fw_op \<Rightarrow>
    ('q, 'x) findwork \<Rightarrow> ('q, 'x) findwork" where
  "fw_step enq deq l mk (Find d m) s = snd (fw_find deq mk d m (s\<lparr>wopen := List.insert d (wopen s)\<rparr>))"
| "fw_step enq deq l mk (Delete d) s = (case map_of (wmap s) d of None \<Rightarrow> s | Some a \<Rightarrow> fw_delete enq l a s)"

locale address_store = conc_queue quiet items enq deq wait
  for quiet :: "'s \<Rightarrow> bool" and items :: "'s \<Rightarrow> nat list" and enq :: "nat \<Rightarrow> 's \<Rightarrow> 's"
    and deq :: "'s \<Rightarrow> nat option \<times> 's" and wait :: "'s \<Rightarrow> (nat \<times> 's) option"
begin

text \<open>What is in use and what is in the store are the addresses there are, each once.\<close>

definition pool_ok :: "nat list \<Rightarrow> 's pool \<Rightarrow> bool" where
  "pool_ok live p \<longleftrightarrow> quiet (pstore p) \<and> distinct (live @ items (pstore p)) \<and>
     set (live @ items (pstore p)) = set (arrays p @ singles p) \<and> (\<forall>a \<in> set (arrays p @ singles p). a < heap_next p) \<and>
     distinct (arrays p @ singles p)"

lemma pool_new_ok: "quiet q \<Longrightarrow> items q = [] \<Longrightarrow> pool_ok [] (pool_new q)"
  by (simp add: pool_ok_def pool_new_def)

lemma pre_new_ok:
  assumes "pool_ok live p" and "pre_new deq p = (a, p')"
  shows "pool_ok (a # live) p' \<and> arrays p' = arrays p"
proof (cases "items (pstore p)")
  case Nil
  then obtain q where q: "deq (pstore p) = (None, q)" "quiet q" "items q = []"
    using deq_none [of "pstore p"] assms(1) by (auto simp: pool_ok_def)
  have "heap_next p \<notin> set (arrays p @ singles p)" using assms(1) by (auto simp: pool_ok_def)
  moreover have "\<forall>b \<in> set (arrays p @ singles p). b < Suc (heap_next p)"
    using assms(1) by (simp add: pool_ok_def less_SucI)
  moreover have "a = heap_next p" "p' = p\<lparr>pstore := q, heap_next := heap_next p + 1, singles := heap_next p # singles p\<rparr>"
    using assms(2) q by (auto simp: pre_new_def)
  ultimately show ?thesis using assms(1) q Nil by (auto simp: pool_ok_def)
next
  case (Cons b bs)
  then obtain q where q: "deq (pstore p) = (Some b, q)" "quiet q" "items q = bs"
    using deq_some [of "pstore p" b bs] assms(1) by (auto simp: pool_ok_def)
  then show ?thesis using assms Cons by (auto simp: pre_new_def pool_ok_def)
qed

lemma pre_delete_ok:
  assumes "pool_ok (xs @ a # ys) p"
  shows "pool_ok (xs @ ys) (pre_delete enq a p)"
proof -
  have e: "quiet (enq a (pstore p))" "items (enq a (pstore p)) = items (pstore p) @ [a]"
    using enq_law [of "pstore p"] assms by (auto simp: pool_ok_def)
  then show ?thesis using assms by (auto simp: pool_ok_def pre_delete_def)
qed

lemma prealloc_init_ok:
  "pool_ok [] p \<Longrightarrow> pool_ok [] (prealloc_init enq n p) \<and> singles (prealloc_init enq n p) = singles p \<and>
     length (arrays (prealloc_init enq n p)) = n + length (arrays p)"
proof (induction n arbitrary: p)
  case (Suc n)
  let ?p = "p\<lparr>pstore := enq (heap_next p) (pstore p), heap_next := heap_next p + 1, arrays := heap_next p # arrays p\<rparr>"
  have "pool_ok [] ?p" using Suc.prems enq_law [of "pstore p" "heap_next p"] by (auto simp: pool_ok_def intro: less_SucI)
  then show ?case using Suc.IH [of ?p] by simp
qed simp



text \<open>With everything back in the store: it can be freed if and only if nothing came from the free store.\<close>

lemma prealloc_deinit_result:
  assumes "quiet (pstore p)" and "distinct (items (pstore p))"
  shows "\<exists>e p'. prealloc_deinit deq p = Some (e, p') \<and> (e = None \<longleftrightarrow> set (items (pstore p)) \<subseteq> set (arrays p))"
  using assms
proof (induction "items (pstore p)" arbitrary: p)
  case Nil
  then obtain q where "deq (pstore p) = (None, q)" using deq_none [of "pstore p"] by auto
  then show ?case using Nil by (subst prealloc_deinit.simps) simp
next
  case (Cons a as)
  obtain q where q: "deq (pstore p) = (Some a, q)" "quiet q" "items q = as"
    using deq_some [of "pstore p" a as] Cons.prems Cons.hyps(2) by auto
  let ?p = "p\<lparr>pstore := q, arrays := removeAll a (arrays p)\<rparr>"
  have a: "a \<notin> set as" "distinct as" using Cons.prems(2) Cons.hyps(2) by (metis distinct.simps(2))+
  show ?case
  proof (cases "a \<in> set (arrays p)")
    case True
    have "\<exists>e p'. prealloc_deinit deq ?p = Some (e, p') \<and> (e = None \<longleftrightarrow> set as \<subseteq> set (arrays ?p))"
      using Cons.hyps(1) [of ?p] q a by simp
    moreover have "set as \<subseteq> set (arrays ?p) \<longleftrightarrow> set (items (pstore p)) \<subseteq> set (arrays p)"
      using a True Cons.hyps(2) [symmetric] by auto
    moreover have "prealloc_deinit deq p = prealloc_deinit deq ?p"
      using True q by (subst prealloc_deinit.simps) simp
    ultimately show ?thesis by simp
  next
    case False
    then have "prealloc_deinit deq p = Some (Some UB, p\<lparr>pstore := q\<rparr>)" using q by (subst prealloc_deinit.simps) simp
    then show ?thesis using False Cons.hyps(2) [symmetric] by auto
  qed
qed

text \<open>One owner for a descriptor: the map and the live works agree, and no live work is in the store.\<close>

definition fw_ok :: "('s, 'x) findwork \<Rightarrow> bool" where
  "fw_ok s \<longleftrightarrow> aliens s = [] \<and> distinct (map fst (wmap s)) \<and> distinct (wopen s) \<and>
     (\<forall>d a. (d, a) \<in> set (wmap s) \<longleftrightarrow> (\<exists>w. wobjs s a = Some w \<and> wfd w = d)) \<and> fst ` set (wmap s) \<subseteq> set (wopen s) \<and>
     pool_ok (map snd (wmap s)) (wpool s)"

lemma fw_okI:
  assumes "aliens s = []" and "distinct (map fst (wmap s))" and "distinct (wopen s)"
    and "\<And>d a. (d, a) \<in> set (wmap s) \<longleftrightarrow> (\<exists>w. wobjs s a = Some w \<and> wfd w = d)"
    and "fst ` set (wmap s) \<subseteq> set (wopen s)" and "pool_ok (map snd (wmap s)) (wpool s)"
  shows "fw_ok s"
  unfolding fw_ok_def using assms by blast

lemma fw_okD:
  assumes "fw_ok s"
  shows "aliens s = []" and "distinct (map fst (wmap s))" and "distinct (wopen s)"
    and "(d, a) \<in> set (wmap s) \<longleftrightarrow> (\<exists>w. wobjs s a = Some w \<and> wfd w = d)"
    and "fst ` set (wmap s) \<subseteq> set (wopen s)" and "pool_ok (map snd (wmap s)) (wpool s)"
  using assms unfolding fw_ok_def by blast+

lemma filter_absent: "d \<notin> fst ` set xs \<Longrightarrow> filter (\<lambda>(d', a). d' \<noteq> d) xs = xs"
  by (induction xs) auto

lemma fw_new_ok:
  assumes "quiet q" and "items q = []" and "distinct opens"
  shows "fw_ok (fw_new enq bytes sz q opens)"
  using prealloc_init_ok [OF pool_new_ok [OF assms(1,2)]] assms(3) by (simp add: fw_ok_def fw_new_def)

lemma fw_find_ok:
  assumes ok: "fw_ok s" and d: "d \<in> set (wopen s)" and mk: "wfd (mk d m) = d"
  shows "fw_ok (snd (fw_find deq mk d m s))"
proof (cases "map_of (wmap s) d")
  case Some
  then show ?thesis using ok by (simp add: fw_find_def)
next
  case None
  obtain a p where p: "pre_new deq (wpool s) = (a, p)" by fastforce
  have po: "pool_ok (a # map snd (wmap s)) p" using pre_new_ok [OF _ p] ok by (simp add: fw_ok_def)
  then have a: "a \<notin> set (map snd (wmap s))" by (simp add: pool_ok_def)
  then have no: "wobjs s a = None"
    by (metis fw_okD(4) [OF ok] not_None_eq image_eqI list.set_map snd_conv)
  have fresh: "d \<notin> fst ` set (wmap s)" using None by (simp add: map_of_eq_None_iff)
  have map: "(d', a') \<in> set ((d, a) # wmap s) \<longleftrightarrow> (\<exists>w. ((wobjs s)(a \<mapsto> mk d m)) a' = Some w \<and> wfd w = d')" for d' a'
  proof (cases "a' = a")
    case True
    then show ?thesis using a mk by force
  next
    case False
    then show ?thesis using fw_okD(4) [OF ok, of d' a'] by simp
  qed
  have s: "snd (fw_find deq mk d m s) = s\<lparr>wmap := (d, a) # wmap s, wobjs := (wobjs s)(a \<mapsto> mk d m), wpool := p\<rparr>"
    by (simp add: fw_find_def None p)
  have fsts: "fst ` set ((d, a) # wmap s) \<subseteq> set (wopen s)" using fw_okD(5) [OF ok] d by simp
  show ?thesis unfolding s
    by (rule fw_okI) (use map fsts fw_okD(1,2,3) [OF ok] po fresh in \<open>simp_all del: set_simps\<close>)
qed

lemma fw_delete_ok:
  assumes ok: "fw_ok s" and a: "(d, a) \<in> set (wmap s)"
  shows "fw_ok (fw_delete enq l a s)" "wmap (fw_delete enq l a s) = filter (\<lambda>(d', a). d' \<noteq> d) (wmap s)"
    "singles (wpool (fw_delete enq l a s)) = singles (wpool s)" "arrays (wpool (fw_delete enq l a s)) = arrays (wpool s)"
    "wopen (fw_delete enq l a s) = (if d = l then wopen s else remove1 d (wopen s))"
proof -
  obtain w where w: "wobjs s a = Some w" "wfd w = d" using fw_okD(4) [OF ok] a by blast
  obtain xs ys where m: "wmap s = xs @ (d, a) # ys" using a by (metis split_list)
  have fst: "d \<notin> fst ` set xs" "d \<notin> fst ` set ys" using fw_okD(2) [OF ok] by (auto simp: m)
  then have f: "filter (\<lambda>(d', a). d' \<noteq> d) (wmap s) = xs @ ys" by (simp add: m filter_absent)
  have no: "aliens s = []" by (rule fw_okD(1) [OF ok])
  have po: "pool_ok (map snd xs @ map snd ys) (pre_delete enq a (wpool s))"
    using fw_okD(6) [OF ok] by (intro pre_delete_ok) (simp add: m)
  note D = fw_delete_def fw_unregister_def work_destroy_def Let_def no w
  show "wmap (fw_delete enq l a s) = filter (\<lambda>(d', a). d' \<noteq> d) (wmap s)"
    "singles (wpool (fw_delete enq l a s)) = singles (wpool s)" "arrays (wpool (fw_delete enq l a s)) = arrays (wpool s)"
    "wopen (fw_delete enq l a s) = (if d = l then wopen s else remove1 d (wopen s))"
    by (simp_all add: D pre_delete_def)
  have map: "(d', a') \<in> set (xs @ ys) \<longleftrightarrow> (\<exists>w. ((wobjs s)(a := None)) a' = Some w \<and> wfd w = d')" for d' a'
  proof (cases "a' = a")
    case True
    have "(d', a) \<notin> set (xs @ ys)"
    proof
      assume "(d', a) \<in> set (xs @ ys)"
      moreover from this have "(d', a) \<in> set (wmap s)" by (auto simp: m)
      then have "d' = d" using fw_okD(4) [OF ok] w by auto
      ultimately show False using fst by force
    qed
    then show ?thesis using True by simp
  next
    case False
    then have "(d', a') \<in> set (xs @ ys) \<longleftrightarrow> (d', a') \<in> set (wmap s)" by (auto simp: m)
    then show ?thesis using fw_okD(4) [OF ok, of d' a'] False by simp
  qed
  have fsts: "fst ` set (xs @ ys) \<subseteq> set (if d = l then wopen s else remove1 d (wopen s))"
    using fw_okD(5) [OF ok] fst by (auto simp: m set_remove1_eq [OF fw_okD(3) [OF ok]])
  have s: "fw_delete enq l a s = s\<lparr>wmap := xs @ ys, wobjs := (wobjs s)(a := None), aliens := [],
      wpool := pre_delete enq a (wpool s), wopen := (if d = l then wopen s else remove1 d (wopen s))\<rparr>"
    by (simp add: D f)
  show "fw_ok (fw_delete enq l a s)" unfolding s
    by (rule fw_okI) (use map fw_okD(2,3) [OF ok] po fsts in \<open>simp_all add: m del: set_append Un_iff\<close>)
qed

lemma fw_step_ok: "fw_ok s \<Longrightarrow> (\<And>d m. wfd (mk d m) = d) \<Longrightarrow> fw_ok (fw_step enq deq l mk op s)"
proof (cases op)
  case (Find d m)
  assume ok: "fw_ok s" and mk: "\<And>d m. wfd (mk d m) = d"
  have "fw_ok (s\<lparr>wopen := List.insert d (wopen s)\<rparr>)" using ok by (auto simp: fw_ok_def)
  then show ?thesis unfolding Find fw_step.simps by (rule fw_find_ok) (simp_all add: mk)
next
  case (Delete d)
  assume "fw_ok s"
  then show ?thesis by (auto simp: Delete fw_delete_ok split: option.split dest!: map_of_SomeD)
qed

lemma fw_run_ok: "fw_ok s \<Longrightarrow> (\<And>d m. wfd (mk d m) = d) \<Longrightarrow> fw_ok (fold (fw_step enq deq l mk) ops s)"
  by (induction ops arbitrary: s) (simp_all add: fw_step_ok)

text \<open>At the end every work is deleted, and its descriptor closed unless it is the listening socket.\<close>

lemma fw_delete_all:
  assumes "fw_ok s"
  shows "wobjs (fw_clear enq l s) = (\<lambda>_. None) \<and> pool_ok [] (wpool (fw_clear enq l s)) \<and>
    arrays (wpool (fw_clear enq l s)) = arrays (wpool s) \<and> singles (wpool (fw_clear enq l s)) = singles (wpool s) \<and>
    set (wopen (fw_clear enq l s)) = set (wopen s) - (fst ` set (wmap s) - {l})"
  using assms unfolding fw_clear_def
proof (induction "wmap s" arbitrary: s)
  case Nil
  then have "wobjs s a = None" for a by (metis empty_iff fw_ok_def list.set(1) not_None_eq)
  then show ?case using Nil by (auto simp: fw_ok_def simp flip: Nil(1))
next
  case (Cons da m)
  obtain d a where da: "da = (d, a)" by force
  let ?s = "fw_delete enq l a s"
  have in_map: "(d, a) \<in> set (wmap s)" by (simp add: Cons.hyps(2) [symmetric] da)
  note del = fw_delete_ok [OF Cons.prems in_map, of l]
  have d: "d \<notin> fst ` set m" "distinct (wopen s)" using Cons.prems by (auto simp: fw_ok_def Cons.hyps(2) [symmetric] da)
  then have m: "m = wmap ?s" unfolding del(2) Cons.hyps(2) [symmetric] da by (simp add: filter_absent)
  have "set (wopen s) - ({d} - {l}) - (fst ` set m - {l}) = set (wopen s) - (insert d (fst ` set m) - {l})" by auto
  moreover have "set (wopen ?s) = set (wopen s) - ({d} - {l})" using d by (auto simp: del(5))
  ultimately show ?case using Cons.hyps(1) [OF m del(1)] del(3,4)
    by (simp add: Cons.hyps(2) [symmetric] da m [symmetric])
qed

end

text \<open>The code's store is over the lock-free queue.\<close>

interpretation ws: address_store lfq_quiet contents lfq_enq lfq_nowait_deq lfq_wait_deq
  by (rule address_store.intro) (rule lfq.conc_queue_axioms)

lemma lfq_new_quiet: "lfq_quiet (lfq_new u)" and lfq_new_contents: "contents (lfq_new u) = []"
  by (auto simp: lfq_quiet_def list_ok_def lfq_new_def contents_def lk_def)

text \<open>A work registered by hand is not taken out of the map when it is deleted: its descriptor, closed and
  given out again, finds the dead work.\<close>

lemma alien_left_in_map:
  assumes "alien_new w s = (a, s')" and "fw_register_alien (Some a) s' = (True, s'')"
  shows "let s = fw_delete enq l a s'' in fw_find deq mk (wfd w) m s = (a, s) \<and> wobjs s a = None"
proof -
  have s': "wobjs s' a = Some w" "aliens s' = a # aliens s" using assms(1) by (auto simp: alien_new_def Let_def)
  then have "s'' = s'\<lparr>wmap := (wfd w, a) # wmap s'\<rparr>"
    using assms(2) by (simp add: fw_register_alien_def Let_def split: if_splits)
  then show ?thesis using s' by (simp add: fw_delete_def fw_find_def Let_def)
qed

text \<open>C21. One descriptor, one owner: after any sequence of lookups and deletions, with the store over the
  lock-free queue, the map sends a descriptor to a work exactly if that work is live and is the one
  for the descriptor; so there is at most one for each. The memory of a live work is not in the
  store, and no block is there twice: two works never share memory, whether the block was
  allocated at the start, later, or was handed back and out again.
\<close>

theorem fw_one_owner:
  assumes opens: "distinct opens" and mk: "\<And>d m. wfd (mk d m) = d"
  shows "let s = fold (fw_step lfq_enq lfq_nowait_deq l mk) ops (fw_new lfq_enq bytes sz (lfq_new u) opens) in
    (map_of (wmap s) d = Some a \<longleftrightarrow> (\<exists>w. wobjs s a = Some w \<and> wfd w = d)) \<and>
    (wobjs s a \<noteq> None \<longrightarrow> a \<notin> set (contents (pstore (wpool s)))) \<and> distinct (contents (pstore (wpool s)))"
proof -
  define s where "s = fold (fw_step lfq_enq lfq_nowait_deq l mk) ops (fw_new lfq_enq bytes sz (lfq_new u) opens)"
  have ok: "ws.fw_ok s" unfolding s_def using mk by (intro ws.fw_run_ok ws.fw_new_ok lfq_new_quiet lfq_new_contents opens)
  have "map_of (wmap s) d = Some a \<longleftrightarrow> (d, a) \<in> set (wmap s)" using ws.fw_okD(2) [OF ok] by simp
  moreover have "a \<in> snd ` set (wmap s)" if "wobjs s a \<noteq> None"
    using that ws.fw_okD(4) [OF ok, of _ a] by (metis image_eqI not_None_eq snd_conv)
  ultimately show ?thesis using ws.fw_okD(4,6) [OF ok] unfolding s_def [symmetric] ws.pool_ok_def Let_def by auto
qed

lemma fw_one_owner_witness:
  "let s = fold (fw_step lfq_enq lfq_nowait_deq 3 (\<lambda>d m. work_new d mode_read False))
      [Find 5 mode_read, Find 7 mode_read, Delete 5, Find 9 mode_write] (fw_new lfq_enq 100 60 (lfq_new 0) [3]) in
    (map_of (wmap s) 9 = Some 0 \<longleftrightarrow> (\<exists>w. wobjs s 0 = Some w \<and> wfd w = 9)) \<and>
    (wobjs s 0 \<noteq> None \<longrightarrow> 0 \<notin> set (contents (pstore (wpool s)))) \<and> distinct (contents (pstore (wpool s)))"
  using fw_one_owner [of "[3]" "\<lambda>d m. work_new d mode_read False" 3
      "[Find 5 mode_read, Find 7 mode_read, Delete 5, Find 9 mode_write]" 100 60 0 9 0]
  by (simp add: work_new_def)

text \<open>C35. At the end of a turn of the server every work still in the map is deleted, its descriptor is closed
  (the listening socket stays open), nothing live is left and the store is emptied. This goes well
  exactly if the store never had to ask the free store for a block: \<open>prealloc_deinit\<close> gives every
  block to \<open>delete[]\<close>, also those that came from \<open>::operator new\<close>.
\<close>

theorem fw_teardown:
  assumes opens: "distinct opens" and mk: "\<And>d m. wfd (mk d m) = d"
    and s: "s = fold (fw_step lfq_enq lfq_nowait_deq l mk) ops (fw_new lfq_enq bytes sz (lfq_new u) opens)"
  shows "\<exists>e s'. fw_destroy lfq_enq lfq_nowait_deq l s = Some (e, s') \<and> wmap s' = [] \<and> wobjs s' = (\<lambda>_. None) \<and>
    set (wopen s') = set (wopen s) - (fst ` set (wmap s) - {l}) \<and> (e = None \<longleftrightarrow> singles (wpool s) = [])"
proof -
  have ok: "ws.fw_ok s" unfolding s using mk by (intro ws.fw_run_ok ws.fw_new_ok lfq_new_quiet lfq_new_contents opens)
  note c = ws.fw_delete_all [OF ok, of l]
  let ?c = "fw_clear lfq_enq l s"
  have po: "ws.pool_ok [] (wpool ?c)" using c by simp
  then obtain e p where "prealloc_deinit lfq_nowait_deq (wpool ?c) = Some (e, p)"
    "e = None \<longleftrightarrow> set (contents (pstore (wpool ?c))) \<subseteq> set (arrays (wpool ?c))"
    using ws.prealloc_deinit_result [of "wpool ?c"] by (auto simp: ws.pool_ok_def)
  moreover have "set (contents (pstore (wpool ?c))) \<subseteq> set (arrays (wpool ?c)) \<longleftrightarrow> singles (wpool ?c) = []"
    using po by (cases "singles (wpool ?c)") (auto simp: ws.pool_ok_def)
  ultimately show ?thesis using c by (simp add: fw_destroy_def) (simp add: fw_clear_def)
qed

lemma fw_teardown_witness:
  "\<exists>s. s = fold (fw_step lfq_enq lfq_nowait_deq 3 (\<lambda>d m. work_new d mode_read False))
      [Find 3 mode_read, Find 7 mode_read, Delete 7] (fw_new lfq_enq 100 60 (lfq_new 0) [3]) \<and>
    (\<exists>e s'. fw_destroy lfq_enq lfq_nowait_deq 3 s = Some (e, s') \<and> wmap s' = [] \<and> wobjs s' = (\<lambda>_. None) \<and>
      set (wopen s') = set (wopen s) - (fst ` set (wmap s) - {3}) \<and> (e = None \<longleftrightarrow> singles (wpool s) = []))"
  using fw_teardown [of "[3]" "\<lambda>d m. work_new d mode_read False", OF _ _ refl, of 3 "[Find 3 mode_read, Find 7 mode_read, Delete 7]" 100 60 0]
  by (simp add: work_new_def)

end
