(* ===== verification/Scheduler.thy ===== *)
theory Scheduler
  imports FindWork
begin

text \<open>
  \<open>Scheduler.hpp\<close>, \<open>Scheduler.cpp\<close>, \<open>Worker.cpp\<close>: the scheduler thread and any number of worker
  threads as one step relation over what they share: the polling descriptor, the map of works,
  the job queue. What a work does when it is run is open, but for its effect on the work and
  whether it asks to be rescheduled. The kernel is the side of \<open>epoll\<close>, \<open>accept\<close> and \<open>close\<close> that
  its manual pages promise.
\<close>

section \<open>State\<close>

text \<open>
  What the kernel keeps for a descriptor that is polled: the direction asked for, whether the
  registration is for one event only, and whether it will deliver. An event can say that the
  descriptor is readable, that it is writable, that it has failed or its peer has gone.
\<close>

record ereg =
  emode :: work_mode
  oneshot :: bool
  armed :: bool

record evs =
  ev_in :: bool
  ev_out :: bool
  ev_hup :: bool

text \<open>What the two callback objects and the signal handlers of the server come to.\<close>

datatype callback = Accept_cb | Sig_cb

datatype handler = Scheduler_halt | Server_halt | Server_flush | Server_yank

text \<open>
  Where the scheduler thread is: before the wait, in the list of events, with the work it has
  looked up, retired. Where a worker is: waiting for a job, with the poison pill, in the call of
  a work, at the test of \<open>deleteme\<close> (the flag says that the work was not rescheduled, so that it is
  still the worker's), in the three steps of \<open>delete w\<close>, retired.
\<close>

datatype spc = S_wait | S_proc "(fd \<times> evs) list" | S_got nat evs "(fd \<times> evs) list" | S_done

datatype wpc = W_wait | W_null | W_run nat | W_check nat bool | W_delete nat | W_close nat | W_free nat | W_exit

text \<open>
  The works are those of \<open>FindWork\<close> over a store that is always empty: no address is used twice, so
  that a use of a dead work shows. \<open>crash\<close> is an exception that leaves a thread, and \<open>stray\<close> says
  that a worker has used a work that was no longer its mine.
\<close>

record sched =
  fwork :: "(unit, unit) findwork"
  epoll :: "(fd \<times> ereg) list"
  fdcbs :: "fd \<Rightarrow> callback option"
  sighandlers :: "nat \<Rightarrow> handler option"
  jobq :: "nat option list"
  dowork :: bool
  doserve :: bool
  flushes :: nat
  maxevents :: nat
  sch_pc :: spc
  wpcs :: "wpc list"
  crash :: "exc option"
  stray :: bool

abbreviation opens :: "sched \<Rightarrow> fd list" where "opens s \<equiv> wopen (fwork s)"
abbreviation objs :: "sched \<Rightarrow> nat \<Rightarrow> work option" where "objs s \<equiv> wobjs (fwork s)"
abbreviation works :: "sched \<Rightarrow> (fd \<times> nat) list" where "works s \<equiv> wmap (fwork s)"

abbreviation EBADF :: errno where "EBADF \<equiv> EOTHER 9"
abbreviation EEXIST :: errno where "EEXIST \<equiv> EOTHER 17"

definition no_store :: "unit \<Rightarrow> nat option \<times> unit" where
  "no_store q = (None, ())"

definition server_work :: "fd \<Rightarrow> work_mode \<Rightarrow> work" where
  "server_work d m = work_new d mode_read False"

definition find_work :: "fd \<Rightarrow> work_mode \<Rightarrow> sched \<Rightarrow> nat \<times> sched" where
  "find_work d m s = (let (a, f) = fw_find no_store server_work d m (fwork s) in (a, s\<lparr>fwork := f\<rparr>))"

section \<open>The polling descriptor\<close>

definition epoll_add :: "fd \<Rightarrow> ereg \<Rightarrow> sched \<Rightarrow> errno option \<times> sched" where
  "epoll_add d r s =
     (if d \<notin> set (opens s) then (Some EBADF, s)
      else if map_of (epoll s) d \<noteq> None then (Some EEXIST, s)
      else (None, s\<lparr>epoll := (d, r) # epoll s\<rparr>))"

definition epoll_mod :: "fd \<Rightarrow> ereg \<Rightarrow> sched \<Rightarrow> errno option \<times> sched" where
  "epoll_mod d r s =
     (if d \<notin> set (opens s) then (Some EBADF, s)
      else if map_of (epoll s) d = None then (Some ENOENT, s)
      else (None, s\<lparr>epoll := map (\<lambda>(d', r'). (d', if d' = d then r else r')) (epoll s)\<rparr>))"

text \<open>\<open>schedule\<close> and \<open>reschedule\<close>; the work is at an address.\<close>

definition sch_schedule :: "nat \<Rightarrow> bool \<Rightarrow> sched \<Rightarrow> exc option \<times> sched" where
  "sch_schedule a os s =
     (let w = the (objs s a)
      in case epoll_add (wfd w) \<lparr>emode = wmode w, oneshot = os, armed = True\<rparr> s of
           (Some e, s) \<Rightarrow> (Some (ResourceErr ''epoll_ctl (EPOLL_CTL_ADD)'' e), s)
         | (None, s) \<Rightarrow> (None, s))"

definition sch_reschedule :: "nat \<Rightarrow> bool \<Rightarrow> sched \<Rightarrow> exc option \<times> sched" where
  "sch_reschedule a os s =
     (let w = the (objs s a)
      in case epoll_mod (wfd w) \<lparr>emode = wmode w, oneshot = os, armed = True\<rparr> s of
           (Some e, s) \<Rightarrow> (Some (ResourceErr ''epoll_ctl (EPOLL_CTL_MOD)'' e), s)
         | (None, s) \<Rightarrow> (None, s))"

definition registercb :: "fd \<Rightarrow> callback \<Rightarrow> work_mode \<Rightarrow> bool \<Rightarrow> sched \<Rightarrow> exc option \<times> sched" where
  "registercb d cb m os s =
     (if d < 0 then (None, s)
      else case find_work d m (s\<lparr>fdcbs := (fdcbs s)(d \<mapsto> cb)\<rparr>) of (a, s) \<Rightarrow> sch_schedule a os s)"

text \<open>What \<open>epoll_wait\<close> may deliver, and that it disables what was registered for one event.\<close>

definition deliverable :: "sched \<Rightarrow> fd \<times> evs \<Rightarrow> bool" where
  "deliverable s de =
     (case map_of (epoll s) (fst de) of
        None \<Rightarrow> False
      | Some r \<Rightarrow> armed r \<and> (ev_in (snd de) \<longrightarrow> emode r = mode_read) \<and> (ev_out (snd de) \<longrightarrow> emode r = mode_write))"

definition deliver :: "fd list \<Rightarrow> sched \<Rightarrow> sched" where
  "deliver ds s = s\<lparr>epoll := map (\<lambda>(d, r). (d, if d \<in> set ds \<and> oneshot r then r\<lparr>armed := False\<rparr> else r)) (epoll s)\<rparr>"

section \<open>The callbacks\<close>

text \<open>\<open>Scheduler::halt\<close>, and the handlers of the server that end in it. What the last one does to the threads is in
  \<open>Thread_Pool\<close>.\<close>

definition sch_halt :: "sched \<Rightarrow> sched" where
  "sch_halt s = s\<lparr>jobq := jobq s @ [None], dowork := False\<rparr>"

fun handle :: "handler \<Rightarrow> sched \<Rightarrow> sched" where
  "handle Scheduler_halt s = sch_halt s"
| "handle Server_halt s = sch_halt (s\<lparr>doserve := False\<rparr>)"
| "handle Server_flush s = sch_halt (s\<lparr>flushes := flushes s + 1\<rparr>)"
| "handle Server_yank s = sch_halt s"

definition push_sighandler :: "nat \<Rightarrow> handler \<Rightarrow> sched \<Rightarrow> sched" where
  "push_sighandler signo h s = s\<lparr>sighandlers := (sighandlers s)(signo \<mapsto> h)\<rparr>"

text \<open>\<open>_sigcb\<close>, on the signals that are read.\<close>

fun sigcb :: "nat list \<Rightarrow> sched \<Rightarrow> sched" where
  "sigcb [] s = s"
| "sigcb (signo # rest) s =
     (let s = (case sighandlers s signo of Some h \<Rightarrow> handle h s | None \<Rightarrow> s)
      in if \<not> dowork s then s else sigcb rest s)"

text \<open>\<open>_acceptcb\<close>: \<open>accept\<close> gives a descriptor that was not open, or fails; making the descriptor
  nonblocking may fail too. The kernel's \<open>EAGAIN\<close> is \<open>EWOULDBLOCK\<close>.\<close>

datatype accepted = Conn fd | Accept_err errno | Fcntl_err string errno

definition acceptcb :: "accepted \<Rightarrow> sched \<Rightarrow> exc option \<times> sched" where
  "acceptcb r s =
     (case r of
        Accept_err e \<Rightarrow>
          if e \<in> {EAGAIN, EWOULDBLOCK, ECONNABORTED, EPROTO, EINTR} then (None, s) else (Some (SocketErr ''accept'' e), s)
      | Fcntl_err what e \<Rightarrow> (Some (SocketErr what e), s)
      | Conn d \<Rightarrow>
          (case find_work d mode_read (s\<lparr>fwork := (fwork s)\<lparr>wopen := d # opens s\<rparr>\<rparr>) of (a, s) \<Rightarrow> sch_schedule a True s))"

section \<open>Deleting a work\<close>

text \<open>The destructor of the derived class, the destructor of \<open>Work\<close> (the kernel forgets a closed
  descriptor) and the return of the memory.\<close>

definition del_unregister :: "nat \<Rightarrow> sched \<Rightarrow> sched" where
  "del_unregister a s = s\<lparr>fwork := fw_unregister (wfd (the (objs s a))) (fwork s)\<rparr>"

definition del_close :: "fd \<Rightarrow> nat \<Rightarrow> sched \<Rightarrow> sched" where
  "del_close l a s =
     (let w = the (objs s a)
      in s\<lparr>fwork := (fwork s)\<lparr>wopen := work_destroy l w (opens s)\<rparr>,
           epoll := (if wfd w = l then epoll s else filter (\<lambda>(d, r). d \<noteq> wfd w) (epoll s))\<rparr>)"

definition del_free :: "nat \<Rightarrow> sched \<Rightarrow> sched" where
  "del_free a s = s\<lparr>fwork := (fwork s)\<lparr>wobjs := (objs s)(a := None)\<rparr>\<rparr>"

definition delete_work :: "fd \<Rightarrow> nat \<Rightarrow> sched \<Rightarrow> sched" where
  "delete_work l a s = del_free a (del_close l a (del_unregister a s))"

section \<open>The scheduler thread\<close>

text \<open>The end of the body of the loop over the events.\<close>

definition next_event :: "(fd \<times> evs) list \<Rightarrow> sched \<Rightarrow> sched" where
  "next_event r s = s\<lparr>sch_pc := (if \<not> dowork s then S_done else S_proc r)\<rparr>"

definition thrown_or :: "(sched \<Rightarrow> sched) \<Rightarrow> exc option \<times> sched \<Rightarrow> sched" where
  "thrown_or k r = (case r of (Some e, s) \<Rightarrow> s\<lparr>crash := Some e\<rparr> | (None, s) \<Rightarrow> k s)"

text \<open>The start of \<open>poll\<close>.\<close>

definition sched_new :: "nat \<Rightarrow> nat \<Rightarrow> fd list \<Rightarrow> (nat \<Rightarrow> handler option) \<Rightarrow> sched" where
  "sched_new n maxev ds hs =
     \<lparr>fwork = fw_new (\<lambda>_ _. ()) 0 1 () ds, epoll = [], fdcbs = (\<lambda>_. None), sighandlers = hs, jobq = [], dowork = True,
      doserve = True, flushes = 0, maxevents = maxev, sch_pc = S_wait, wpcs = replicate n W_wait, crash = None, stray = False\<rparr>"

definition poll_start :: "fd \<Rightarrow> fd \<Rightarrow> sched \<Rightarrow> sched" where
  "poll_start l sig s =
     thrown_or (\<lambda>s. thrown_or (\<lambda>s. s) (registercb l Accept_cb mode_read False s)) (registercb sig Sig_cb mode_read False s)"

text \<open>The body of the loop up to the lookup, and what is done with the work found.\<close>

definition got_event :: "fd \<Rightarrow> nat \<Rightarrow> evs \<Rightarrow> (fd \<times> evs) list \<Rightarrow> sched \<Rightarrow> sched" where
  "got_event l a e r s =
     next_event r
       (if ev_hup e then delete_work l a s
        else s\<lparr>jobq := jobq s @ [Some a]\<rparr>)"

inductive poll_step :: "fd \<Rightarrow> sched \<Rightarrow> sched \<Rightarrow> bool" for l where
  poll_retire: "sch_pc s = S_wait \<Longrightarrow> \<not> dowork s \<Longrightarrow> poll_step l s (s\<lparr>sch_pc := S_done\<rparr>)"
| poll_fails: "sch_pc s = S_wait \<Longrightarrow> dowork s \<Longrightarrow> err \<noteq> EINTR \<Longrightarrow> poll_step l s (s\<lparr>crash := Some (ResourceErr ''epoll_wait'' err)\<rparr>)"
| poll_deliver: "sch_pc s = S_wait \<Longrightarrow> dowork s \<Longrightarrow> distinct (map fst evl) \<Longrightarrow> length evl \<le> maxevents s \<Longrightarrow>
    \<forall>de \<in> set evl. deliverable s de \<Longrightarrow> poll_step l s (deliver (map fst evl) (s\<lparr>sch_pc := S_proc evl\<rparr>))"
| poll_round: "sch_pc s = S_proc [] \<Longrightarrow> poll_step l s (s\<lparr>sch_pc := S_wait\<rparr>)"
| poll_accept: "sch_pc s = S_proc ((d, e) # r) \<Longrightarrow> fdcbs s d = Some Accept_cb \<Longrightarrow> (\<forall>c. x = Conn c \<longrightarrow> c \<notin> set (opens s)) \<Longrightarrow>
    poll_step l s (thrown_or (next_event r) (acceptcb x s))"
| poll_signal: "sch_pc s = S_proc ((d, e) # r) \<Longrightarrow> fdcbs s d = Some Sig_cb \<Longrightarrow> poll_step l s (next_event r (sigcb sigs s))"
| poll_find: "sch_pc s = S_proc ((d, e) # r) \<Longrightarrow> fdcbs s d = None \<Longrightarrow> ev_hup e \<or> ev_in e \<or> ev_out e \<Longrightarrow>
    find_work d (if ev_hup e \<or> ev_in e then mode_read else mode_write) s = (a, s') \<Longrightarrow> poll_step l s (s'\<lparr>sch_pc := S_got a e r\<rparr>)"
| poll_nothing: "sch_pc s = S_proc ((d, e) # r) \<Longrightarrow> fdcbs s d = None \<Longrightarrow> \<not> (ev_hup e \<or> ev_in e \<or> ev_out e) \<Longrightarrow>
    poll_step l s (next_event r s)"
| poll_got: "sch_pc s = S_got a e r \<Longrightarrow> poll_step l s (got_event l a e r s)"

section \<open>The workers\<close>

definition to_pc :: "nat \<Rightarrow> wpc \<Rightarrow> sched \<Rightarrow> sched" where
  "to_pc k pc s = s\<lparr>wpcs := (wpcs s)[k := pc]\<rparr>"

text \<open>What a call leaves in the work: its mode, and whether it is to be deleted.\<close>

definition set_work :: "nat \<Rightarrow> (work \<Rightarrow> work) \<Rightarrow> sched \<Rightarrow> sched" where
  "set_work a f s = s\<lparr>fwork := (fwork s)\<lparr>wobjs := (objs s)(a := map_option f (objs s a))\<rparr>\<rparr>"

text \<open>
  \<open>Worker::work\<close>, by the worker \<open>k\<close>. A call of a work that returns leaves any mode and any
  \<open>deleteme\<close>, and may have rescheduled the work (\<open>rs\<close>), as its last act; or it throws a
  \<open>SocketErr\<close>, which is caught here.
\<close>

inductive work_step :: "fd \<Rightarrow> nat \<Rightarrow> sched \<Rightarrow> sched \<Rightarrow> bool" for l k where
  work_null: "wpcs s ! k = W_wait \<Longrightarrow> jobq s = None # js \<Longrightarrow> work_step l k s (to_pc k W_null (s\<lparr>jobq := js\<rparr>))"
| work_retire: "wpcs s ! k = W_null \<Longrightarrow> work_step l k s (to_pc k W_exit (s\<lparr>jobq := jobq s @ [None]\<rparr>))"
| work_deq: "wpcs s ! k = W_wait \<Longrightarrow> jobq s = Some a # js \<Longrightarrow> work_step l k s (to_pc k (W_run a) (s\<lparr>jobq := js\<rparr>))"
| work_dead: "wpcs s ! k = W_run a \<or> wpcs s ! k = W_check a mine \<Longrightarrow> objs s a = None \<Longrightarrow>
    work_step l k s (to_pc k W_wait (s\<lparr>stray := True\<rparr>))"
| work_returns: "wpcs s ! k = W_run a \<Longrightarrow> objs s a = Some w \<Longrightarrow>
    work_step l k s (to_pc k (W_check a True) (set_work a (\<lambda>w. w\<lparr>wmode := m, deleteme := del\<rparr>) s))"
| work_reschedules: "wpcs s ! k = W_run a \<Longrightarrow> objs s a = Some w \<Longrightarrow>
    work_step l k s (thrown_or (to_pc k (W_check a False))
      (sch_reschedule a True (set_work a (\<lambda>w. w\<lparr>wmode := m, deleteme := del\<rparr>) s)))"
| work_throws: "wpcs s ! k = W_run a \<Longrightarrow> objs s a = Some w \<Longrightarrow>
    work_step l k s (to_pc k (W_check a True) (set_work a (\<lambda>w. w\<lparr>wmode := m, deleteme := True\<rparr>) s))"
| work_kept: "wpcs s ! k = W_check a mine \<Longrightarrow> objs s a = Some w \<Longrightarrow> \<not> deleteme w \<Longrightarrow> work_step l k s (to_pc k W_wait s)"
| work_deletes: "wpcs s ! k = W_check a mine \<Longrightarrow> objs s a = Some w \<Longrightarrow> deleteme w \<Longrightarrow>
    work_step l k s (to_pc k (W_delete a) (s\<lparr>stray := stray s \<or> \<not> mine\<rparr>))"
| work_unregisters: "wpcs s ! k = W_delete a \<Longrightarrow> objs s a = Some w \<Longrightarrow> work_step l k s (to_pc k (W_close a) (del_unregister a s))"
| work_closes: "wpcs s ! k = W_close a \<Longrightarrow> objs s a = Some w \<Longrightarrow> work_step l k s (to_pc k (W_free a) (del_close l a s))"
| work_frees: "wpcs s ! k = W_free a \<Longrightarrow> objs s a = Some w \<Longrightarrow> work_step l k s (to_pc k W_wait (del_free a s))"

text \<open>The threads of a turn of the server, until an exception leaves one of them.\<close>

inductive sch_step :: "fd \<Rightarrow> sched \<Rightarrow> sched \<Rightarrow> bool" for l where
  step_poll: "crash s = None \<Longrightarrow> poll_step l s s' \<Longrightarrow> sch_step l s s'"
| step_work: "crash s = None \<Longrightarrow> k < length (wpcs s) \<Longrightarrow> work_step l k s s' \<Longrightarrow> sch_step l s s'"

inductive sch_run :: "fd \<Rightarrow> nat \<Rightarrow> sched \<Rightarrow> sched \<Rightarrow> bool" for l where
  run_refl: "sch_run l 0 s s"
| run_step: "sch_run l n s s' \<Longrightarrow> sch_step l s' s'' \<Longrightarrow> sch_run l (Suc n) s s''"

section \<open>Runs that are written down\<close>

text \<open>
  A step named by what the kernel and the works choose in it, as a function: the sequence of such
  choices determines the run, and the state at its end can be computed.
\<close>

datatype move =
    M_deliver "(fd \<times> evs) list" | M_accept fd | M_signal "nat list" | M_find | M_got | M_round
  | M_take nat | M_return nat work_mode bool | M_reschedule nat work_mode bool | M_go nat

fun worker_goes :: "fd \<Rightarrow> nat \<Rightarrow> sched \<Rightarrow> sched option" where
  "worker_goes l k s =
     (case wpcs s ! k of
        W_null \<Rightarrow> Some (to_pc k W_exit (s\<lparr>jobq := jobq s @ [None]\<rparr>))
      | W_check a mine \<Rightarrow>
          (case objs s a of
             None \<Rightarrow> Some (to_pc k W_wait (s\<lparr>stray := True\<rparr>))
           | Some w \<Rightarrow> if deleteme w then Some (to_pc k (W_delete a) (s\<lparr>stray := stray s \<or> \<not> mine\<rparr>)) else Some (to_pc k W_wait s))
      | W_delete a \<Rightarrow> if objs s a = None then None else Some (to_pc k (W_close a) (del_unregister a s))
      | W_close a \<Rightarrow> if objs s a = None then None else Some (to_pc k (W_free a) (del_close l a s))
      | W_free a \<Rightarrow> if objs s a = None then None else Some (to_pc k W_wait (del_free a s))
      | _ \<Rightarrow> None)"

fun do_move :: "fd \<Rightarrow> move \<Rightarrow> sched \<Rightarrow> sched option" where
  "do_move l (M_deliver evl) s =
     (if sch_pc s = S_wait \<and> dowork s \<and> distinct (map fst evl) \<and> length evl \<le> maxevents s \<and> list_all (deliverable s) evl
      then Some (deliver (map fst evl) (s\<lparr>sch_pc := S_proc evl\<rparr>)) else None)"
| "do_move l (M_accept c) s =
     (case sch_pc s of
        S_proc ((d, e) # r) \<Rightarrow>
          if fdcbs s d = Some Accept_cb \<and> c \<notin> set (opens s) then Some (thrown_or (next_event r) (acceptcb (Conn c) s)) else None
      | _ \<Rightarrow> None)"
| "do_move l (M_signal sigs) s =
     (case sch_pc s of
        S_proc ((d, e) # r) \<Rightarrow> if fdcbs s d = Some Sig_cb then Some (next_event r (sigcb sigs s)) else None
      | _ \<Rightarrow> None)"
| "do_move l M_find s =
     (case sch_pc s of
        S_proc ((d, e) # r) \<Rightarrow>
          if fdcbs s d = None \<and> (ev_hup e \<or> ev_in e \<or> ev_out e)
          then (case find_work d (if ev_hup e \<or> ev_in e then mode_read else mode_write) s of (a, s') \<Rightarrow> Some (s'\<lparr>sch_pc := S_got a e r\<rparr>))
          else None
      | _ \<Rightarrow> None)"
| "do_move l M_got s = (case sch_pc s of S_got a e r \<Rightarrow> Some (got_event l a e r s) | _ \<Rightarrow> None)"
| "do_move l M_round s =
     (if sch_pc s = S_proc [] then Some (s\<lparr>sch_pc := S_wait\<rparr>)
      else if sch_pc s = S_wait \<and> \<not> dowork s then Some (s\<lparr>sch_pc := S_done\<rparr>) else None)"
| "do_move l (M_take k) s =
     (if k < length (wpcs s) \<and> wpcs s ! k = W_wait
      then (case jobq s of
              [] \<Rightarrow> None
            | None # js \<Rightarrow> Some (to_pc k W_null (s\<lparr>jobq := js\<rparr>))
            | Some a # js \<Rightarrow> Some (to_pc k (W_run a) (s\<lparr>jobq := js\<rparr>)))
      else None)"
| "do_move l (M_return k m del) s =
     (if k < length (wpcs s)
      then (case wpcs s ! k of
              W_run a \<Rightarrow> if objs s a = None then None
                else Some (to_pc k (W_check a True) (set_work a (\<lambda>w. w\<lparr>wmode := m, deleteme := del\<rparr>) s))
            | _ \<Rightarrow> None)
      else None)"
| "do_move l (M_reschedule k m del) s =
     (if k < length (wpcs s)
      then (case wpcs s ! k of
              W_run a \<Rightarrow> if objs s a = None then None
                else Some (thrown_or (to_pc k (W_check a False)) (sch_reschedule a True (set_work a (\<lambda>w. w\<lparr>wmode := m, deleteme := del\<rparr>) s)))
            | _ \<Rightarrow> None)
      else None)"
| "do_move l (M_go k) s = (if k < length (wpcs s) then worker_goes l k s else None)"

fun moves :: "fd \<Rightarrow> move list \<Rightarrow> sched \<Rightarrow> sched option" where
  "moves l [] s = Some s"
| "moves l (m # ms) s = (if crash s = None then Option.bind (do_move l m s) (moves l ms) else None)"

lemma worker_goes_sound:
  assumes goes: "worker_goes l k s = Some s'"
  shows "work_step l k s s'"
proof (cases "wpcs s ! k")
  case W_null
  then show ?thesis using goes work_step.work_retire [of s k l] by simp
next
  case (W_check a mine)
  show ?thesis
  proof (cases "objs s a")
    case None
    then show ?thesis using goes W_check work_step.work_dead [of s k a mine l] by simp
  next
    case (Some w)
    then show ?thesis using goes W_check work_step.work_kept [of s k a mine w l] work_step.work_deletes [of s k a mine w l]
      by (simp split: if_splits)
  qed
next
  case (W_delete a)
  then obtain w where "objs s a = Some w" using goes by (cases "objs s a") simp_all
  then show ?thesis using goes W_delete work_step.work_unregisters [of s k a w l] by simp
next
  case (W_close a)
  then obtain w where "objs s a = Some w" using goes by (cases "objs s a") simp_all
  then show ?thesis using goes W_close work_step.work_closes [of s k a w l] by simp
next
  case (W_free a)
  then obtain w where "objs s a = Some w" using goes by (cases "objs s a") simp_all
  then show ?thesis using goes W_free work_step.work_frees [of s k a w l] by simp
qed (use goes in simp_all)

text \<open>The move of the scheduler thread, of a worker.\<close>

lemma poll_move_sound:
  assumes m: "do_move l m s = Some s'" and "m \<in> {M_find, M_got, M_round} \<or> (\<exists>x. m = M_deliver x) \<or> (\<exists>x. m = M_accept x) \<or> (\<exists>x. m = M_signal x)"
  shows "poll_step l s s'"
proof -
  consider (deliver) evl where "m = M_deliver evl" | (got) "m = M_got" | (round) "m = M_round"
    | (event) "m = M_find \<or> (\<exists>x. m = M_accept x) \<or> (\<exists>x. m = M_signal x)" using assms(2) by blast
  then show ?thesis
  proof cases
    case deliver
    then show ?thesis using m poll_step.poll_deliver [of s evl l] by (simp add: list_all_iff split: if_splits)
  next
    case got
    then obtain a e r where "sch_pc s = S_got a e r" using m by (cases "sch_pc s") simp_all
    then show ?thesis using m got poll_step.poll_got [of s a e r l] by simp
  next
    case round
    then show ?thesis using m poll_step.poll_round [of s l] poll_step.poll_retire [of s l] by (simp split: if_splits)
  next
    case event
    then obtain evl where "sch_pc s = S_proc evl" using m by (cases "sch_pc s") auto
    moreover from this obtain d e r where "evl = (d, e) # r" using m event by (cases evl) auto
    ultimately have pc: "sch_pc s = S_proc ((d, e) # r)" by simp
    from event consider (find) "m = M_find" | (accept) c where "m = M_accept c" | (signal) sigs where "m = M_signal sigs" by blast
    then show ?thesis
    proof cases
      case find
      obtain a s1 where "find_work d (if ev_hup e \<or> ev_in e then mode_read else mode_write) s = (a, s1)" by fastforce
      then show ?thesis using m find pc poll_step.poll_find [OF pc, of a s1 l] by (simp split: if_splits)
    next
      case accept
      then show ?thesis using m pc poll_step.poll_accept [OF pc, of "Conn c" l] by (simp split: if_splits)
    next
      case signal
      then show ?thesis using m pc poll_step.poll_signal [OF pc, of l sigs] by (simp split: if_splits)
    qed
  qed
qed

lemma work_move_sound:
  assumes m: "do_move l m s = Some s'" and "m = M_take k \<or> m = M_return k mo del \<or> m = M_reschedule k mo del \<or> m = M_go k"
  shows "k < length (wpcs s) \<and> work_step l k s s'"
proof -
  have k: "k < length (wpcs s)" using assms by (auto split: if_splits)
  from assms(2) consider (go) "m = M_go k" | (take) "m = M_take k" | (run) "m = M_return k mo del \<or> m = M_reschedule k mo del" by blast
  then have "work_step l k s s'"
  proof cases
    case go
    then show ?thesis using m k worker_goes_sound by (simp del: worker_goes.simps)
  next
    case take
    then have wait: "wpcs s ! k = W_wait" using m by (simp split: if_splits)
    then obtain j js where j: "jobq s = j # js" using m k take by (cases "jobq s") simp_all
    then show ?thesis using m k take wait work_step.work_null [OF wait, of js l] work_step.work_deq [OF wait, of _ js l]
      by (cases j) simp_all
  next
    case run
    then obtain a where a: "wpcs s ! k = W_run a" using m k by (cases "wpcs s ! k") auto
    then obtain w where w: "objs s a = Some w" using m k run by (cases "objs s a") auto
    show ?thesis using m k run a w work_step.work_returns [OF a w, where m = mo and del = del] work_step.work_reschedules [OF a w, where m = mo and del = del] by auto
  qed
  then show ?thesis using k by simp
qed

lemma do_move_sound:
  assumes m: "do_move l m s = Some s'" and no: "crash s = None"
  shows "sch_step l s s'"
proof (cases m)
  case (M_take k)
  then show ?thesis using work_move_sound [OF m, of k] no by (auto intro: sch_step.step_work)
next
  case (M_return k mo del)
  then show ?thesis using work_move_sound [OF m, of k mo del] no by (auto intro: sch_step.step_work)
next
  case (M_reschedule k mo del)
  then show ?thesis using work_move_sound [OF m, of k mo del] no by (auto intro: sch_step.step_work)
next
  case (M_go k)
  then show ?thesis using work_move_sound [OF m, of k] no by (auto intro: sch_step.step_work)
qed (use poll_move_sound [OF m] no in \<open>auto intro: sch_step.step_poll\<close>)

lemma run_front: "sch_run l n s' s'' \<Longrightarrow> sch_step l s s' \<Longrightarrow> sch_run l (Suc n) s s''"
  by (induction rule: sch_run.induct) (auto intro: sch_run.intros)

lemma moves_sound: "moves l ms s = Some s' \<Longrightarrow> sch_run l (length ms) s s'"
proof (induction ms arbitrary: s)
  case Nil
  then show ?case by (simp add: sch_run.run_refl)
next
  case (Cons m ms)
  then obtain s1 where "crash s = None" "do_move l m s = Some s1" "moves l ms s1 = Some s'"
    by (auto split: if_splits Option.bind_splits)
  then show ?case using Cons.IH do_move_sound run_front by (metis length_Cons)
qed

end
