(* ===== verification/One_Place.thy ===== *)
theory One_Place
  imports Scheduler "HOL-Library.Multiset"
begin

text \<open>
  The invariant behind the comments of \<open>Scheduler.cpp\<close>: a connection is in one place at a time.
\<close>

section \<open>Who has a connection\<close>

fun ready :: "spc \<Rightarrow> fd list" where
  "ready (S_proc evl) = map fst evl"
| "ready (S_got a e r) = map fst r"
| "ready _ = []"

fun in_hand :: "spc \<Rightarrow> nat multiset" where
  "in_hand (S_got a e r) = {#a#}"
| "in_hand _ = {#}"

fun queued :: "nat option list \<Rightarrow> nat multiset" where
  "queued [] = {#}"
| "queued (None # js) = queued js"
| "queued (Some a # js) = add_mset a (queued js)"

fun working :: "wpc \<Rightarrow> nat multiset" where
  "working (W_run a) = {#a#}"
| "working (W_check a mine) = (if mine then {#a#} else {#})"
| "working (W_delete a) = {#a#}"
| "working _ = {#}"

fun closing :: "wpc \<Rightarrow> nat multiset" where
  "closing (W_close a) = {#a#}"
| "closing _ = {#}"

fun freeing :: "wpc \<Rightarrow> nat multiset" where
  "freeing (W_free a) = {#a#}"
| "freeing _ = {#}"

definition by_workers :: "(wpc \<Rightarrow> nat multiset) \<Rightarrow> sched \<Rightarrow> nat multiset" where
  "by_workers f s = sum_list (map f (wpcs s))"

definition serving :: "sched \<Rightarrow> nat multiset" where
  "serving s = in_hand (sch_pc s) + queued (jobq s) + by_workers working s"

definition ready_conns :: "sched \<Rightarrow> fd multiset" where
  "ready_conns s = filter_mset (\<lambda>d. fdcbs s d = None) (mset (ready (sch_pc s)))"

definition armed_conns :: "sched \<Rightarrow> fd multiset" where
  "armed_conns s = mset (map fst (filter (\<lambda>(d, r). oneshot r \<and> armed r) (epoll s)))"

definition fd_at :: "sched \<Rightarrow> nat \<Rightarrow> fd" where
  "fd_at s a = wfd (the (objs s a))"

text \<open>
  \<open>R\<close>: the connections in the list of events; \<open>S\<close>: the works that somebody has; \<open>C\<close> and \<open>F\<close>: those
  out of the map whose descriptor is to be closed, whose memory is to be freed.
\<close>

definition held :: "fd multiset \<Rightarrow> nat multiset \<Rightarrow> nat multiset \<Rightarrow> sched \<Rightarrow> fd multiset" where
  "held R S C s = armed_conns s + R + image_mset (fd_at s) (S + C)"

definition data_ok :: "fd \<Rightarrow> sched \<Rightarrow> bool" where
  "data_ok l s \<longleftrightarrow> distinct (map fst (works s)) \<and> (\<forall>(d, a) \<in> set (works s). \<exists>w. objs s a = Some w \<and> wfd w = d) \<and>
     fst ` set (works s) \<subseteq> set (opens s) \<and> distinct (opens s) \<and> (\<forall>a \<ge> heap_next (wpool (fwork s)). objs s a = None) \<and>
     distinct (map fst (epoll s)) \<and> (\<forall>d. fdcbs s d \<noteq> None \<longrightarrow> d \<in> fst ` set (works s)) \<and> fdcbs s l \<noteq> None \<and>
     (\<forall>(d, r) \<in> set (epoll s). oneshot r \<longleftrightarrow> fdcbs s d = None)"

definition own_ok :: "fd \<Rightarrow> fd multiset \<Rightarrow> nat multiset \<Rightarrow> nat multiset \<Rightarrow> nat multiset \<Rightarrow> sched \<Rightarrow> bool" where
  "own_ok l R S C F s \<longleftrightarrow> data_ok l s \<and> (\<forall>d. count (held R S C s) d \<le> 1) \<and>
     (\<forall>a \<in># S. (fd_at s a, a) \<in> set (works s) \<and> fdcbs s (fd_at s a) = None) \<and>
     (\<forall>a \<in># C. objs s a \<noteq> None \<and> fd_at s a \<in> set (opens s) \<and> fd_at s a \<notin> fst ` set (works s)) \<and>
     (\<forall>a \<in># F. objs s a \<noteq> None \<and> a \<notin> snd ` set (works s)) \<and> (\<forall>a. count (C + F) a \<le> 1) \<and>
     fst ` set (epoll s) = fst ` set (works s) \<union> fd_at s ` set_mset C \<and> set_mset R \<subseteq> fst ` set (works s)"

definition sch_inv :: "fd \<Rightarrow> sched \<Rightarrow> bool" where
  "sch_inv l s \<longleftrightarrow> own_ok l (ready_conns s) (serving s) (by_workers closing s) (by_workers freeing s) s"

lemma same_data:
  assumes "fwork s' = fwork s" and "epoll s' = epoll s" and "fdcbs s' = fdcbs s"
  shows "own_ok l R S C F s' \<longleftrightarrow> own_ok l R S C F s"
proof -
  have "fd_at s' = fd_at s" by (rule ext) (simp add: fd_at_def assms)
  then show ?thesis by (simp add: own_ok_def data_ok_def held_def armed_conns_def assms)
qed

lemma own_okI:
  assumes "data_ok l s" and "\<And>d. count (held R S C s) d \<le> 1"
    and "\<And>a. a \<in># S \<Longrightarrow> (fd_at s a, a) \<in> set (works s)" and "\<And>a. a \<in># S \<Longrightarrow> fdcbs s (fd_at s a) = None"
    and "\<And>a. a \<in># C \<Longrightarrow> objs s a \<noteq> None" and "\<And>a. a \<in># C \<Longrightarrow> fd_at s a \<in> set (opens s)"
    and "\<And>a. a \<in># C \<Longrightarrow> fd_at s a \<notin> fst ` set (works s)"
    and "\<And>a. a \<in># F \<Longrightarrow> objs s a \<noteq> None" and "\<And>a. a \<in># F \<Longrightarrow> a \<notin> snd ` set (works s)"
    and "\<And>a. count (C + F) a \<le> 1" and "fst ` set (epoll s) = fst ` set (works s) \<union> fd_at s ` set_mset C"
    and "set_mset R \<subseteq> fst ` set (works s)"
  shows "own_ok l R S C F s"
  unfolding own_ok_def using assms by simp

lemma own_okD:
  assumes "own_ok l R S C F s"
  shows "data_ok l s" and "count (held R S C s) d \<le> 1"
    and "a \<in># S \<Longrightarrow> (fd_at s a, a) \<in> set (works s)" and "a \<in># S \<Longrightarrow> fdcbs s (fd_at s a) = None"
    and "a \<in># C \<Longrightarrow> objs s a \<noteq> None" and "a \<in># C \<Longrightarrow> fd_at s a \<in> set (opens s)"
    and "a \<in># C \<Longrightarrow> fd_at s a \<notin> fst ` set (works s)"
    and "a \<in># F \<Longrightarrow> objs s a \<noteq> None" and "a \<in># F \<Longrightarrow> a \<notin> snd ` set (works s)"
    and "count (C + F) a \<le> 1" and "fst ` set (epoll s) = fst ` set (works s) \<union> fd_at s ` set_mset C"
    and "set_mset R \<subseteq> fst ` set (works s)"
  using assms unfolding own_ok_def by simp_all

lemma data_okI:
  assumes "distinct (map fst (works s))" and "\<And>d a. (d, a) \<in> set (works s) \<Longrightarrow> objs s a \<noteq> None"
    and "\<And>d a. (d, a) \<in> set (works s) \<Longrightarrow> fd_at s a = d" and "fst ` set (works s) \<subseteq> set (opens s)" and "distinct (opens s)"
    and "\<And>a. heap_next (wpool (fwork s)) \<le> a \<Longrightarrow> objs s a = None" and "distinct (map fst (epoll s))"
    and "\<And>d. fdcbs s d \<noteq> None \<Longrightarrow> d \<in> fst ` set (works s)" and "fdcbs s l \<noteq> None"
    and "\<And>d r. (d, r) \<in> set (epoll s) \<Longrightarrow> oneshot r \<longleftrightarrow> fdcbs s d = None"
  shows "data_ok l s"
proof -
  have "\<exists>w. objs s a = Some w \<and> wfd w = d" if "(d, a) \<in> set (works s)" for d a
    using assms(2,3) [OF that] by (auto simp: fd_at_def)
  then show ?thesis unfolding data_ok_def by (intro conjI) (use assms in auto)
qed

lemma data_okD:
  assumes "data_ok l s"
  shows "distinct (map fst (works s))" and "(d, a) \<in> set (works s) \<Longrightarrow> objs s a \<noteq> None"
    and "(d, a) \<in> set (works s) \<Longrightarrow> fd_at s a = d" and "fst ` set (works s) \<subseteq> set (opens s)" and "distinct (opens s)"
    and "heap_next (wpool (fwork s)) \<le> a \<Longrightarrow> objs s a = None" and "distinct (map fst (epoll s))"
    and "fdcbs s d \<noteq> None \<Longrightarrow> d \<in> fst ` set (works s)" and "fdcbs s l \<noteq> None"
    and "(d, r) \<in> set (epoll s) \<Longrightarrow> oneshot r \<longleftrightarrow> fdcbs s d = None"
  using assms unfolding data_ok_def by (auto simp: fd_at_def)

text \<open>Whoever has less has no less right to it.\<close>

lemma own_less:
  assumes ok: "own_ok l R S C F s" and "R' \<subseteq># R" and "S' \<subseteq># S"
  shows "own_ok l R' S' C F s"
proof -
  have "held R' S' C s \<subseteq># held R S C s"
    using assms(2,3) by (simp add: held_def subset_mset.add_mono image_mset_subseteq_mono)
  then have "count (held R' S' C s) d \<le> 1" for d
    using own_okD(2) [OF ok, of d] by (meson le_trans mset_subset_eq_count)
  moreover have "set_mset R' \<subseteq> set_mset R" and S: "\<And>a. a \<in># S' \<Longrightarrow> a \<in># S"
    using assms(2,3) by (simp_all add: set_mset_mono mset_subset_eqD)
  ultimately show ?thesis
    by (intro own_okI own_okD [OF ok] S order_trans [OF _ own_okD(12) [OF ok]])
qed

text \<open>The lookup of a connection in the list of events.\<close>

lemma own_find:
  assumes ok: "own_ok l (add_mset d R) S C F s" and d: "fdcbs s d = None"
  obtains a where "find_work d m s = (a, s)" and "own_ok l R (add_mset a S) C F s"
proof -
  note D = own_okD [OF ok] and dat = data_okD [OF own_okD(1) [OF ok]]
  have "d \<in> fst ` set (works s)" using D(12) by simp
  then obtain a where a: "(d, a) \<in> set (works s)" by force
  then have "map_of (works s) d = Some a" using dat(1) by simp
  then have f: "find_work d m s = (a, s)" by (simp add: find_work_def fw_find_def)
  have fd: "fd_at s a = d" by (rule dat(3) [OF a])
  have held: "held R (add_mset a S) C s = held (add_mset d R) S C s" by (simp add: held_def fd)
  have "own_ok l R (add_mset a S) C F s"
  proof (rule own_okI)
    show "(fd_at s b, b) \<in> set (works s)" if "b \<in># add_mset a S" for b using that a fd D(3) by auto
    show "fdcbs s (fd_at s b) = None" if "b \<in># add_mset a S" for b using that d fd D(4) by auto
    show "count (held R (add_mset a S) C s) x \<le> 1" for x unfolding held by (rule D(2))
    show "set_mset R \<subseteq> fst ` set (works s)" using D(12) by simp
  qed (fact D)+
  then show ?thesis using f that by blast
qed

text \<open>What the kernel has armed.\<close>

lemma count_armed:
  assumes "distinct (map fst (epoll s))"
  shows "count (armed_conns s) d = (case map_of (epoll s) d of None \<Rightarrow> 0 | Some r \<Rightarrow> if oneshot r \<and> armed r then 1 else 0)"
proof -
  have "count (mset (map fst (filter (\<lambda>(d, r). oneshot r \<and> armed r) es))) d =
      (case map_of es d of None \<Rightarrow> 0 | Some r \<Rightarrow> if oneshot r \<and> armed r then 1 else 0)" if "distinct (map fst es)" for es
    using that
  proof (induction es)
    case (Cons e es)
    obtain d' r where e: "e = (d', r)" by force
    have "map_of es d' = None" using Cons.prems e by (simp add: map_of_eq_None_iff)
    then show ?case using Cons e by auto
  qed simp
  then show ?thesis using assms by (simp add: armed_conns_def)
qed

lemma map_of_upd: "map_of (map (\<lambda>(d, r). (d, f d r)) es) d = map_option (f d) (map_of es d)"
  by (induction es) auto

lemma held_opens:
  assumes "own_ok l R S C F s" and "d \<notin> set (opens s)"
  shows "count (held R S C s) d = 0"
proof -
  note D = own_okD [OF assms(1)] and dat = data_okD [OF own_okD(1) [OF assms(1)]]
  have keys: "d \<notin> fst ` set (works s)" using dat(4) assms(2) by blast
  have C: "d \<noteq> fd_at s a" if "a \<in># C" for a using D(6) [OF that] assms(2) by auto
  have S: "d \<noteq> fd_at s a" if "a \<in># S" for a using D(3) [OF that] keys by force
  have "map_of (epoll s) d = None" using D(11) keys C by (auto simp: map_of_eq_None_iff)
  then have "count (armed_conns s) d = 0" by (simp add: count_armed [OF dat(7)])
  moreover have "count R d = 0" using D(12) keys by (auto simp: count_eq_zero_iff)
  ultimately show ?thesis using S C by (auto simp: held_def count_eq_zero_iff)
qed

text \<open>Each transfer of a connection. What a work leaves in itself:\<close>

lemma own_set_work:
  assumes ok: "own_ok l R S C F s" and f: "\<And>w. wfd (f w) = wfd w"
  shows "own_ok l R S C F (set_work a f s)"
proof -
  let ?s = "set_work a f s"
  have live: "objs ?s b = None \<longleftrightarrow> objs s b = None" for b by (auto simp: set_work_def)
  have fd: "objs s b \<noteq> None \<Longrightarrow> fd_at ?s b = fd_at s b" for b using f by (auto simp: set_work_def fd_at_def)
  have eq: "works ?s = works s" "opens ?s = opens s" "epoll ?s = epoll s" "fdcbs ?s = fdcbs s" "wpool (fwork ?s) = wpool (fwork s)"
    by (simp_all add: set_work_def)
  note D = own_okD [OF ok] and dat = data_okD [OF own_okD(1) [OF ok]]
  have fdS: "fd_at ?s b = fd_at s b" if "b \<in># S" for b using fd dat(2) D(3) that by blast
  have fdC: "fd_at ?s b = fd_at s b" if "b \<in># C" for b using fd D(5) that by blast
  have "data_ok l ?s"
    by (rule data_okI) (use dat live fd in \<open>auto simp: eq simp del: not_None_eq\<close>)
  moreover have "held R S C ?s = held R S C s"
    using fdS fdC by (auto simp: held_def armed_conns_def eq intro!: image_mset_cong arg_cong2 [of _ _ _ _ "(+)"])
  moreover have "fd_at ?s ` set_mset C = fd_at s ` set_mset C" using fdC by (auto intro!: image_cong)
  ultimately show ?thesis
    by (intro own_okI) (use D fdS fdC live in \<open>simp_all add: eq del: not_None_eq\<close>)
qed

text \<open>The wait: a connection that is armed goes into the list of events, and is disarmed.\<close>

lemma own_deliver:
  assumes ok: "own_ok l {#} S C F s" and ds: "\<And>d. d \<in> set ds \<Longrightarrow> \<exists>r. map_of (epoll s) d = Some r \<and> armed r" and "distinct ds"
  shows "own_ok l (filter_mset (\<lambda>d. fdcbs s d = None) (mset ds)) S C F (deliver ds s)"
proof -
  let ?s = "deliver ds s" and ?R = "filter_mset (\<lambda>d. fdcbs s d = None) (mset ds)"
  note D = own_okD [OF ok] and dat = data_okD [OF own_okD(1) [OF ok]]
  have eq: "fwork ?s = fwork s" "fdcbs ?s = fdcbs s" by (simp_all add: deliver_def)
  have fd: "fd_at ?s = fd_at s" by (rule ext) (simp add: fd_at_def eq)
  have keys: "map fst (epoll ?s) = map fst (epoll s)" by (auto simp: deliver_def)
  have fsts: "fst ` set (epoll ?s) = fst ` set (epoll s)" using keys by (metis list.set_map)
  have regs: "oneshot r \<longleftrightarrow> fdcbs s d = None" if "(d, r) \<in> set (epoll ?s)" for d r
    using that dat(10) by (auto simp: deliver_def split: if_splits)
  have data: "data_ok l ?s" by (rule data_okI) (use dat fd keys regs in \<open>simp_all add: eq\<close>)
  have mo: "map_of (epoll ?s) d = map_option (\<lambda>r. if d \<in> set ds \<and> oneshot r then r\<lparr>armed := False\<rparr> else r) (map_of (epoll s) d)" for d
    by (simp add: deliver_def map_of_upd)
  have cnt: "count (armed_conns ?s) d + count ?R d = count (armed_conns s) d" for d
  proof (cases "map_of (epoll s) d")
    case None
    then have "d \<notin> set ds" using ds by fastforce
    then show ?thesis using None dat(7) keys by (simp add: count_armed mo not_in_iff)
  next
    case (Some r)
    have "count (mset ds) d = (if d \<in> set ds then 1 else 0)" using assms(3) by (simp add: distinct_count_atmost_1)
    moreover have "oneshot r \<longleftrightarrow> fdcbs s d = None" using dat(10) map_of_SomeD [OF Some] .
    moreover have "d \<in> set ds \<Longrightarrow> armed r" using ds Some by fastforce
    ultimately show ?thesis using Some dat(7) keys by (simp add: count_armed mo)
  qed
  have "held ?R S C ?s = held {#} S C s"
    by (rule multiset_eqI) (use cnt in \<open>simp add: held_def fd\<close>)
  moreover have "set_mset ?R \<subseteq> fst ` set (works s)"
  proof
    fix d assume "d \<in># ?R"
    then have d: "d \<in> set ds" "fdcbs s d = None" by auto
    then have "d \<in> fst ` set (epoll s)" using ds map_of_SomeD by (metis fst_conv image_eqI)
    moreover have "count (armed_conns s) d = 1"
      using ds [OF d(1)] dat(10) map_of_SomeD d(2) by (fastforce simp: count_armed [OF dat(7)])
    then have "count (image_mset (fd_at s) (S + C)) d = 0" using D(2) [of d] by (simp add: held_def)
    then have "d \<notin> fd_at s ` set_mset C" by (auto simp: count_eq_zero_iff)
    ultimately show "d \<in> fst ` set (works s)" using D(11) by auto
  qed
  ultimately show ?thesis by (intro own_okI) (use D data in \<open>simp_all add: eq fd fsts\<close>)
qed

text \<open>A worker reschedules the work it has; it is registered, so this does not fail.\<close>

lemma own_reschedule:
  assumes ok: "own_ok l R (add_mset a S) C F s"
  obtains s' where "sch_reschedule a True s = (None, s')" and "own_ok l R S C F s'" and
    "s' = s\<lparr>epoll := epoll s'\<rparr>"
proof -
  note D = own_okD [OF ok] and dat = data_okD [OF own_okD(1) [OF ok]]
  let ?d = "fd_at s a" and ?r = "\<lparr>emode = wmode (the (objs s a)), oneshot = True, armed = True\<rparr>"
  define es where "es = map (\<lambda>(d', r'). (d', if d' = ?d then ?r else r')) (epoll s)"
  let ?s = "s\<lparr>epoll := es\<rparr>"
  have key: "(?d, a) \<in> set (works s)" "fdcbs s ?d = None" using D(3,4) by simp_all
  then have "?d \<in> set (opens s)" using dat(4) by force
  moreover have "?d \<in> fst ` set (epoll s)" using key D(11) by force
  then obtain r where r: "map_of (epoll s) ?d = Some r" by (metis map_of_eq_None_iff not_None_eq)
  ultimately have ex: "sch_reschedule a True s = (None, ?s)"
    by (simp add: sch_reschedule_def epoll_mod_def Let_def fd_at_def es_def)
  have fd: "fd_at ?s = fd_at s" by (rule ext) (simp add: fd_at_def)
  have keys: "map fst es = map fst (epoll s)" by (auto simp: es_def)
  have fsts: "fst ` set es = fst ` set (epoll s)" using keys by (metis list.set_map)
  have regs: "oneshot r \<longleftrightarrow> fdcbs s d = None" if "(d, r) \<in> set es" for d r
    using that dat(10) key(2) by (auto simp: es_def split: if_splits)
  have data: "data_ok l ?s" by (rule data_okI) (use dat fd keys regs in \<open>simp_all\<close>)
  have mo: "map_of es d = map_option (\<lambda>r. if d = ?d then ?r else r) (map_of (epoll s) d)" for d
    by (simp add: es_def map_of_upd)
  have armed: "count (armed_conns ?s) d \<le> count (armed_conns s) d + (if d = ?d then 1 else 0)" for d
    using r count_armed [OF dat(7)] count_armed [of ?s] keys dat(7) by (simp add: mo del: map_of_map split: option.splits)
  have "count (held R S C ?s) d \<le> count (held R (add_mset a S) C s) d" for d
    using armed [of d] by (simp add: held_def fd split: if_splits)
  then have "count (held R S C ?s) d \<le> 1" for d using D(2) [of d] by (meson le_trans)
  then have "own_ok l R S C F ?s" by (intro own_okI) (use D data fsts in \<open>simp_all add: fd\<close>)
  then show ?thesis using ex that by simp
qed

text \<open>A work that is deleted: out of the map, its descriptor closed, its memory freed.\<close>

lemma own_alone:
  assumes ok: "own_ok l R (add_mset a S) C F s \<or> own_ok l R S (add_mset a C) F s"
  shows "b \<in># S + C \<Longrightarrow> fd_at s b \<noteq> fd_at s a" and "fd_at s a \<notin># R"
proof -
  have "count (held R (add_mset a S) C s) (fd_at s a) \<le> 1"
    using ok own_okD(2) by (metis (no_types) add_mset_add_single held_def union_mset_add_mset_left union_mset_add_mset_right)
  then have no: "count (image_mset (fd_at s) (S + C)) (fd_at s a) = 0" "count R (fd_at s a) = 0"
    by (simp_all add: held_def)
  show "fd_at s a \<notin># R" using no(2) by (simp add: not_in_iff)
  show "fd_at s b \<noteq> fd_at s a" if "b \<in># S + C"
    using no(1) that by (metis count_eq_zero_iff image_eqI set_image_mset)
qed

lemma own_unregister:
  assumes ok: "own_ok l R (add_mset a S) C F s"
  shows "own_ok l R S (add_mset a C) F (del_unregister a s)"
proof -
  let ?s = "del_unregister a s" and ?d = "fd_at s a"
  note D = own_okD [OF ok] and dat = data_okD [OF own_okD(1) [OF ok]]
  note alone = own_alone [OF disjI1, OF ok]
  have key: "(?d, a) \<in> set (works s)" "fdcbs s ?d = None" using D(3,4) by simp_all
  have ws: "works ?s = filter (\<lambda>(d, a). d \<noteq> ?d) (works s)" by (simp add: del_unregister_def fw_unregister_def fd_at_def)
  have eq: "objs ?s = objs s" "opens ?s = opens s" "epoll ?s = epoll s" "fdcbs ?s = fdcbs s" "wpool (fwork ?s) = wpool (fwork s)"
    by (simp_all add: del_unregister_def fw_unregister_def)
  have fd: "fd_at ?s = fd_at s" by (rule ext) (simp add: fd_at_def eq)
  have keys: "fst ` set (works ?s) = fst ` set (works s) - {?d}" by (force simp: ws)
  have mem: "(d, b) \<in> set (works ?s) \<longleftrightarrow> (d, b) \<in> set (works s) \<and> d \<noteq> ?d" for d b by (auto simp: ws)
  have "distinct (map fst (works ?s))" using dat(1) by (simp add: ws distinct_map_filter)
  then have data: "data_ok l ?s"
    by (intro data_okI) (use dat fd keys mem key(2) in \<open>auto simp: eq simp del: not_None_eq\<close>)
  have held: "held R S (add_mset a C) ?s = held R (add_mset a S) C s" by (simp add: held_def fd armed_conns_def eq)
  have C: "a \<notin># C" and F: "a \<notin># F" using D(7) [of a] D(9) [of a] key(1) by force+
  have cnt: "count (add_mset a C + F) b \<le> 1" for b using D(10) [of b] C F by (cases "b = a") (simp_all add: not_in_iff)
  have fsts: "fst ` set (epoll s) = fst ` set (works ?s) \<union> fd_at s ` set_mset (add_mset a C)"
    using D(11) keys key(1) by force
  have Fs: "b \<notin> snd ` set (works ?s)" if "b \<in># F" for b using D(9) [OF that] mem by force
  show ?thesis
  proof (rule own_okI)
    show "data_ok l ?s" by fact
    show "count (held R S (add_mset a C) ?s) d \<le> 1" for d unfolding held by (rule D(2))
    show "(fd_at ?s b, b) \<in> set (works ?s)" if "b \<in># S" for b using that D(3) [of b] alone(1) [of b] by (simp add: fd mem)
    show "fdcbs ?s (fd_at ?s b) = None" if "b \<in># S" for b using that D(4) [of b] by (simp add: fd eq)
    show "objs ?s b \<noteq> None" if "b \<in># add_mset a C" for b using that D(5) dat(2) [OF key(1)] by (auto simp: eq)
    show "fd_at ?s b \<in> set (opens ?s)" if "b \<in># add_mset a C" for b using that D(6) dat(4) key(1) by (force simp: fd eq)
    show "fd_at ?s b \<notin> fst ` set (works ?s)" if "b \<in># add_mset a C" for b using that D(7) unfolding keys fd by auto
    show "objs ?s b \<noteq> None" if "b \<in># F" for b using that D(8) by (simp add: eq)
    show "b \<notin> snd ` set (works ?s)" if "b \<in># F" for b by (rule Fs [OF that])
    show "count (add_mset a C + F) b \<le> 1" for b by (rule cnt)
    show "fst ` set (epoll ?s) = fst ` set (works ?s) \<union> fd_at ?s ` set_mset (add_mset a C)" unfolding eq fd by (rule fsts)
    show "set_mset R \<subseteq> fst ` set (works ?s)" unfolding keys using D(12) alone(2) by auto
  qed
qed

lemma map_of_filter_absent: "map_of (filter (\<lambda>(d', r). d' \<noteq> d) es) e = (if e = d then None else map_of es e)"
  by (induction es) auto

lemma own_close:
  assumes ok: "own_ok l R S (add_mset a C) F s"
  shows "own_ok l R S C (add_mset a F) (del_close l a s)"
proof -
  let ?s = "del_close l a s" and ?d = "fd_at s a"
  note D = own_okD [OF ok] and dat = data_okD [OF own_okD(1) [OF ok]]
  note alone = own_alone [OF disjI2, OF ok]
  have key: "?d \<notin> fst ` set (works s)" "?d \<in> set (opens s)" using D(6,7) by simp_all
  have l: "?d \<noteq> l" using dat(8) [OF dat(9)] key(1) by fastforce
  have eq: "objs ?s = objs s" "works ?s = works s" "fdcbs ?s = fdcbs s" "wpool (fwork ?s) = wpool (fwork s)"
    "epoll ?s = filter (\<lambda>(d, r). d \<noteq> ?d) (epoll s)" "opens ?s = remove1 ?d (opens s)"
    using l by (simp_all add: del_close_def Let_def work_destroy_def fd_at_def)
  have fd: "fd_at ?s = fd_at s" by (rule ext) (simp add: fd_at_def eq)
  have op: "d \<in> set (opens ?s) \<longleftrightarrow> d \<in> set (opens s) \<and> d \<noteq> ?d" for d using dat(5) by (auto simp: eq)
  have dist: "distinct (map fst (epoll ?s))" "distinct (opens ?s)" using dat(5,7) by (simp_all add: eq distinct_map_filter)
  have data: "data_ok l ?s"
  proof (rule data_okI)
    show "fst ` set (works ?s) \<subseteq> set (opens ?s)"
    proof
      fix d assume "d \<in> fst ` set (works ?s)"
      then have "d \<in> fst ` set (works s)" by (simp add: eq(2))
      then show "d \<in> set (opens ?s)" using dat(4) key(1) unfolding op by blast
    qed
    show "oneshot r \<longleftrightarrow> fdcbs ?s d = None" if "(d, r) \<in> set (epoll ?s)" for d r
      using that dat(10) by (auto simp: eq(3,5))
  qed (use dat(1-3,6,8,9) fd dist in \<open>simp_all add: eq(1-4) del: not_None_eq\<close>)
  have "armed_conns ?s \<subseteq># armed_conns s"
  proof (rule mset_subset_eqI)
    fix d
    show "count (armed_conns ?s) d \<le> count (armed_conns s) d"
    proof -
      have "map_of (epoll ?s) d = (if d = ?d then None else map_of (epoll s) d)"
        unfolding eq by (rule map_of_filter_absent)
      then show ?thesis by (simp add: count_armed dat(7) dist(1))
    qed
  qed
  then have "count (held R S C ?s) d \<le> count (held R S (add_mset a C) s) d" for d
    by (simp add: held_def fd mset_subset_eq_count le_SucI)
  then have cnt: "count (held R S C ?s) d \<le> 1" for d using D(2) [of d] by (meson le_trans)
  have fsts: "fst ` set (epoll ?s) = fst ` set (works s) \<union> fd_at s ` set_mset C"
  proof -
    have "fst ` set (epoll ?s) = fst ` set (epoll s) - {?d}" by (force simp: eq)
    moreover have "?d \<notin> fd_at s ` set_mset C"
    proof
      assume "?d \<in> fd_at s ` set_mset C"
      then obtain b where b: "b \<in># C" "?d = fd_at s b" by (elim imageE)
      then show False using alone(1) [of b] by simp
    qed
    ultimately show ?thesis using D(11) key(1) by simp
  qed
  show ?thesis
  proof (rule own_okI)
    show "fd_at ?s b \<in> set (opens ?s)" if "b \<in># C" for b using that D(6) [of b] alone(1) [of b] by (simp add: fd op)
    show "b \<notin> snd ` set (works ?s)" if "b \<in># add_mset a F" for b
      using that D(9) [of b] dat(3) [of _ b] key(1) unfolding eq(2) by force
    show "count (C + add_mset a F) b \<le> 1" for b using D(10) [of b] by simp
    show "(fd_at ?s b, b) \<in> set (works ?s)" "fdcbs ?s (fd_at ?s b) = None" if "b \<in># S" for b
      using D(3,4) [OF that] by (simp_all add: fd eq(2,3))
    show "objs ?s b \<noteq> None" "fd_at ?s b \<notin> fst ` set (works ?s)" if "b \<in># C" for b
      using D(5,7) [of b] that by (simp_all add: fd eq(1,2))
    show "objs ?s b \<noteq> None" if "b \<in># add_mset a F" for b using D(5) [of a] D(8) [of b] that by (auto simp: eq(1))
    show "fst ` set (epoll ?s) = fst ` set (works ?s) \<union> fd_at ?s ` set_mset C" unfolding fd eq(2) by (rule fsts)
    show "set_mset R \<subseteq> fst ` set (works ?s)" unfolding eq(2) by (rule D(12))
  qed (fact data cnt)+
qed

lemma own_free:
  assumes ok: "own_ok l R S C (add_mset a F) s"
  shows "own_ok l R S C F (del_free a s)"
proof -
  let ?s = "del_free a s"
  note D = own_okD [OF ok] and dat = data_okD [OF own_okD(1) [OF ok]]
  have eq: "works ?s = works s" "opens ?s = opens s" "epoll ?s = epoll s" "fdcbs ?s = fdcbs s" "wpool (fwork ?s) = wpool (fwork s)"
    "objs ?s = (objs s)(a := None)" by (simp_all add: del_free_def)
  have a: "a \<notin> snd ` set (works s)" using D(9) by simp
  have C: "a \<notin># C" "a \<notin># F" using D(10) [of a] by (auto simp: not_in_iff)
  have S: "a \<notin># S" using D(3) a by force
  have fd: "b \<noteq> a \<Longrightarrow> fd_at ?s b = fd_at s b" for b by (simp add: fd_at_def eq)
  have fdS: "fd_at ?s b = fd_at s b" if "b \<in># S" for b using that S fd by metis
  have fdC: "fd_at ?s b = fd_at s b" "b \<noteq> a" if "b \<in># C" for b using that C fd by metis+
  have held: "held R S C ?s = held R S C s"
    using fdS fdC by (auto simp: held_def armed_conns_def eq intro!: image_mset_cong arg_cong2 [of _ _ _ _ "(+)"])
  have fsts: "fd_at ?s ` set_mset C = fd_at s ` set_mset C" using fdC by (auto intro!: image_cong)
  have ne: "b \<noteq> a" if "(d, b) \<in> set (works s)" for d b using a that by force
  have data: "data_ok l ?s"
    by (rule data_okI) (use dat ne fd in \<open>auto simp: eq simp del: not_None_eq\<close>)
  have neF: "b \<noteq> a" if "b \<in># F" for b using that C by metis
  have cnt: "count (C + F) b \<le> 1" for b using D(10) [of b] by (simp split: if_splits)
  show ?thesis
    by (rule own_okI) (use D(2-9,11,12) data held fsts fdS fdC neF cnt in \<open>simp_all add: eq del: not_None_eq\<close>)
qed

lemma own_delete:
  assumes "own_ok l R (add_mset a S) C F s"
  shows "own_ok l R S C F (delete_work l a s)"
  unfolding delete_work_def by (intro own_free own_close own_unregister assms)

text \<open>A new connection, on a descriptor that was not open.\<close>

lemma own_accept:
  assumes ok: "own_ok l R S C F s" and c: "c \<notin> set (opens s)"
  obtains s' where "acceptcb (Conn c) s = (None, s')" and "own_ok l R S C F s'"
    and "s' = s\<lparr>fwork := fwork s', epoll := epoll s'\<rparr>"
proof -
  note D = own_okD [OF ok] and dat = data_okD [OF own_okD(1) [OF ok]]
  let ?a = "heap_next (wpool (fwork s))" and ?r = "\<lparr>emode = mode_read, oneshot = True, armed = True\<rparr>"
  define p where "p = (wpool (fwork s))\<lparr>pstore := (), heap_next := ?a + 1, singles := ?a # singles (wpool (fwork s))\<rparr>"
  define s' where "s' = s\<lparr>fwork := (fwork s)\<lparr>wmap := (c, ?a) # works s, wobjs := (objs s)(?a \<mapsto> server_work c mode_read),
    wpool := p, wopen := c # opens s\<rparr>, epoll := (c, ?r) # epoll s\<rparr>"
  have fresh: "objs s ?a = None" using dat(6) by blast
  have key: "c \<notin> fst ` set (works s)" using dat(4) c by blast
  have C: "fd_at s b \<noteq> c" "b \<noteq> ?a" if "b \<in># C" for b using D(5,6) [OF that] c fresh by auto
  have S: "fd_at s b \<noteq> c" "b \<noteq> ?a" if "b \<in># S" for b using dat(2) D(3) [OF that] key fresh by force+
  have F: "b \<noteq> ?a" if "b \<in># F" for b using D(8) [OF that] fresh by auto
  have W: "b \<noteq> ?a" if "(d, b) \<in> set (works s)" for b d using dat(2) [OF that] fresh by auto
  have ep: "c \<notin> fst ` set (epoll s)" using D(11) key C by auto
  have none: "map_of (works s) c = None" "map_of (epoll s) c = None" using key ep by (simp_all add: map_of_eq_None_iff)
  have ex: "acceptcb (Conn c) s = (None, s')"
    by (simp add: acceptcb_def find_work_def fw_find_def none pre_new_def no_store_def sch_schedule_def epoll_add_def Let_def
        s'_def p_def server_work_def work_new_def)
  have eq: "works s' = (c, ?a) # works s" "objs s' = (objs s)(?a \<mapsto> server_work c mode_read)" "opens s' = c # opens s"
    "epoll s' = (c, ?r) # epoll s" "fdcbs s' = fdcbs s" "heap_next (wpool (fwork s')) = ?a + 1" by (simp_all add: s'_def p_def)
  have fd: "b \<noteq> ?a \<Longrightarrow> fd_at s' b = fd_at s b" "fd_at s' ?a = c" for b
    by (simp_all add: fd_at_def eq server_work_def work_new_def)
  have cb: "fdcbs s c = None" by (rule ccontr) (use dat(8) [of c] key in blast)
  have data: "data_ok l s'"
  proof (rule data_okI)
    show "fd_at s' b = d" if "(d, b) \<in> set (works s')" for d b using that W fd dat(3) by (auto simp: eq(1))
    show "objs s' b \<noteq> None" if "(d, b) \<in> set (works s')" for d b using that dat(2) by (auto simp: eq(1,2))
    show "objs s' b = None" if "heap_next (wpool (fwork s')) \<le> b" for b using that dat(6) [of b] by (simp add: eq)
    show "oneshot r \<longleftrightarrow> fdcbs s' d = None" if "(d, r) \<in> set (epoll s')" for d r using that dat(10) cb by (auto simp: eq(4,5))
    show "d \<in> fst ` set (works s')" if "fdcbs s' d \<noteq> None" for d using dat(8) that by (simp add: eq(1,5))
    show "fst ` set (works s') \<subseteq> set (opens s')" using dat(4) by (auto simp: eq(1,3))
  qed (use dat(1,5,7,9) key ep c in \<open>simp_all add: eq\<close>)
  have fdS: "fd_at s' b = fd_at s b" if "b \<in># S" for b using that S(2) fd(1) by metis
  have fdC: "fd_at s' b = fd_at s b" if "b \<in># C" for b using that C(2) fd(1) by metis
  have img: "image_mset (fd_at s') (S + C) = image_mset (fd_at s) (S + C)"
    using fdS fdC by (auto intro!: image_mset_cong arg_cong2 [of _ _ _ _ "(+)"])
  have held: "held R S C s' = add_mset c (held R S C s)"
    by (simp only: held_def img) (simp add: armed_conns_def eq)
  have cnt: "count (held R S C s') d \<le> 1" for d
    using D(2) [of d] held_opens [OF ok c] by (cases "d = c") (simp_all add: held)
  have fsts: "fst ` set (epoll s') = fst ` set (works s') \<union> fd_at s' ` set_mset C"
  proof -
    have "fd_at s' ` set_mset C = fd_at s ` set_mset C" using fdC by (auto intro!: image_cong)
    then show ?thesis using D(11) by (simp add: eq)
  qed
  have "own_ok l R S C F s'"
  proof (rule own_okI)
    show "(fd_at s' b, b) \<in> set (works s')" "fdcbs s' (fd_at s' b) = None" if "b \<in># S" for b
      using D(3,4) [OF that] fdS [OF that] by (simp_all add: eq)
    show "objs s' b \<noteq> None" "fd_at s' b \<in> set (opens s')" "fd_at s' b \<notin> fst ` set (works s')" if "b \<in># C" for b
      using D(5-7) [OF that] fdC [OF that] C [OF that] by (simp_all add: eq)
    show "objs s' b \<noteq> None" "b \<notin> snd ` set (works s')" if "b \<in># F" for b
      using D(8,9) [OF that] F [OF that] by (simp_all add: eq)
    show "count (C + F) b \<le> 1" for b by (rule D(10))
    show "set_mset R \<subseteq> fst ` set (works s')" using D(12) by (auto simp: eq(1))
  qed (fact data cnt fsts)+
  then show ?thesis using ex that by (simp add: s'_def)
qed

section \<open>The steps\<close>

lemma by_workers_upd:
  assumes "k < length (wpcs s)"
  shows "by_workers f (to_pc k pc s) + f (wpcs s ! k) = by_workers f s + f pc"
proof -
  have "sum_list (map f (ws[k := pc])) + f (ws ! k) = sum_list (map f ws) + f pc" if "k < length ws" for ws
    using that
  proof (induction ws arbitrary: k)
    case (Cons w ws)
    then show ?case by (cases k) (simp_all add: ac_simps)
  qed simp
  then show ?thesis using assms by (simp add: by_workers_def to_pc_def)
qed

lemma queued_append [simp]: "queued (xs @ ys) = queued xs + queued ys"
  by (induction xs rule: queued.induct) simp_all

abbreviation conns :: "sched \<Rightarrow> fd list \<Rightarrow> fd multiset" where
  "conns s ds \<equiv> filter_mset (\<lambda>d. fdcbs s d = None) (mset ds)"

lemma sch_inv_pc:
  "sch_inv l (s\<lparr>sch_pc := pc\<rparr>) \<longleftrightarrow> own_ok l (conns s (ready pc)) (in_hand pc + queued (jobq s) + by_workers working s)
     (by_workers closing s) (by_workers freeing s) s"
  by (simp add: sch_inv_def ready_conns_def serving_def by_workers_def same_data [of "s\<lparr>sch_pc := pc\<rparr>" s])

lemma next_event_ok:
  assumes "own_ok l (conns s (map fst r)) (queued (jobq s) + by_workers working s) (by_workers closing s) (by_workers freeing s) s"
  shows "sch_inv l (next_event r s)"
  using own_less [OF assms, of "{#}"] assms by (simp add: next_event_def sch_inv_pc)

lemma own_crash: "sch_inv l (s\<lparr>crash := c\<rparr>) \<longleftrightarrow> sch_inv l s"
  by (simp add: sch_inv_def ready_conns_def serving_def by_workers_def same_data [of "s\<lparr>crash := c\<rparr>" s])

lemma sigcb_frame:
  "fwork (sigcb sigs s) = fwork s \<and> epoll (sigcb sigs s) = epoll s \<and> fdcbs (sigcb sigs s) = fdcbs s \<and>
   wpcs (sigcb sigs s) = wpcs s \<and> sch_pc (sigcb sigs s) = sch_pc s \<and> queued (jobq (sigcb sigs s)) = queued (jobq s) \<and>
   crash (sigcb sigs s) = crash s \<and> stray (sigcb sigs s) = stray s"
proof (induction sigs s rule: sigcb.induct)
  case (2 signo rest s)
  have "fwork (handle h s) = fwork s \<and> epoll (handle h s) = epoll s \<and> fdcbs (handle h s) = fdcbs s \<and>
    wpcs (handle h s) = wpcs s \<and> sch_pc (handle h s) = sch_pc s \<and> queued (jobq (handle h s)) = queued (jobq s) \<and>
    crash (handle h s) = crash s \<and> stray (handle h s) = stray s" for h
    by (cases h) (simp_all add: sch_halt_def)
  then show ?case using 2 by (simp add: Let_def split: option.split)
qed simp

text \<open>The scheduler thread keeps the invariant.\<close>

lemma poll_step_inv:
  assumes inv: "sch_inv l s" and step: "poll_step l s s'"
  shows "sch_inv l s'"
  using step
proof cases
  case poll_retire
  have "own_ok l {#} (serving s) (by_workers closing s) (by_workers freeing s) s"
    by (rule own_less [OF inv [unfolded sch_inv_def]]) simp_all
  then show ?thesis by (simp add: poll_retire sch_inv_pc serving_def)
next
  case (poll_deliver evl)
  let ?s = "s\<lparr>sch_pc := S_proc evl\<rparr>"
  have inv0: "own_ok l {#} (serving s) (by_workers closing s) (by_workers freeing s) ?s"
    using inv poll_deliver by (simp add: sch_inv_def ready_conns_def same_data [of ?s s])
  have "\<exists>r. map_of (epoll ?s) d = Some r \<and> armed r" if "d \<in> set (map fst evl)" for d
    using that poll_deliver(6) by (fastforce simp: deliverable_def split: option.splits)
  from own_deliver [OF inv0 this poll_deliver(4)] show ?thesis
    by (simp add: poll_deliver(1) sch_inv_def ready_conns_def serving_def by_workers_def deliver_def poll_deliver(2) del: filter_mset_eq_conv)
next
  case poll_round
  have "own_ok l {#} (queued (jobq s) + by_workers working s) (by_workers closing s) (by_workers freeing s) s"
    using inv poll_round by (simp add: sch_inv_def ready_conns_def serving_def)
  then show ?thesis unfolding poll_round(1) sch_inv_pc by simp
next
  case (poll_accept d e r x)
  have own: "own_ok l (conns s (map fst r)) (queued (jobq s) + by_workers working s) (by_workers closing s) (by_workers freeing s) s"
    using inv poll_accept by (simp add: sch_inv_def ready_conns_def serving_def)
  show ?thesis
  proof (cases x)
    case (Conn c)
    obtain s1 where s1: "acceptcb (Conn c) s = (None, s1)" and ok: "own_ok l (conns s (map fst r)) (queued (jobq s) + by_workers working s)
        (by_workers closing s) (by_workers freeing s) s1" and s: "s1 = s\<lparr>fwork := fwork s1, epoll := epoll s1\<rparr>"
      using own_accept [OF own] poll_accept(4) Conn by metis
    have "fdcbs s1 = fdcbs s" "jobq s1 = jobq s" "wpcs s1 = wpcs s" by (subst s, simp)+
    then have "sch_inv l (next_event r s1)" using ok by (intro next_event_ok) (simp add: by_workers_def)
    then show ?thesis by (simp add: poll_accept(1) Conn s1 thrown_or_def)
  next
    case (Accept_err err)
    then show ?thesis using next_event_ok [OF own] inv by (simp add: poll_accept(1) acceptcb_def thrown_or_def own_crash)
  next
    case (Fcntl_err what err)
    then show ?thesis using inv by (simp add: poll_accept(1) acceptcb_def thrown_or_def own_crash)
  qed
next
  case (poll_signal d e r sigs)
  let ?s = "sigcb sigs s"
  have own: "own_ok l (conns s (map fst r)) (queued (jobq s) + by_workers working s) (by_workers closing s) (by_workers freeing s) s"
    using inv poll_signal by (simp add: sch_inv_def ready_conns_def serving_def)
  have "own_ok l (conns ?s (map fst r)) (queued (jobq ?s) + by_workers working ?s) (by_workers closing ?s) (by_workers freeing ?s) ?s"
    using own sigcb_frame [of sigs s] by (simp add: by_workers_def same_data [of ?s s])
  then show ?thesis unfolding poll_signal(1) by (rule next_event_ok)
next
  case (poll_find d e r a s1)
  have "own_ok l (add_mset d (conns s (map fst r))) (queued (jobq s) + by_workers working s) (by_workers closing s) (by_workers freeing s) s"
    using inv poll_find by (simp add: sch_inv_def ready_conns_def serving_def)
  then obtain b where b: "find_work d (if ev_hup e \<or> ev_in e then mode_read else mode_write) s = (b, s)" and
    ok: "own_ok l (conns s (map fst r)) (add_mset b (queued (jobq s) + by_workers working s)) (by_workers closing s) (by_workers freeing s) s"
    using own_find [OF _ poll_find(3)] by metis
  then show ?thesis using poll_find(1,5) by (simp add: sch_inv_pc)
next
  case (poll_nothing d e r)
  have "own_ok l (conns s (map fst r)) (queued (jobq s) + by_workers working s) (by_workers closing s) (by_workers freeing s) s"
    using inv poll_nothing by (intro own_less [OF inv [unfolded sch_inv_def]]) (simp_all add: ready_conns_def serving_def)
  then show ?thesis unfolding poll_nothing(1) by (rule next_event_ok)
next
  case (poll_got a e r)
  have own: "own_ok l (conns s (map fst r)) (add_mset a (queued (jobq s) + by_workers working s)) (by_workers closing s) (by_workers freeing s) s"
    using inv poll_got by (simp add: sch_inv_def ready_conns_def serving_def)
  let ?d = "delete_work l a s" and ?q = "s\<lparr>jobq := jobq s @ [Some a]\<rparr>"
  have eq: "fdcbs ?d = fdcbs s" "jobq ?d = jobq s" "wpcs ?d = wpcs s"
    by (simp_all add: delete_work_def del_free_def del_close_def del_unregister_def Let_def)
  have "sch_inv l (next_event r ?d)"
    by (rule next_event_ok) (use own_delete [OF own] in \<open>simp add: eq by_workers_def\<close>)
  moreover have "sch_inv l (next_event r ?q)"
    by (rule next_event_ok) (use own in \<open>simp add: by_workers_def same_data [of ?q s]\<close>)
  ultimately show ?thesis by (simp add: poll_got(1) got_event_def)
qed (simp add: own_crash inv)

section \<open>The workers keep the invariant\<close>

definition others :: "(wpc \<Rightarrow> nat multiset) \<Rightarrow> nat \<Rightarrow> sched \<Rightarrow> nat multiset" where
  "others f k s = sum_list (map f (take k (wpcs s) @ drop (Suc k) (wpcs s)))"

lemma by_workers_others:
  assumes "k < length (wpcs s)"
  shows "by_workers f s = others f k s + f (wpcs s ! k)"
  unfolding by_workers_def by (subst id_take_nth_drop [OF assms]) (simp add: others_def ac_simps)

lemma by_workers_to_pc:
  assumes "k < length (wpcs s)" and "wpcs s1 = wpcs s"
  shows "by_workers f (to_pc k pc s1) = others f k s + f pc"
  using assms by (simp add: by_workers_def to_pc_def upd_conv_take_nth_drop others_def ac_simps)

lemma sch_inv_worker:
  assumes "k < length (wpcs s)"
  shows "sch_inv l s \<longleftrightarrow> own_ok l (ready_conns s) (in_hand (sch_pc s) + queued (jobq s) + others working k s + working (wpcs s ! k))
     (others closing k s + closing (wpcs s ! k)) (others freeing k s + freeing (wpcs s ! k)) s"
  by (simp add: sch_inv_def serving_def by_workers_others [OF assms] ac_simps)

lemma sch_inv_to_pc:
  assumes "k < length (wpcs s)" and "wpcs s1 = wpcs s" and "sch_pc s1 = sch_pc s" and "fdcbs s1 = fdcbs s"
  shows "sch_inv l (to_pc k pc s1) \<longleftrightarrow> own_ok l (ready_conns s) (in_hand (sch_pc s) + queued (jobq s1) + others working k s + working pc)
     (others closing k s + closing pc) (others freeing k s + freeing pc) s1"
proof -
  have "ready_conns (to_pc k pc s1) = ready_conns s" using assms(3,4) by (simp add: ready_conns_def to_pc_def)
  moreover have "serving (to_pc k pc s1) = in_hand (sch_pc s) + queued (jobq s1) + others working k s + working pc"
    by (simp add: serving_def by_workers_to_pc [OF assms(1,2)]) (simp add: to_pc_def assms(3))
  moreover have "own_ok l R S C F (to_pc k pc s1) \<longleftrightarrow> own_ok l R S C F s1" for R S C F
    by (rule same_data) (simp_all add: to_pc_def)
  ultimately show ?thesis
    by (simp add: sch_inv_def by_workers_to_pc [OF assms(1,2)])
qed

lemma set_work_frame [simp]:
  "wpcs (set_work a f s) = wpcs s" "sch_pc (set_work a f s) = sch_pc s" "jobq (set_work a f s) = jobq s" "fdcbs (set_work a f s) = fdcbs s"
  by (simp_all add: set_work_def)

lemma del_frame [simp]:
  "wpcs (del_unregister a s) = wpcs s" "sch_pc (del_unregister a s) = sch_pc s" "jobq (del_unregister a s) = jobq s" "fdcbs (del_unregister a s) = fdcbs s"
  "wpcs (del_close l a s) = wpcs s" "sch_pc (del_close l a s) = sch_pc s" "jobq (del_close l a s) = jobq s" "fdcbs (del_close l a s) = fdcbs s"
  "wpcs (del_free a s) = wpcs s" "sch_pc (del_free a s) = sch_pc s" "jobq (del_free a s) = jobq s" "fdcbs (del_free a s) = fdcbs s"
  by (simp_all add: del_unregister_def del_close_def del_free_def Let_def)

lemma work_step_inv:
  assumes inv: "sch_inv l s" and k: "k < length (wpcs s)" and step: "work_step l k s s'" and fine: "\<not> stray s'"
  shows "sch_inv l s'"
  using step
proof cases
  case (work_null js)
  let ?s = "s\<lparr>jobq := js\<rparr>"
  show ?thesis using inv unfolding work_null(1) sch_inv_worker [OF k] sch_inv_to_pc [OF k, of ?s]
    by (simp add: work_null sch_inv_to_pc [OF k, of ?s] same_data [of ?s s])
next
  case work_retire
  let ?s = "s\<lparr>jobq := jobq s @ [None]\<rparr>"
  show ?thesis using inv unfolding work_retire(1) sch_inv_worker [OF k]
    by (simp add: work_retire sch_inv_to_pc [OF k, of ?s] same_data [of ?s s])
next
  case (work_deq a js)
  let ?s = "s\<lparr>jobq := js\<rparr>"
  show ?thesis using inv unfolding work_deq(1) sch_inv_worker [OF k]
    by (simp add: work_deq sch_inv_to_pc [OF k, of ?s] same_data [of ?s s])
next
  case (work_dead a mine)
  then show ?thesis using fine by (simp add: to_pc_def)
next
  case (work_returns a w m del)
  show ?thesis using inv unfolding work_returns(1) sch_inv_worker [OF k]
    by (simp add: work_returns sch_inv_to_pc [OF k] own_set_work)
next
  case (work_reschedules a w del m)
  let ?s = "set_work a (\<lambda>w. w\<lparr>wmode := m, deleteme := del\<rparr>) s"
  have "own_ok l (ready_conns s) (add_mset a (in_hand (sch_pc s) + queued (jobq s) + others working k s))
      (others closing k s) (others freeing k s) ?s"
    using inv unfolding sch_inv_worker [OF k] by (intro own_set_work) (simp_all add: work_reschedules)
  from own_reschedule [OF this] obtain s1 where s1: "sch_reschedule a True ?s = (None, s1)"
    and ok: "own_ok l (ready_conns s) (in_hand (sch_pc s) + queued (jobq s) + others working k s) (others closing k s) (others freeing k s) s1"
    and eq: "s1 = ?s\<lparr>epoll := epoll s1\<rparr>" .
  have "wpcs s1 = wpcs s" "sch_pc s1 = sch_pc s" "fdcbs s1 = fdcbs s" "jobq s1 = jobq s" by (subst eq, simp)+
  then show ?thesis using ok by (simp add: work_reschedules(1) s1 thrown_or_def sch_inv_to_pc [OF k])
next
  case (work_throws a w m)
  show ?thesis using inv unfolding work_throws(1) sch_inv_worker [OF k]
    by (simp add: work_throws sch_inv_to_pc [OF k] own_set_work)
next
  case (work_kept a mine w)
  have "own_ok l (ready_conns s) (in_hand (sch_pc s) + queued (jobq s) + others working k s) (others closing k s) (others freeing k s) s"
    using inv own_less [OF _ subset_mset.order_refl mset_subset_eq_add_left]
    unfolding sch_inv_worker [OF k] work_kept(2) closing.simps freeing.simps by fastforce
  then show ?thesis by (simp add: work_kept(1) sch_inv_to_pc [OF k])
next
  case (work_deletes a mine w)
  then have mine: "mine = True" using fine by (simp add: to_pc_def)
  show ?thesis using inv unfolding work_deletes(1) sch_inv_worker [OF k]
    by (simp add: work_deletes(2) mine sch_inv_to_pc [OF k])
next
  case (work_unregisters a w)
  show ?thesis using inv unfolding work_unregisters(1) sch_inv_worker [OF k]
    by (simp add: work_unregisters sch_inv_to_pc [OF k] own_unregister)
next
  case (work_closes a w)
  show ?thesis using inv unfolding work_closes(1) sch_inv_worker [OF k]
    by (simp add: work_closes sch_inv_to_pc [OF k] own_close)
next
  case (work_frees a w)
  show ?thesis using inv unfolding work_frees(1) sch_inv_worker [OF k]
    by (simp add: work_frees sch_inv_to_pc [OF k] own_free)
qed

section \<open>All runs\<close>

lemma resched_frame:
  "stray (snd (sch_reschedule a os s)) = stray s \<and> wpcs (snd (sch_reschedule a os s)) = wpcs s \<and>
   jobq (snd (sch_reschedule a os s)) = jobq s \<and> dowork (snd (sch_reschedule a os s)) = dowork s \<and>
   sch_pc (snd (sch_reschedule a os s)) = sch_pc s"
  by (simp add: sch_reschedule_def epoll_mod_def Let_def)

lemma schedule_frame:
  "stray (snd (sch_schedule a os s)) = stray s \<and> wpcs (snd (sch_schedule a os s)) = wpcs s \<and>
   jobq (snd (sch_schedule a os s)) = jobq s \<and> dowork (snd (sch_schedule a os s)) = dowork s"
  by (simp add: sch_schedule_def epoll_add_def Let_def)

lemma find_frame:
  "find_work d m s = (a, s') \<Longrightarrow> stray s' = stray s \<and> wpcs s' = wpcs s \<and> jobq s' = jobq s \<and> dowork s' = dowork s \<and> crash s' = crash s"
  by (auto simp: find_work_def split: prod.splits)

lemma accept_frame:
  "stray (snd (acceptcb x s)) = stray s \<and> wpcs (snd (acceptcb x s)) = wpcs s \<and>
   jobq (snd (acceptcb x s)) = jobq s \<and> dowork (snd (acceptcb x s)) = dowork s"
proof (cases x)
  case (Conn c)
  obtain a s1 where s1: "find_work c mode_read (s\<lparr>fwork := (fwork s)\<lparr>wopen := c # opens s\<rparr>\<rparr>) = (a, s1)" by fastforce
  show ?thesis using find_frame [OF s1] schedule_frame [of a True s1] by (simp add: acceptcb_def Conn s1)
qed (simp_all add: acceptcb_def)

lemma thrown_or_cases:
  obtains e where "fst r = Some e" "thrown_or k r = (snd r)\<lparr>crash := Some e\<rparr>" | "fst r = None" "thrown_or k r = k (snd r)"
  by (cases r; cases "fst r") (auto simp: thrown_or_def)

lemma stray_step:
  assumes "sch_step l s s'" and "stray s"
  shows "stray s'"
  using assms(1)
proof cases
  case step_poll
  from step_poll(2) show ?thesis
  proof cases
    case (poll_accept d e r x)
    then show ?thesis using accept_frame [of x s] assms(2)
      by (cases rule: thrown_or_cases [of "acceptcb x s" "next_event r"]) (simp_all add: next_event_def)
  next
    case (poll_find d e r a s1)
    then show ?thesis using find_frame [OF poll_find(5)] assms(2) by simp
  next
    case (poll_signal d e r sigs)
    then show ?thesis using sigcb_frame [of sigs s] assms(2) by (simp add: next_event_def)
  next
    case (poll_got a e r)
    then show ?thesis using assms(2)
      by (simp add: got_event_def next_event_def delete_work_def del_free_def del_close_def del_unregister_def Let_def)
  qed (simp_all add: assms(2) deliver_def next_event_def)
next
  case (step_work k)
  from step_work(3) show ?thesis
  proof cases
    case (work_reschedules a w del m)
    let ?s = "set_work a (\<lambda>w. w\<lparr>wmode := m, deleteme := del\<rparr>) s"
    show ?thesis using resched_frame [of a True ?s] assms(2) unfolding work_reschedules(1)
      by (cases rule: thrown_or_cases [of "sch_reschedule a True ?s" "to_pc k (W_check a False)"]) (simp_all add: to_pc_def set_work_def)
  qed (simp_all add: assms(2) to_pc_def set_work_def del_free_def del_close_def del_unregister_def Let_def)
qed

lemma stray_run: "sch_run l n s s' \<Longrightarrow> stray s \<Longrightarrow> stray s'"
  by (induction rule: sch_run.induct) (auto dest: stray_step)

text \<open>The start: the listening socket and the descriptor of the signals are registered.\<close>

definition sch_start :: "nat \<Rightarrow> nat \<Rightarrow> fd \<Rightarrow> fd \<Rightarrow> fd list \<Rightarrow> (nat \<Rightarrow> handler option) \<Rightarrow> sched" where
  "sch_start n maxev l sig ds hs = poll_start l sig (sched_new n maxev ds hs)"

lemma sch_start_inv:
  assumes "0 \<le> l" "0 \<le> sig" "l \<noteq> sig" "l \<in> set ds" "sig \<in> set ds" "distinct ds"
  shows "sch_inv l (sch_start n maxev l sig ds hs)" "\<not> stray (sch_start n maxev l sig ds hs)" "crash (sch_start n maxev l sig ds hs) = None"
    "sch_pc (sch_start n maxev l sig ds hs) = S_wait" "dowork (sch_start n maxev l sig ds hs)" "wpcs (sch_start n maxev l sig ds hs) = replicate n W_wait"
    "jobq (sch_start n maxev l sig ds hs) = []"
proof -
  let ?r = "\<lparr>emode = mode_read, oneshot = False, armed = True\<rparr>"
  let ?w = "\<lambda>d. server_work d mode_read"
  have eq: "sch_start n maxev l sig ds hs = (sched_new n maxev ds hs)\<lparr>
      fwork := \<lparr>wmap = [(l, 1), (sig, 0)], wobjs = (\<lambda>_. None)(0 \<mapsto> ?w sig, 1 \<mapsto> ?w l), aliens = [],
        wpool = \<lparr>pstore = (), heap_next = 2, arrays = [], singles = [1, 0]\<rparr>, wopen = ds\<rparr>,
      epoll := [(l, ?r), (sig, ?r)], fdcbs := (\<lambda>_. None)(sig \<mapsto> Sig_cb, l \<mapsto> Accept_cb)\<rparr>"
    using assms by (simp add: sch_start_def poll_start_def sched_new_def registercb_def find_work_def fw_find_def fw_new_def pool_new_def
        pre_new_def no_store_def sch_schedule_def epoll_add_def Let_def thrown_or_def server_work_def work_new_def numeral_2_eq_2)
  show "\<not> stray (sch_start n maxev l sig ds hs)" "crash (sch_start n maxev l sig ds hs) = None"
    "sch_pc (sch_start n maxev l sig ds hs) = S_wait" "dowork (sch_start n maxev l sig ds hs)"
    "wpcs (sch_start n maxev l sig ds hs) = replicate n W_wait" "jobq (sch_start n maxev l sig ds hs) = []"
    by (simp_all add: eq sched_new_def)
  have none: "by_workers f (sch_start n maxev l sig ds hs) = {#}" if "f W_wait = {#}" for f
    by (simp add: by_workers_def eq sched_new_def that sum_list_replicate)
  show "sch_inv l (sch_start n maxev l sig ds hs)"
    using assms(3-6)
    by (simp add: sch_inv_def serving_def none own_ok_def data_ok_def held_def ready_conns_def armed_conns_def)
      (auto simp: eq sched_new_def server_work_def work_new_def)
qed

lemma run_inv: "sch_run l n s s' \<Longrightarrow> sch_inv l s \<Longrightarrow> \<not> stray s' \<Longrightarrow> sch_inv l s'"
proof (induction rule: sch_run.induct)
  case (run_step n s s' s'')
  have "\<not> stray s'" using stray_step run_step.hyps(2) run_step.prems(2) by blast
  then have inv: "sch_inv l s'" using run_step by blast
  from run_step.hyps(2) show ?case
  proof cases
    case step_poll
    then show ?thesis using poll_step_inv [OF inv] by blast
  next
    case (step_work k)
    then show ?thesis using work_step_inv [OF inv] run_step.prems(2) by blast
  qed
qed simp

text \<open>While the works are where they should be the calls of \<open>epoll_ctl\<close> do not fail.\<close>

lemma accept_succeeds:
  assumes "sch_inv l s" and "c \<notin> set (opens s)"
  shows "fst (acceptcb (Conn c) s) = None"
  using own_accept [OF assms(1) [unfolded sch_inv_def] assms(2)] by (metis fst_conv)

lemma reschedule_succeeds:
  assumes inv: "sch_inv l s" and k: "k < length (wpcs s)" and a: "wpcs s ! k = W_run a"
    and f: "\<And>w. wfd (f w) = wfd w"
  shows "fst (sch_reschedule a True (set_work a f s)) = None"
proof -
  have "own_ok l (ready_conns s) (add_mset a (in_hand (sch_pc s) + queued (jobq s) + others working k s))
      (others closing k s) (others freeing k s) (set_work a f s)"
    using inv unfolding sch_inv_worker [OF k] by (intro own_set_work f) (simp add: a)
  from own_reschedule [OF this] show ?thesis by (metis fst_conv)
qed

text \<open>Once the loop is to stop, the poison pill is in the queue or in the hands of a worker; and the
  only exceptions that leave a thread come from \<open>epoll_wait\<close> and \<open>accept\<close>.\<close>

definition halt_ok :: "sched \<Rightarrow> bool" where
  "halt_ok s \<longleftrightarrow> (\<not> dowork s \<longrightarrow> None \<in> set (jobq s) \<or> W_null \<in> set (wpcs s)) \<and> (sch_pc s = S_done \<longrightarrow> \<not> dowork s) \<and>
     (\<forall>e. crash s = Some e \<longrightarrow> sch_pc s \<noteq> S_done \<and> (\<exists>what err. e = ResourceErr ''epoll_wait'' err \<or> e = SocketErr what err))"

lemma sigcb_halt:
  "halt_ok s \<Longrightarrow> sch_pc s = S_proc evl \<Longrightarrow> crash s = None \<Longrightarrow> halt_ok (next_event r (sigcb sigs s))"
proof (induction sigs s rule: sigcb.induct)
  case (1 s)
  then show ?case by (simp add: halt_ok_def next_event_def)
next
  case (2 signo rest s)
  have "halt_ok (handle h s) \<and> \<not> dowork (handle h s) \<and> sch_pc (handle h s) = sch_pc s \<and> crash (handle h s) = None" for h
    using 2(3,4) 2(2) by (cases h) (simp_all add: sch_halt_def halt_ok_def)
  then show ?case using 2 by (auto simp: Let_def halt_ok_def next_event_def split: option.split)
qed

lemma poll_step_halt:
  assumes inv: "sch_inv l s" and ok: "halt_ok s" and no: "crash s = None" and step: "poll_step l s s'"
  shows "halt_ok s'"
  using step
proof cases
  case (poll_signal d e r sigs)
  then show ?thesis using sigcb_halt [OF ok _ no] by simp
next
  case (poll_accept d e r x)
  show ?thesis
  proof (cases "fst (acceptcb x s)")
    case None
    then have "thrown_or (next_event r) (acceptcb x s) = next_event r (snd (acceptcb x s))"
      by (cases rule: thrown_or_cases [of "acceptcb x s" "next_event r"]) simp_all
    moreover have "crash (snd (acceptcb x s)) = None"
      using no find_frame by (auto simp: acceptcb_def sch_schedule_def epoll_add_def Let_def split: accepted.split prod.split)
    ultimately show ?thesis using ok accept_frame [of x s] unfolding poll_accept(1) by (auto simp: halt_ok_def next_event_def)
  next
    case (Some ex)
    then have s': "s' = (snd (acceptcb x s))\<lparr>crash := Some ex\<rparr>"
      unfolding poll_accept(1) by (cases rule: thrown_or_cases [of "acceptcb x s" "next_event r"]) simp_all
    have "snd (acceptcb x s) = s" "\<exists>what err. ex = SocketErr what err"
      using Some accept_succeeds [OF inv] poll_accept(4) by (auto simp: acceptcb_def split: accepted.splits if_splits)
    then show ?thesis using ok poll_accept(2) by (auto simp: s' halt_ok_def)
  qed
next
  case (poll_find d e r a s1)
  then show ?thesis using ok no find_frame [OF poll_find(5)] by (auto simp: halt_ok_def)
next
  case (poll_got a e r)
  then show ?thesis using ok no
    by (auto simp: halt_ok_def got_event_def next_event_def delete_work_def del_free_def del_close_def del_unregister_def Let_def)
qed (use ok no in \<open>auto simp: halt_ok_def next_event_def deliver_def\<close>)

lemma work_step_halt:
  assumes inv: "sch_inv l s" and ok: "halt_ok s" and no: "crash s = None" and k: "k < length (wpcs s)" and step: "work_step l k s s'"
  shows "halt_ok s'"
proof -
  have keep: "halt_ok (to_pc k pc s1)" if "wpcs s ! k \<noteq> W_null" "wpcs s1 = wpcs s" "jobq s1 = jobq s \<or> (\<exists>a. jobq s = Some a # jobq s1)"
    "dowork s1 = dowork s" "sch_pc s1 = sch_pc s" "crash s1 = crash s" for pc s1
  proof -
    have "W_null \<in> set ((wpcs s)[k := pc])" if "W_null \<in> set (wpcs s)"
      using that \<open>wpcs s ! k \<noteq> W_null\<close> k by (metis in_set_conv_nth length_list_update nth_list_update_neq)
    then show ?thesis using ok no that by (auto simp: halt_ok_def to_pc_def)
  qed
  from step show ?thesis
  proof cases
    case (work_null js)
    have "W_null \<in> set ((wpcs s)[k := W_null])" using k by (simp add: set_update_memI)
    then show ?thesis using ok no by (auto simp: work_null(1) halt_ok_def to_pc_def)
  next
    case work_retire
    then show ?thesis using ok no by (auto simp: halt_ok_def to_pc_def)
  next
    case (work_reschedules a w del m)
    let ?s = "set_work a (\<lambda>w. w\<lparr>wmode := m, deleteme := del\<rparr>) s"
    have "fst (sch_reschedule a True ?s) = None" by (rule reschedule_succeeds [OF inv k work_reschedules(2)]) simp
    then have "s' = to_pc k (W_check a False) (snd (sch_reschedule a True ?s))"
      unfolding work_reschedules(1) by (cases rule: thrown_or_cases [of "sch_reschedule a True ?s" "to_pc k (W_check a False)"]) simp_all
    moreover have "crash (snd (sch_reschedule a True ?s)) = crash s"
      by (simp add: sch_reschedule_def epoll_mod_def Let_def set_work_def)
    ultimately show ?thesis using resched_frame [of a True ?s] work_reschedules(2) by (auto intro!: keep simp: set_work_def)
  qed (auto intro!: keep simp: set_work_def del_free_def del_close_def del_unregister_def Let_def)
qed

lemma run_halt: "sch_run l n s s' \<Longrightarrow> sch_inv l s \<Longrightarrow> halt_ok s \<Longrightarrow> \<not> stray s' \<Longrightarrow> halt_ok s'"
proof (induction rule: sch_run.induct)
  case (run_step n s s' s'')
  have fine: "\<not> stray s'" using stray_step run_step.hyps(2) run_step.prems(3) by blast
  have inv: "sch_inv l s'" using run_inv [OF run_step.hyps(1) run_step.prems(1) fine] .
  have ok: "halt_ok s'" using run_step fine by blast
  from run_step.hyps(2) show ?case
    by cases (use poll_step_halt [OF inv ok] work_step_halt [OF inv ok] in blast)+
qed simp

lemma sch_start_halt:
  "0 \<le> l \<Longrightarrow> 0 \<le> sig \<Longrightarrow> l \<noteq> sig \<Longrightarrow> l \<in> set ds \<Longrightarrow> sig \<in> set ds \<Longrightarrow> distinct ds \<Longrightarrow>
    halt_ok (sch_start n maxev l sig ds hs)"
  using sch_start_inv by (simp add: halt_ok_def)

text \<open>What is armed is in nobody's hands.\<close>

lemma armed_not_held:
  assumes ok: "own_ok l R S C F s" and d: "deliverable s (d, e)" "fdcbs s d = None"
  shows "d \<notin># R" and "a \<in># S + C \<Longrightarrow> fd_at s a \<noteq> d"
proof -
  note dat = data_okD [OF own_okD(1) [OF ok]]
  obtain r where r: "map_of (epoll s) d = Some r" "armed r"
    using d(1) by (auto simp: deliverable_def split: option.splits)
  moreover have "oneshot r" using dat(10) [OF map_of_SomeD [OF r(1)]] d(2) by simp
  ultimately have "count (armed_conns s) d = 1" by (simp add: count_armed [OF dat(7)])
  then have no: "count R d = 0" "count (image_mset (fd_at s) (S + C)) d = 0"
    using own_okD(2) [OF ok, of d] by (simp_all add: held_def)
  then show "d \<notin># R" by (simp add: not_in_iff)
  show "fd_at s a \<noteq> d" if "a \<in># S + C" using no(2) that by (metis count_eq_zero_iff image_eqI set_image_mset)
qed


end
