(* ===== verification/Scheduler_Runs.thy ===== *)
theory Scheduler_Runs
  imports One_Place
begin

text \<open>
  What the runs of scheduler and workers come to: the retirement of all threads after the poison
  pill, and runs in which a worker uses a work that it no longer has.
\<close>

section \<open>A run written down\<close>

definition rd_ev :: evs where "rd_ev = \<lparr>ev_in = True, ev_out = False, ev_hup = False\<rparr>"
definition wr_ev :: evs where "wr_ev = \<lparr>ev_in = False, ev_out = True, ev_hup = False\<rparr>"
definition hup_ev :: evs where "hup_ev = \<lparr>ev_in = False, ev_out = False, ev_hup = True\<rparr>"

text \<open>Two workers, the listening socket 3, the signals at 4. A connection is accepted as descriptor 5,
  becomes readable, and the first worker takes its work.\<close>

definition two_workers :: sched where
  "two_workers = sch_start 2 100 3 4 [3, 4] (\<lambda>n. if n = 15 then Some Server_halt else None)"

definition taken :: "move list" where
  "taken = [M_deliver [(3, rd_ev)], M_accept 5, M_round, M_deliver [(5, rd_ev)], M_find, M_got, M_round, M_take 0]"

lemma moves_run:
  assumes "map_option f (moves l ms s) = Some x"
  obtains s' where "sch_run l (length ms) s s'" and "f s' = x"
  using assms moves_sound by (metis map_option_eq_Some)


text \<open>C30. A worker looks at a work after the call in which the work was put back into the scheduler. In the
  first run the peer hangs up in between: the scheduler, rightly, deletes the work, and the worker
  then reads \<open>deleteme\<close> of freed memory, although no work ever set it. In the second the work was
  rescheduled with \<open>deleteme\<close> set, as \<open>HTTP_2616_Server_Work\<close> does on \<open>Connection: close\<close>: it becomes
  writable, the other worker takes it, and both workers delete it.\<close>

theorem used_after_reschedule:
  "(\<exists>n s. sch_run 3 n two_workers s \<and> \<not> stray s \<and> wpcs s = [W_check 2 False, W_wait] \<and> objs s 2 = None) \<and>
   (\<exists>n s. sch_run 3 n two_workers s \<and> wpcs s = [W_delete 2, W_delete 2])"
proof (intro conjI)
  have "map_option (\<lambda>s. (wpcs s, stray s, objs s 2)) (moves 3 (taken @
      [M_reschedule 0 mode_read False, M_deliver [(5, hup_ev)], M_find, M_got]) two_workers) =
      Some ([W_check 2 False, W_wait], False, None)" by code_simp
  from moves_run [OF this]
  show "\<exists>n s. sch_run 3 n two_workers s \<and> \<not> stray s \<and> wpcs s = [W_check 2 False, W_wait] \<and> objs s 2 = None" by blast
  have "map_option wpcs (moves 3 (taken @
      [M_reschedule 0 mode_write True, M_deliver [(5, wr_ev)], M_find, M_got, M_take 1, M_return 1 mode_write True, M_go 1, M_go 0])
      two_workers) = Some [W_delete 2, W_delete 2]" by code_simp
  from moves_run [OF this] show "\<exists>n s. sch_run 3 n two_workers s \<and> wpcs s = [W_delete 2, W_delete 2]" by blast
qed

section \<open>The poison pill\<close>

text \<open>A bound on what the workers still have to do when the scheduler has retired.\<close>

fun pc_load :: "wpc \<Rightarrow> nat" where
  "pc_load W_wait = 2"
| "pc_load W_null = 1"
| "pc_load (W_run a) = 7"
| "pc_load (W_check a mine) = 6"
| "pc_load (W_delete a) = 5"
| "pc_load (W_close a) = 4"
| "pc_load (W_free a) = 3"
| "pc_load W_exit = 0"

definition load :: "sched \<Rightarrow> nat" where
  "load s = 6 * size (queued (jobq s)) + sum_list (map pc_load (wpcs s))"

lemma load_to_pc:
  assumes "k < length (wpcs s)" and "wpcs s1 = wpcs s"
  shows "load (to_pc k pc s1) + pc_load (wpcs s ! k) = 6 * size (queued (jobq s1)) + sum_list (map pc_load (wpcs s)) + pc_load pc"
proof -
  have "sum_list (map pc_load (ws[k := pc])) + pc_load (ws ! k) = sum_list (map pc_load ws) + pc_load pc" if "k < length ws" for ws
    using that
  proof (induction ws arbitrary: k)
    case (Cons w ws)
    then show ?case by (cases k) simp_all
  qed simp
  from this [OF assms(1)] show ?thesis by (simp add: load_def to_pc_def assms(2))
qed

lemma work_step_load:
  assumes k: "k < length (wpcs s)" and step: "work_step l k s s'" and no: "crash s' = None"
  shows "load s' < load s \<and> sch_pc s' = sch_pc s"
  using step
proof cases
  case (work_null js)
  then show ?thesis using load_to_pc [OF k, of "s\<lparr>jobq := js\<rparr>" W_null] by (simp add: load_def) (simp add: to_pc_def)
next
  case work_retire
  then show ?thesis using load_to_pc [OF k, of "s\<lparr>jobq := jobq s @ [None]\<rparr>" W_exit] by (simp add: load_def) (simp add: to_pc_def)
next
  case (work_deq a js)
  then show ?thesis using load_to_pc [OF k, of "s\<lparr>jobq := js\<rparr>" "W_run a"] by (simp add: load_def) (simp add: to_pc_def)
next
  case (work_dead a mine)
  then show ?thesis using load_to_pc [OF k, of "s\<lparr>stray := True\<rparr>" W_wait] by (auto simp: load_def) (simp_all add: to_pc_def)
next
  case (work_returns a w del m)
  then show ?thesis using load_to_pc [OF k, of "set_work a (\<lambda>w. w\<lparr>wmode := m, deleteme := del\<rparr>) s" "W_check a True"]
    by (simp add: load_def) (simp add: to_pc_def)
next
  case (work_reschedules a w del m)
  let ?s = "set_work a (\<lambda>w. w\<lparr>wmode := m, deleteme := del\<rparr>) s"
  have s': "s' = to_pc k (W_check a False) (snd (sch_reschedule a True ?s))"
    using no unfolding work_reschedules(1)
    by (cases rule: thrown_or_cases [of "sch_reschedule a True ?s" "to_pc k (W_check a False)"]) simp_all
  then show ?thesis using work_reschedules(2) resched_frame [of a True ?s] load_to_pc [OF k, of "snd (sch_reschedule a True ?s)" "W_check a False"]
    by (simp add: load_def) (simp add: to_pc_def)
next
  case (work_throws a w m)
  then show ?thesis using load_to_pc [OF k, of "set_work a (\<lambda>w. w\<lparr>wmode := m, deleteme := True\<rparr>) s" "W_check a True"]
    by (simp add: load_def) (simp add: to_pc_def)
next
  case (work_kept a mine w)
  then show ?thesis using load_to_pc [OF k, of s W_wait] by (simp add: load_def) (simp add: to_pc_def)
next
  case (work_deletes a mine w)
  then show ?thesis using load_to_pc [OF k, of "s\<lparr>stray := stray s \<or> \<not> mine\<rparr>" "W_delete a"] by (simp add: load_def) (simp add: to_pc_def)
next
  case (work_unregisters a w)
  then show ?thesis using load_to_pc [OF k, of "del_unregister a s" "W_close a"] by (simp add: load_def) (simp add: to_pc_def)
next
  case (work_closes a w)
  then show ?thesis using load_to_pc [OF k, of "del_close l a s" "W_free a"] by (simp add: load_def) (simp add: to_pc_def)
next
  case (work_frees a w)
  then show ?thesis using load_to_pc [OF k, of "del_free a s" W_wait] by (simp add: load_def) (simp add: to_pc_def)
qed


lemma poll_done: "poll_step l s s' \<Longrightarrow> sch_pc s \<noteq> S_done"
  by (cases rule: poll_step.cases) auto

text \<open>With the pill about, a worker that has not retired can always go on.\<close>

lemma worker_can_go:
  assumes inv: "sch_inv l s" and k: "k < length (wpcs s)" and pc: "wpcs s ! k \<noteq> W_exit" "wpcs s ! k = W_wait \<Longrightarrow> jobq s \<noteq> []"
  shows "\<exists>s'. work_step l k s s'"
proof -
  note ok = inv [unfolded sch_inv_worker [OF k]]
  note D = own_okD [OF ok] and dat = data_okD [OF own_okD(1) [OF ok]]
  show ?thesis
  proof (cases "wpcs s ! k")
    case W_wait
    then obtain j js where "jobq s = j # js" using pc(2) by (cases "jobq s") auto
    then show ?thesis using W_wait work_step.work_null [OF W_wait] work_step.work_deq [OF W_wait] by (cases j) blast+
  next
    case W_null
    then show ?thesis using work_step.work_retire by blast
  next
    case (W_run a)
    then show ?thesis using work_step.work_dead [of s k a] work_step.work_returns [OF W_run] by (cases "objs s a") blast+
  next
    case (W_check a mine)
    then show ?thesis using work_step.work_dead [of s k a mine] work_step.work_kept [OF W_check] work_step.work_deletes [OF W_check]
      by (cases "objs s a") blast+
  next
    case (W_delete a)
    have "objs s a \<noteq> None" using dat(2) D(3) [of a] by (auto simp: W_delete)
    then show ?thesis using work_step.work_unregisters [OF W_delete] by blast
  next
    case (W_close a)
    have "objs s a \<noteq> None" using D(5) [of a] by (simp add: W_close)
    then show ?thesis using work_step.work_closes [OF W_close] by blast
  next
    case (W_free a)
    have "objs s a \<noteq> None" using D(8) [of a] by (simp add: W_free)
    then show ?thesis using work_step.work_frees [OF W_free] by blast
  qed (use pc in simp)
qed

text \<open>After the scheduler has retired only workers step, and each step is a part of the load.\<close>

lemma run_load:
  assumes "sch_run l n s s'" and "sch_pc s = S_done"
  shows "crash s' = None \<Longrightarrow> n + load s' \<le> load s \<and> sch_pc s' = S_done"
  using assms
proof (induction rule: sch_run.induct)
  case (run_step n s s' s'')
  from run_step.hyps(2) show ?case
  proof cases
    case step_poll
    then show ?thesis using run_step.IH run_step.prems(2) poll_done by blast
  next
    case (step_work k)
    then have "n + load s' \<le> load s \<and> sch_pc s' = S_done" using run_step by blast
    then show ?thesis using work_step_load [OF step_work(2,3) run_step.prems(1)] by simp
  qed
qed simp

lemma work_step_frame:
  assumes "work_step l k s s'"
  shows "sch_pc s' = sch_pc s \<and> length (wpcs s') = length (wpcs s)"
  using assms
proof cases
  case (work_reschedules a w del m)
  let ?s = "set_work a (\<lambda>w. w\<lparr>wmode := m, deleteme := del\<rparr>) s"
  show ?thesis using resched_frame [of a True ?s] unfolding work_reschedules(1)
    by (cases rule: thrown_or_cases [of "sch_reschedule a True ?s" "to_pc k (W_check a False)"]) (simp_all add: to_pc_def)
qed (simp_all add: to_pc_def set_work_def)

lemma poll_step_length:
  assumes "poll_step l s s'"
  shows "wpcs s' = wpcs s"
  using assms
proof cases
  case (poll_accept d e r x)
  show ?thesis using accept_frame [of x s] unfolding poll_accept(1)
    by (cases rule: thrown_or_cases [of "acceptcb x s" "next_event r"]) (simp_all add: next_event_def)
next
  case (poll_find d e r a s1)
  then show ?thesis using find_frame [OF poll_find(5)] by simp
next
  case (poll_got a e r)
  then show ?thesis by (simp add: got_event_def next_event_def delete_work_def)
qed (use sigcb_frame in \<open>simp_all add: deliver_def next_event_def\<close>)

lemma run_length: "sch_run l n s s' \<Longrightarrow> length (wpcs s') = length (wpcs s)"
proof (induction rule: sch_run.induct)
  case (run_step n s s' s'')
  from run_step.hyps(2) show ?case
    by cases (use run_step.IH poll_step_length work_step_frame in \<open>metis+\<close>)
qed simp

lemma run_done: "sch_run l n s s' \<Longrightarrow> sch_pc s = S_done \<Longrightarrow> sch_pc s' = S_done"
proof (induction rule: sch_run.induct)
  case (run_step n s s' s'')
  from run_step.hyps(2) show ?case
    by cases (use run_step poll_done work_step_frame in \<open>metis+\<close>)
qed simp

lemma run_trans: "sch_run l m s' s'' \<Longrightarrow> sch_run l n s s' \<Longrightarrow> \<exists>k. sch_run l k s s''"
  by (induction rule: sch_run.induct) (auto intro: sch_run.intros)


text \<open>With two workers, one of which has a job, the signal 15 and the retirement of the scheduler.\<close>

definition halted :: "move list" where
  "halted = taken @ [M_deliver [(4, rd_ev)], M_signal [15], M_return 0 mode_read False]"


end
