(* ===== verification/HTTP_Client_Work.thy ===== *)
theory HTTP_Client_Work
  imports HTTP_2616_Server_Work
begin

text \<open>
  \<open>HTTP_Client_Work.cpp\<close>, \<open>HTTP_Client_Work_Unix.cpp\<close>: the connection as a client, which the server
  opens to a domain socket on behalf of its own client: it writes the request it was given, reads
  the response, and hands it to the work that waits for it.
\<close>

section \<open>State\<close>

text \<open>
  The fields of \<open>HTTP_Work\<close> are those of \<open>hwork\<close>. \<open>gone\<close> says that the object has been deleted;
  \<open>realclient\<close> is the work on whose behalf the request is made.
\<close>

record client = hwork +
  gone :: bool

record client_unix = client +
  realclient :: h2616

text \<open>The constructor, on the fields that it sets; \<open>mem\<close> is the allocation of the body's copy. The
  headers go through \<open>cbuf\<close>, which \<open>get\<close> fills up to a NUL.\<close>

definition client_head :: "structured_hdrs \<Rightarrow> string" where
  "client_head reqhdrs = c_string (fst (str_get (unat cbufsz) NUL (str_new (hdrs_put reqhdrs @ CRLF))))"

definition client_init :: "bool \<Rightarrow> structured_hdrs \<Rightarrow> string \<Rightarrow> 'a hwork_scheme \<Rightarrow> 'a hwork_scheme" where
  "client_init mem reqhdrs req_body w =
     (let t = client_head reqhdrs;
          w1 = w\<lparr>wmode := mode_write, out := t, outsz := of_nat (length t), outhdrs_sz := of_nat (length t),
            outbody_sz := of_nat (length req_body)\<rparr> in
      if 0 < outbody_sz w1
      then if mem then w1\<lparr>outbody := strncpy req_body (length req_body)\<rparr> else w1\<lparr>outbody := [], outbody_sz := 0\<rparr>
      else w1)"

text \<open>\<open>HTTP_Client_Work_Unix\<close>, on a descriptor.\<close>

definition client_unix_new :: "bool \<Rightarrow> fd \<Rightarrow> structured_hdrs \<Rightarrow> string \<Rightarrow> h2616 \<Rightarrow> client_unix" where
  "client_unix_new mem d reqhdrs req_body rc =
     client_init mem reqhdrs req_body (client.extend (hwork.extend (hwork_new d) (client.fields False)) (client_unix.fields rc))"

section \<open>The main loop\<close>

text \<open>\<open>w->sch->reschedule(this)\<close>, which reads \<open>fd\<close> and \<open>m\<close> of the object.\<close>

definition resched_this :: "'a client_scheme \<Rightarrow> 'a client_scheme thrown" where
  "resched_this w = (if gone w then (Some UB, w) else reschedule w)"

definition client_write :: "'a client_scheme \<Rightarrow> 'a client_scheme thrown" where
  "client_write w =
     (let (err, w1) = send_out w in
      if err = EAGAIN \<or> err = EWOULDBLOCK then resched_this w1
      else if err = E0 \<and> outsz w1 = 0 then
        resched_this (if \<not> outhdrs_done w1 then w1\<lparr>outhdrs_done := True, out := outbody w1, outsz := outbody_sz w1\<rparr>
          else w1\<lparr>wmode := mode_read\<rparr>)
      else (Some (SocketErr ''write'' err), w1))"

text \<open>The label \<open>dropdown\<close> and what follows the branches.\<close>

definition response_in :: "('a client_scheme \<Rightarrow> 'a client_scheme thrown) \<Rightarrow> 'a client_scheme \<Rightarrow> 'a client_scheme thrown" where
  "response_in browse_resp w = andthen (browse_resp w) resched_this"

definition client_read :: "('a client_scheme \<Rightarrow> 'a client_scheme thrown) \<Rightarrow> limits \<Rightarrow> 'a client_scheme \<Rightarrow> 'a client_scheme thrown" where
  "client_read browse_resp lim w =
     (let (err, w1) = (if \<not> inhdrs_done w then read_into_inbuf w else read_into_body w) in
      if read_fails err then (Some (SocketErr ''read'' err), w1)
      else if \<not> inhdrs_done w1 then
        (case hdrs_get (max_line_len lim) (inbuf w1) (inhdrs w1) of
           Inl e \<Rightarrow> (Some e, w1)
         | Inr (fin, i, hs) \<Rightarrow>
             let w2 = w1\<lparr>inbuf := i, inhdrs := hs, inhdrs_done := fin\<rparr> in
             if fin
             then (case content_length no_limits w2 of
                     (Some e, w3) \<Rightarrow> (Some e, w3)
                   | (None, w3) \<Rightarrow> if inbody_sz w3 = 0 then response_in browse_resp w3 else resched_this w3)
             else resched_this w2)
      else if inbody_sz w1 = 0 then response_in browse_resp w1
      else resched_this w1)"

definition client_step :: "('a client_scheme \<Rightarrow> 'a client_scheme thrown) \<Rightarrow> limits \<Rightarrow> 'a client_scheme \<Rightarrow> 'a client_scheme thrown" where
  "client_step browse_resp lim w =
     (case wmode w of mode_write \<Rightarrow> client_write w | mode_read \<Rightarrow> client_read browse_resp lim w)"

text \<open>
  \<open>HTTP_Client_Work_Unix::browse_resp\<close>, which ends in \<open>HTTP_2616_Server_Work::async_setresponse\<close>: the
  waiting work gets the response, the client work is deleted, the waiting work is rescheduled.
\<close>

definition browse_resp_unix :: "bool \<Rightarrow> client_unix \<Rightarrow> client_unix thrown" where
  "browse_resp_unix mem w =
     (let (e, rc) = async_setresponse_2616 mem (inhdrs w) (inbody w) (realclient w) in
      (e, w\<lparr>realclient := rc, gone := True\<rparr>))"

section \<open>Sending the request\<close>

text \<open>The request as it goes over the wire.\<close>

definition request_text :: "structured_hdrs \<Rightarrow> string \<Rightarrow> string" where
  "request_text reqhdrs req_body = client_head reqhdrs @ strncpy req_body (length req_body)"

lemma strncpy_length [simp]: "length (strncpy s n) = n"
  by (simp add: strncpy_def Let_def)

lemma str_get_text:
  assumes "length t \<le> 4095" and "NUL \<notin> set t"
  shows "fst (str_get (unat cbufsz) NUL (str_new t)) = t"
proof -
  have "takeWhile (\<lambda>c. c \<noteq> NUL) t = t" using assms(2) by (auto simp: takeWhile_eq_all_conv)
  note tw = this
  show ?thesis by (simp add: str_get_def cbufsz_def Let_def unread_def tw assms(1))
qed

lemma client_head_length: "length (client_head hs) \<le> 4095"
  unfolding client_head_def
  by (rule le_trans [OF length_c_string]) (simp add: str_get_def cbufsz_def Let_def)

lemma client_init_pending:
  assumes "outbody w = []" and "\<not> outhdrs_done w" and "length b < 2 ^ 64"
  shows "pending (client_init True hs b w) = request_text hs b" and "out_ok (client_init True hs b w)"
    and "wire (client_init True hs b w) = wire w" and "wmode (client_init True hs b w) = mode_write"
proof -
  have h: "unat (of_nat (length (client_head hs)) :: size_t) = length (client_head hs)"
    using client_head_length [of hs] by (simp add: unsigned_of_nat take_bit_nat_eq_self)
  have b: "unat (of_nat (length b) :: size_t) = length b" using assms(3) by (simp add: unsigned_of_nat take_bit_nat_eq_self)
  have ob: "outbody (client_init True hs b w) = strncpy b (length b)" and n: "outbody_sz (client_init True hs b w) = of_nat (length b)"
  proof -
    have "(0 :: size_t) < of_nat (length b) \<longleftrightarrow> b \<noteq> []" using b by (simp add: word_less_nat_alt)
    then show "outbody (client_init True hs b w) = strncpy b (length b)"
      using assms(1) by (auto simp: client_init_def Let_def strncpy_def)
    show "outbody_sz (client_init True hs b w) = of_nat (length b)" by (simp add: client_init_def Let_def)
  qed
  have o: "out (client_init True hs b w) = client_head hs" "outsz (client_init True hs b w) = of_nat (length (client_head hs))"
    "\<not> outhdrs_done (client_init True hs b w)" using assms(2) by (simp_all add: client_init_def Let_def)
  show "pending (client_init True hs b w) = request_text hs b" "out_ok (client_init True hs b w)"
    by (simp_all add: pending_def out_ok_def ob n o h b request_text_def)
  show "wire (client_init True hs b w) = wire w" "wmode (client_init True hs b w) = mode_write"
    by (simp_all add: client_init_def Let_def)
qed

text \<open>The calls of a work that is writing, one for each time the socket has room.\<close>

fun client_sends :: "('a client_scheme \<Rightarrow> 'a client_scheme thrown) \<Rightarrow> limits \<Rightarrow> wr_event list list \<Rightarrow> 'a client_scheme \<Rightarrow>
    'a client_scheme thrown" where
  "client_sends browse_resp lim [] w = (None, w)"
| "client_sends browse_resp lim (ev # evs) w =
     (if wmode w = mode_read then (None, w)
      else andthen (client_step browse_resp lim (w\<lparr>wrq := ev\<rparr>)) (client_sends browse_resp lim evs))"

lemma client_write_conserves:
  assumes "out_ok w" and "wmode w = mode_write" and "\<not> gone w" and step: "client_write w = (e, w')"
  shows "wire w' @ pending w' = wire w @ pending w \<and> out_ok w' \<and> \<not> gone w' \<and> (wmode w' = mode_read \<longrightarrow> pending w' = [])"
proof -
  obtain err w1 where s: "send_out w = (err, w1)" by fastforce
  obtain b n t ev where w1: "w1 = w\<lparr>out := b, outsz := n, wire := t, wrq := ev\<rparr>"
    and c: "wire w1 @ pending w1 = wire w @ pending w" "out_ok w1"
    using send_conserves [OF assms(1) s] by blast
  have m: "wmode w1 = mode_write" "\<not> gone w1" using w1 assms(2,3) by simp_all
  have resched: "\<exists>r. w'' = v\<lparr>resched := r\<rparr>" if "resched_this v = (x, w'')" "\<not> gone v" for v x and w'' :: "'a client_scheme"
    using that reschedule_frame by (auto simp: resched_this_def)
  show ?thesis
  proof (cases "err = EAGAIN \<or> err = EWOULDBLOCK")
    case True
    then have "resched_this w1 = (e, w')" using step s by (simp add: client_write_def)
    then show ?thesis using resched m c by fastforce
  next
    case False
    show ?thesis
    proof (cases "err = E0 \<and> outsz w1 = 0")
      case True
      let ?v = "if \<not> outhdrs_done w1 then w1\<lparr>outhdrs_done := True, out := outbody w1, outsz := outbody_sz w1\<rparr>
          else w1\<lparr>wmode := mode_read\<rparr>"
      have "resched_this ?v = (e, w')" using step s False True by (simp add: client_write_def)
      then obtain r where "w' = ?v\<lparr>resched := r\<rparr>" using resched [of ?v] m by fastforce
      then show ?thesis using c m True by (auto simp: pending_def out_ok_def)
    next
      case wrong: False
      then have "w' = w1" using step s False by (auto simp: client_write_def)
      then show ?thesis using c m by simp
    qed
  qed
qed

lemma client_sends_conserves:
  "out_ok w \<Longrightarrow> \<not> gone w \<Longrightarrow> (wmode w = mode_read \<longrightarrow> pending w = []) \<Longrightarrow> client_sends browse_resp lim evs w = (e, w') \<Longrightarrow>
    wire w' @ pending w' = wire w @ pending w \<and> (wmode w' = mode_read \<longrightarrow> pending w' = [])"
proof (induction evs arbitrary: w)
  case (Cons ev evs)
  show ?case
  proof (cases "wmode w")
    case mode_read
    then show ?thesis using Cons.prems by simp
  next
    case mode_write
    obtain e1 w1 where s: "client_write (w\<lparr>wrq := ev\<rparr>) = (e1, w1)" by fastforce
    have p: "pending (w\<lparr>wrq := ev\<rparr>) = pending w" "out_ok (w\<lparr>wrq := ev\<rparr>)"
      using Cons.prems(1) by (simp_all add: pending_def out_ok_def)
    have c: "wire w1 @ pending w1 = wire w @ pending w \<and> out_ok w1 \<and> \<not> gone w1 \<and> (wmode w1 = mode_read \<longrightarrow> pending w1 = [])"
      using client_write_conserves [OF p(2) _ _ s] mode_write Cons.prems(2) p(1) by simp
    show ?thesis
    proof (cases e1)
      case None
      then have "client_sends browse_resp lim evs w1 = (e, w')"
        using Cons.prems(4) mode_write s by (simp add: client_step_def andthen_def)
      then show ?thesis using Cons.IH [of w1] c by simp
    next
      case (Some x)
      then show ?thesis using Cons.prems(4) mode_write s c by (simp add: client_step_def andthen_def)
    qed
  qed
qed simp

text \<open>C19. The request to the domain socket. However little the socket accepts at a time, what has gone out is a prefix of
  the request's text, and when the work turns to reading, all of it. The text is the headers, cut off at 4095 bytes or a
  NUL, an empty line more than \<open>operator<<\<close> ends them with already, and the body, with NULs from its first NUL
  on. So the other end, if the headers were not cut off, parses the very headers the server
  had, and then finds the superfluous line at the start of the body: a server that reads as many bytes as
  \<open>Content-Length\<close> says gets the line and loses the last two bytes.\<close>

theorem client_request_sent:
  assumes "client_sends browse_resp lim evs (client_unix_new True d hs b rc) = (e, w)" and "length b < 2 ^ 64"
    and hs: "hdrs_get mx i empty_hdrs = Inr (fin, i', hs)" "good i"
    and cut: "length (hdrs_put hs) \<le> 4093" "NUL \<notin> set (hdrs_put hs)"
  shows "prefix (wire w) (request_text hs b) \<and> (wmode w = mode_read \<longrightarrow> wire w = request_text hs b) \<and>
    (\<exists>j. hdrs_get mx (str_new (request_text hs b)) empty_hdrs = Inr (True, j, hs) \<and>
      unread j = CRLF @ strncpy b (length b))"
proof -
  let ?w = "client_unix_new True d hs b rc"
  let ?v = "client.extend (hwork.extend (hwork_new d) (client.fields False)) (client_unix.fields rc)"
  have v: "outbody ?v = []" "\<not> outhdrs_done ?v" "wire ?v = []" "\<not> gone ?v"
    by (simp_all add: hwork_new_def client.defs hwork.defs)
  note init = client_init_pending [OF v(1,2) assms(2), of hs, folded client_unix_new_def]
  have g: "\<not> gone ?w" using v(4) by (simp add: client_unix_new_def client_init_def Let_def)
  have c: "wire w @ pending w = request_text hs b \<and> (wmode w = mode_read \<longrightarrow> pending w = [])"
    using client_sends_conserves [OF init(2) g _ assms(1)] init v(3) by simp
  have head: "client_head hs = hdrs_put hs @ CRLF"
  proof -
    have no: "NUL \<notin> set (hdrs_put hs @ CRLF)" using cut(2) by (simp add: CRLF_def)
    have "length (hdrs_put hs @ CRLF) \<le> 4095" using cut(1) by (simp add: CRLF_def)
    then show ?thesis using str_get_text [OF _ no] c_string_id [OF no] by (simp add: client_head_def)
  qed
  have "hdrs_get mx (str_new (hdrs_put hs @ CRLF @ strncpy b (length b))) empty_hdrs =
      Inr (True, (str_new (hdrs_put hs @ CRLF @ strncpy b (length b)))\<lparr>gpos := length (hdrs_put hs)\<rparr>, hs)"
    by (rule hdrs_reparse [OF hs])
  then have "\<exists>j. hdrs_get mx (str_new (request_text hs b)) empty_hdrs = Inr (True, j, hs) \<and>
      unread j = CRLF @ strncpy b (length b)"
    by (simp add: request_text_def head unread_def)
  moreover have "prefix (wire w) (request_text hs b)" using c by (metis prefixI)
  moreover have "wmode w = mode_read \<longrightarrow> wire w = request_text hs b" using c by auto
  ultimately show ?thesis by blast
qed

text \<open>A request with a body of two bytes, on behalf of a new connection.\<close>

definition waiting_work :: h2616 where
  "waiting_work = h2616_new 5 (cache_new 0) (\<lambda>_. None) 0 (\<lambda>_. [])"

definition sample_hdrs :: structured_hdrs where
  "sample_hdrs = (empty_hdrs[reqln := ''GET /a HTTP/1.1''])[header_int Content_Length := ''Content-Length: 2'']"

lemma client_request_sent_witness:
  "\<exists>e w. client_sends (browse_resp_unix True) no_limits [[Room 10], [Room 100], [Room 100], []]
      (client_unix_new True 7 sample_hdrs ''ab'' waiting_work) = (e, w) \<and>
    (prefix (wire w) (request_text sample_hdrs ''ab'') \<and>
    (wmode w = mode_read \<longrightarrow> wire w = request_text sample_hdrs ''ab'') \<and>
    (\<exists>j. hdrs_get npos (str_new (request_text sample_hdrs ''ab'')) empty_hdrs = Inr (True, j, sample_hdrs) \<and>
      unread j = CRLF @ strncpy ''ab'' (length ''ab'')))"
proof -
  let ?t = "''GET /a HTTP/1.1'' @ CRLF @ ''Content-Length: 2'' @ CRLF @ CRLF"
  obtain e w where run: "client_sends (browse_resp_unix True) no_limits [[Room 10], [Room 100], [Room 100], []]
      (client_unix_new True 7 sample_hdrs ''ab'' waiting_work) = (e, w)" by fastforce
  have "hdrs_get npos (str_new ?t) empty_hdrs = Inr (True, (str_new ?t)\<lparr>gpos := 38\<rparr>, sample_hdrs)" by code_simp
  moreover have "length (hdrs_put sample_hdrs) \<le> 4093" "NUL \<notin> set (hdrs_put sample_hdrs)" by code_simp+
  ultimately show ?thesis
    using client_request_sent [OF run, of npos "str_new ?t" True "(str_new ?t)\<lparr>gpos := 38\<rparr>"] run by (intro exI [of _ e] exI [of _ w]) simp
qed

section \<open>Handing the response over\<close>

text \<open>The call of a work in which its response is complete, and the state in which it is browsed.\<close>

definition response_complete :: "limits \<Rightarrow> 'a client_scheme \<Rightarrow> 'a client_scheme \<Rightarrow> bool" where
  "response_complete lim w w3 \<longleftrightarrow> wmode w = mode_read \<and> inbody_sz w3 = 0 \<and>
     (if inhdrs_done w then \<exists>err. read_into_body w = (err, w3) \<and> \<not> read_fails err
      else \<exists>err w1 i hs. read_into_inbuf w = (err, w1) \<and> \<not> read_fails err \<and>
        hdrs_get (max_line_len lim) (inbuf w1) (inhdrs w1) = Inr (True, i, hs) \<and>
        content_length no_limits (w1\<lparr>inbuf := i, inhdrs := hs, inhdrs_done := True\<rparr>) = (None, w3))"

lemma read_frame:
  "read_into_body w = (err, w1) \<Longrightarrow> hwork.more w1 = hwork.more w \<and> inhdrs_done w1 = inhdrs_done w \<and> wmode w1 = wmode w"
  "read_into_inbuf w = (err, w1) \<Longrightarrow> hwork.more w1 = hwork.more w \<and> inhdrs_done w1 = inhdrs_done w \<and> wmode w1 = wmode w"
  by (auto simp: read_into_body_def read_into_inbuf_def split: prod.splits)

lemma content_length_more: "content_length lim w = (e, w') \<Longrightarrow> hwork.more w' = hwork.more w"
  by (auto simp: content_length_def body_in_inbuf_def Let_def split: if_splits sum.splits prod.splits)

lemma response_complete_step:
  assumes "response_complete lim w w3"
  shows "client_step browse_resp lim w = response_in browse_resp w3" and "hwork.more w3 = hwork.more w"
proof -
  show "client_step browse_resp lim w = response_in browse_resp w3"
  proof (cases "inhdrs_done w")
    case True
    then show ?thesis using assms read_frame(1) [of w] by (auto simp: response_complete_def client_step_def client_read_def)
  next
    case False
    then show ?thesis using assms read_frame(2) [of w] by (auto simp: response_complete_def client_step_def client_read_def Let_def)
  qed
  show "hwork.more w3 = hwork.more w"
  proof (cases "inhdrs_done w")
    case True
    then show ?thesis using assms read_frame(1) [of w] by (auto simp: response_complete_def)
  next
    case False
    then obtain err w1 i hs where r: "read_into_inbuf w = (err, w1)"
      and c: "content_length no_limits (w1\<lparr>inbuf := i, inhdrs := hs, inhdrs_done := True\<rparr>) = (None, w3)"
      using assms by (auto simp: response_complete_def)
    then show ?thesis using read_frame(2) [OF r] content_length_more [OF c] by simp
  qed
qed

lemma realclient_more: "hwork.more w3 = hwork.more w \<Longrightarrow> realclient w3 = realclient (w :: client_unix)"
  by (cases w; cases w3) simp

text \<open>C34. The response of the domain socket. In the call in which the response is complete, the work that waited for it gets its
  head and its body, as its response, and is rescheduled to write them; the client work is deleted.
  The call then reschedules the client work: a use of a deleted object, every time.\<close>

theorem dynamic_response:
  assumes c: "response_complete lim w w3" and e: "epoll_err (realclient w) = None"
    and cut: "length (hdrs_put (inhdrs w3)) \<le> 4095" "NUL \<notin> set (hdrs_put (inhdrs w3))" and len: "length (inbody w3) < 2 ^ 64"
  shows "\<exists>w'. client_step (browse_resp_unix True) lim w = (Some UB, w') \<and> gone w' \<and>
    pending (realclient w') = hdrs_put (inhdrs w3) @ strncpy (inbody w3) (length (inbody w3)) \<and>
    wmode (realclient w') = mode_write \<and> \<not> nosch (realclient w') \<and>
    resched (realclient w') = resched (realclient w) @ [mode_write]"
proof -
  let ?hs = "inhdrs w3" and ?b = "inbody w3"
  have rc: "realclient w3 = realclient w" by (rule realclient_more [OF response_complete_step(2) [OF c]])
  define r where "r = base_async_setresponse True ?hs ?b (realclient w)"
  have get: "fst (str_get (unat cbufsz) NUL (str_put (hdrs_put ?hs) (str_new []))) = hdrs_put ?hs"
    using str_get_text [OF cut] by (simp add: str_put_def str_new_def good_def)
  obtain ob where g: "str_get (unat cbufsz) NUL (str_put (hdrs_put ?hs) (str_new [])) = (hdrs_put ?hs, ob)"
    using get by (metis prod.collapse)
  have r: "out r = hdrs_put ?hs" "outsz r = of_nat (length (hdrs_put ?hs))" "\<not> outhdrs_done r"
    "outbody r = strncpy ?b (length ?b)" "outbody_sz r = of_nat (length ?b)" "epoll_err r = None" "resched r = resched (realclient w)"
    using e by (simp_all add: r_def base_async_setresponse_def head_out_def push_out_def g Let_def c_string_id [OF cut(2)])
  have a: "async_setresponse_2616 True ?hs ?b (realclient w) =
      (None, r\<lparr>nosch := False, wmode := mode_write, resched := resched r @ [mode_write]\<rparr>)"
    by (simp add: async_setresponse_2616_def reschedule_def r_def [symmetric] r(6))
  have "pending r = hdrs_put ?hs @ strncpy ?b (length ?b)"
    using cut(1) len by (simp add: pending_def r unsigned_of_nat take_bit_nat_eq_self)
  moreover have "client_step (browse_resp_unix True) lim w =
      (Some UB, w3\<lparr>realclient := r\<lparr>nosch := False, wmode := mode_write, resched := resched r @ [mode_write]\<rparr>, gone := True\<rparr>)"
    by (simp add: response_complete_step(1) [OF c] response_in_def browse_resp_unix_def rc a andthen_def resched_this_def)
  moreover have "pending (r\<lparr>nosch := False, wmode := mode_write, resched := x\<rparr>) = pending r" for x
    by (simp add: pending_def)
  ultimately show ?thesis by (simp add: r(7))
qed

lemma dynamic_response_witness:
  "\<exists>w w3 w'. response_complete no_limits w w3 \<and> inbody w3 = ''hi'' \<and> realclient w = waiting_work \<and>
    (client_step (browse_resp_unix True) no_limits w = (Some UB, w') \<and> gone w' \<and>
    pending (realclient w') = hdrs_put (inhdrs w3) @ strncpy (inbody w3) (length (inbody w3)) \<and>
    wmode (realclient w') = mode_write \<and> \<not> nosch (realclient w') \<and>
    resched (realclient w') = resched (realclient w) @ [mode_write])"
proof -
  define w where "w = (client_unix_new True 7 sample_hdrs [] waiting_work)\<lparr>wmode := mode_read, inhdrs_done := True,
    inhdrs := sample_hdrs, inbody_sz := 2, rdq := [Data ''hi'']\<rparr>"
  obtain err w3 where r: "read_into_body w = (err, w3)" by fastforce
  have "(\<lambda>(err, w3). (read_fails err, inbody_sz w3, inbody w3, inhdrs w3)) (read_into_body w) = (False, 0, ''hi'', sample_hdrs)"
    unfolding w_def by code_simp
  then have w3: "\<not> read_fails err" "inbody_sz w3 = 0" "inbody w3 = ''hi''" "inhdrs w3 = sample_hdrs" by (simp_all add: r)
  have c: "response_complete no_limits w w3" using r w3 by (simp add: response_complete_def w_def)
  have e: "epoll_err (realclient w) = None"
    by (simp add: w_def client_unix_new_def client_init_def Let_def client.defs client_unix.defs waiting_work_def h2616_new_def hwork_new_def hwork.defs h2616.defs)
  have rc: "realclient w = waiting_work" by (simp add: w_def client_unix_new_def client_init_def Let_def client.defs hwork.defs client_unix.defs)
  have cut: "length (hdrs_put sample_hdrs) \<le> 4095" "NUL \<notin> set (hdrs_put sample_hdrs)" by code_simp+
  have len: "length (inbody w3) < 2 ^ 64" by (simp add: w3(3))
  note D = dynamic_response [OF c e _ _ len, unfolded w3(4), OF cut]
  then obtain w' where "client_step (browse_resp_unix True) no_limits w = (Some UB, w')" "gone w'"
    "pending (realclient w') = hdrs_put sample_hdrs @ strncpy (inbody w3) (length (inbody w3))"
    "wmode (realclient w') = mode_write" "\<not> nosch (realclient w')" "resched (realclient w') = resched (realclient w) @ [mode_write]"
    by blast
  then show ?thesis using c w3(3,4) rc by (intro exI [of _ w] exI [of _ w3] exI [of _ w'] conjI) simp_all
qed

end
