(* ===== verification/HTTP_cmdline.thy ===== *)
theory HTTP_cmdline
  imports HTTP_constants
begin

text \<open>
  \<open>cmdline.hpp\<close>, \<open>HTTP_cmdline.cpp\<close>, \<open>data/HTTP_cmdline.def\<close>, \<open>data/sigs.def\<close> and \<open>HTTP_main.cpp\<close>: the options
  of the server, the parser of the command line, and what \<open>main\<close> makes of the values.
\<close>

section \<open>The table of options\<close>

text \<open>The enumeration of the options, in the order of the file, and the columns of the table.\<close>

datatype opt =
    o_ipv6 | o_cachesz | o_default_resource | o_sigdl_ext | o_sigflush | o_untrusted_gid | o_ifnam
  | o_mount | o_port | o_listenq | o_req_prealloc_sz | o_sigdl_int | o_untrusted_uid | o_nworkers
  | o_cache_expires | o_max_req_body | o_max_req_hdr | o_max_req_uri | o_mimedb | o_tcp_keepalive_intvl
  | o_tcp_keepalive_probes | o_tcp_keepalive_time

definition all_opts :: "opt list" where
  "all_opts = [o_ipv6, o_cachesz, o_default_resource, o_sigdl_ext, o_sigflush, o_untrusted_gid, o_ifnam, o_mount,
    o_port, o_listenq, o_req_prealloc_sz, o_sigdl_int, o_untrusted_uid, o_nworkers, o_cache_expires,
    o_max_req_body, o_max_req_hdr, o_max_req_uri, o_mimedb, o_tcp_keepalive_intvl, o_tcp_keepalive_probes,
    o_tcp_keepalive_time]"

datatype opt_kind = Bool_opt | Int_opt | Str_opt

fun kind_of :: "opt \<Rightarrow> opt_kind" where
  "kind_of o_ipv6 = Bool_opt"
| "kind_of o_cachesz = Int_opt"
| "kind_of o_default_resource = Str_opt"
| "kind_of o_sigdl_ext = Str_opt"
| "kind_of o_sigflush = Str_opt"
| "kind_of o_untrusted_gid = Int_opt"
| "kind_of o_ifnam = Str_opt"
| "kind_of o_mount = Str_opt"
| "kind_of o_port = Int_opt"
| "kind_of o_listenq = Int_opt"
| "kind_of o_req_prealloc_sz = Int_opt"
| "kind_of o_sigdl_int = Str_opt"
| "kind_of o_untrusted_uid = Int_opt"
| "kind_of o_nworkers = Int_opt"
| "kind_of o_cache_expires = Int_opt"
| "kind_of o_max_req_body = Int_opt"
| "kind_of o_max_req_hdr = Int_opt"
| "kind_of o_max_req_uri = Int_opt"
| "kind_of o_mimedb = Str_opt"
| "kind_of o_tcp_keepalive_intvl = Int_opt"
| "kind_of o_tcp_keepalive_probes = Int_opt"
| "kind_of o_tcp_keepalive_time = Int_opt"

fun shorts :: "opt \<Rightarrow> char" where
  "shorts o_ipv6 = CHR ''6''"
| "shorts o_cachesz = CHR ''c''"
| "shorts o_default_resource = CHR ''d''"
| "shorts o_sigdl_ext = CHR ''e''"
| "shorts o_sigflush = CHR ''f''"
| "shorts o_untrusted_gid = CHR ''g''"
| "shorts o_ifnam = CHR ''i''"
| "shorts o_mount = CHR ''m''"
| "shorts o_port = CHR ''p''"
| "shorts o_listenq = CHR ''q''"
| "shorts o_req_prealloc_sz = CHR ''r''"
| "shorts o_sigdl_int = CHR ''t''"
| "shorts o_untrusted_uid = CHR ''u''"
| "shorts o_nworkers = CHR ''w''"
| "shorts o_cache_expires = CHR ''x''"
| "shorts o_max_req_body = CHR ''-''"
| "shorts o_max_req_hdr = CHR ''-''"
| "shorts o_max_req_uri = CHR ''-''"
| "shorts o_mimedb = CHR ''-''"
| "shorts o_tcp_keepalive_intvl = CHR ''-''"
| "shorts o_tcp_keepalive_probes = CHR ''-''"
| "shorts o_tcp_keepalive_time = CHR ''-''"

fun longs :: "opt \<Rightarrow> string" where
  "longs o_ipv6 = ''ipv6''"
| "longs o_cachesz = ''cache-mb''"
| "longs o_default_resource = ''default-resource''"
| "longs o_sigdl_ext = ''sigdeadlock''"
| "longs o_sigflush = ''sigflush''"
| "longs o_untrusted_gid = ''untrusted-uid''"
| "longs o_ifnam = ''interface''"
| "longs o_mount = ''mount''"
| "longs o_port = ''port''"
| "longs o_listenq = ''listen-queue''"
| "longs o_req_prealloc_sz = ''req-prealloc-mb''"
| "longs o_sigdl_int = ''sigth''"
| "longs o_untrusted_uid = ''untrusted-uid''"
| "longs o_nworkers = ''num-workers''"
| "longs o_cache_expires = ''cache-expires''"
| "longs o_max_req_body = ''max-req-body''"
| "longs o_max_req_hdr = ''max-req-header''"
| "longs o_max_req_uri = ''max-req-uri''"
| "longs o_mimedb = ''mime-db''"
| "longs o_tcp_keepalive_intvl = ''tcp-keepalive-intvl''"
| "longs o_tcp_keepalive_probes = ''tcp-keepalive-probes''"
| "longs o_tcp_keepalive_time = ''tcp-keepalive-time''"

fun defaults :: "opt \<Rightarrow> string" where
  "defaults o_ipv6 = ''false''"
| "defaults o_cachesz = ''10''"
| "defaults o_default_resource = ''index.html''"
| "defaults o_sigdl_ext = ''USR1''"
| "defaults o_sigflush = ''CONT''"
| "defaults o_untrusted_gid = ''9999''"
| "defaults o_ifnam = ''eth0''"
| "defaults o_mount = ''.''"
| "defaults o_port = ''80''"
| "defaults o_listenq = ''10''"
| "defaults o_req_prealloc_sz = ''10''"
| "defaults o_sigdl_int = ''USR2''"
| "defaults o_untrusted_uid = ''9999''"
| "defaults o_nworkers = ''10''"
| "defaults o_cache_expires = ''10''"
| "defaults o_max_req_body = ''10''"
| "defaults o_max_req_hdr = ''4096''"
| "defaults o_max_req_uri = ''4096''"
| "defaults o_mimedb = ''/etc/mime.types''"
| "defaults o_tcp_keepalive_intvl = ''1''"
| "defaults o_tcp_keepalive_probes = ''1''"
| "defaults o_tcp_keepalive_time = ''15''"

fun descs :: "opt \<Rightarrow> string" where
  "descs o_ipv6 = ''use IPv6''"
| "descs o_cachesz = ''cache size (MB)''"
| "descs o_default_resource = ''resource to serve when '' @ [CHR 0x22] @ ''/'' @ [CHR 0x22] @ '' is requested''"
| "descs o_sigdl_ext = ''emergency de-deadlock signal''"
| "descs o_sigflush = ''server flush signal''"
| "descs o_untrusted_gid = ''untrusted gid to execute as''"
| "descs o_ifnam = ''network interface to use''"
| "descs o_mount = ''where in the filesystem to mount''"
| "descs o_port = ''listening port''"
| "descs o_listenq = ''TCP listen queue size''"
| "descs o_req_prealloc_sz = ''space to preallocate for HTTP requests (MB)''"
| "descs o_sigdl_int = ''INTERNAL USE ONLY thread communication signal''"
| "descs o_untrusted_uid = ''untrusted uid to execute as''"
| "descs o_nworkers = ''number of worker threads''"
| "descs o_cache_expires = ''default cache expiration time (minutes)''"
| "descs o_max_req_body = ''maximum request body size (MB)''"
| "descs o_max_req_hdr = ''maximum request header line length (bytes)''"
| "descs o_max_req_uri = ''maximum request URI size (bytes)''"
| "descs o_mimedb = ''CUPS-style MIME database to use''"
| "descs o_tcp_keepalive_intvl = ''advanced TCP option''"
| "descs o_tcp_keepalive_probes = ''advanced TCP option''"
| "descs o_tcp_keepalive_time = ''advanced TCP option''"

definition progdesc :: string where
  "progdesc = ''A basic web server.''"

section \<open>The parser\<close>

text \<open>\<open>argv\<close> and the values are C strings. \<open>bvals\<close> marks the Boolean options while the arguments are
  read; the exit status of \<open>--help\<close> is 0, that of an unrecognised option 1.\<close>

type_synonym svals = "opt \<Rightarrow> string"

definition bval :: "opt \<Rightarrow> bool" where
  "bval k \<longleftrightarrow> kind_of k = Bool_opt"

text \<open>What is printed before the program ends. A short option \<open>-\<close> is one that there is not. The defaults are the values at that
  point, which earlier arguments may have changed.\<close>

definition print_help :: "string \<Rightarrow> svals \<Rightarrow> string" where
  "print_help argv0 sv =
     ''Usage: '' @ argv0 @ '' [options]'' @ [LF] @ progdesc @ [LF] @
     concat (map (\<lambda>k.
       (if shorts k = CHR ''-'' then [] else ''-'') @ (if shorts k = CHR ''-'' then [] else [shorts k]) @
       (if shorts k = CHR ''-'' then [] else '', '') @ ''--'' @ longs k @ [CHR 0x09] @ descs k @ '' '' @
       (if bval k then [] else ''[default '') @ (if bval k then [] else sv k) @ (if bval k then [] else '']'') @ [LF]) all_opts)"

definition unrecognized_opt :: "string \<Rightarrow> string \<Rightarrow> string" where
  "unrecognized_opt argv0 option =
     argv0 @ '': unrecognized option '' @ [CHR 0x27] @ option @ [CHR 0x27] @ [LF] @
     ''Try `'' @ argv0 @ '' --help'' @ [CHR 0x27] @ '' for more information.'' @ [LF]"

definition long_opt :: "string \<Rightarrow> svals \<Rightarrow> exc + svals" where
  "long_opt tmp sv =
     (case List.find (\<lambda>k. prefix (longs k) (drop 2 tmp)) all_opts of
        None \<Rightarrow> Inl (Exit 1)
      | Some k \<Rightarrow>
          if CHR ''='' \<notin> set tmp then if bval k then Inr (sv(k := ''true'')) else Inl (Exit 1)
          else Inr (sv(k := tl (dropWhile (\<lambda>c. c \<noteq> CHR ''='') tmp))))"

definition short_opt :: "string \<Rightarrow> svals \<Rightarrow> exc + svals" where
  "short_opt tmp sv =
     (case List.find (\<lambda>k. tmp ! 1 = shorts k \<and> tmp ! 1 \<noteq> CHR ''-'') all_opts of
        None \<Rightarrow> Inl (Exit 1)
      | Some k \<Rightarrow>
          if length tmp < 3 then if bval k then Inr (sv(k := ''true'')) else Inl (Exit 1)
          else Inr (sv(k := drop 2 tmp)))"

definition parse_arg :: "string \<Rightarrow> svals \<Rightarrow> exc + svals" where
  "parse_arg tmp sv =
     (if prefix ''--help'' tmp then Inl (Exit 0)
      else if tmp = [] \<or> hd tmp \<noteq> CHR ''-'' \<or> length tmp = 1 then Inl (Exit 1)
      else if tmp ! 1 = CHR ''-'' then long_opt tmp sv
      else short_opt tmp sv)"

text \<open>\<open>atoi\<close>; the behaviour is undefined when the value is not an \<open>int\<close>.\<close>

definition atoi :: "string \<Rightarrow> exc + int" where
  "atoi s =
     (let r = dropWhile isspace s; sg = sign_of r; n = int (nat_of_digits (digits_of (drop (length sg) r)));
          v = (if sg = ''-'' then - n else n)
      in if - (2 ^ 31) \<le> v \<and> v < 2 ^ 31 then Inr v else Inl UB)"

record config =
  svals :: svals
  ivals :: "opt \<Rightarrow> int"
  bvals :: "opt \<Rightarrow> bool"

definition atoi_opts :: "svals \<Rightarrow> exc + config" where
  "atoi_opts sv =
     bind_res (fold_res (\<lambda>k iv. bind_res (atoi (sv k)) (\<lambda>n. Inr (iv(k := n)))) (filter (\<lambda>k. kind_of k = Int_opt) all_opts) (\<lambda>_. 0))
       (\<lambda>iv. Inr \<lparr>svals = sv, ivals = iv, bvals = (\<lambda>k. bval k \<and> \<not> prefix ''false'' (sv k))\<rparr>)"

definition parsecmdline :: "string list \<Rightarrow> exc + config" where
  "parsecmdline args = bind_res (fold_res parse_arg args defaults) atoi_opts"

section \<open>Signals\<close>

text \<open>\<open>sigconv\<close>, with the numbers that the signals have on Linux.\<close>

definition sigs :: "(string \<times> int) list" where
  "sigs = [(''HUP'', 1), (''INT'', 2), (''QUIT'', 3), (''ILL'', 4), (''ABRT'', 6), (''FPE'', 8), (''SEGV'', 11),
    (''PIPE'', 13), (''ALRM'', 14), (''TERM'', 15), (''USR1'', 10), (''USR2'', 12), (''CHLD'', 17), (''CONT'', 18),
    (''TSTP'', 20), (''TTIN'', 21), (''TTOU'', 22)]"

definition sigconv :: "string \<Rightarrow> exc + int" where
  "sigconv sig = (case List.find (\<lambda>(s, n). prefix s sig) sigs of Some (s, n) \<Rightarrow> Inr n | None \<Rightarrow> Inl (Exit 0))"

section \<open>The main program\<close>

text \<open>What \<open>main\<close> passes on. A product of an option and \<open>1<<20\<close> is one of \<open>int\<close>s; the parameters it goes to
  are unsigned.\<close>

record server_args =
  a_ipv6 :: bool
  a_mount :: string
  a_bindto :: string
  a_cacheszMB :: size_t
  a_sigflush :: int
  a_nworkers :: int
  a_listenq :: int
  a_preallocMB :: size_t
  a_ifnam :: string
  a_sigdl_int :: int
  a_sigdl_ext :: int
  a_keepalive :: "int \<times> int \<times> int"
  a_uid :: "32 word"
  a_gid :: "32 word"
  a_max_req_uri :: size_t
  a_max_req_body :: size_t
  a_max_line_len :: size_t

definition int_times :: "int \<Rightarrow> int \<Rightarrow> exc + int" where
  "int_times m n = (if - (2 ^ 31) \<le> m * n \<and> m * n < 2 ^ 31 then Inr (m * n) else Inl UB)"

definition main_args :: "string list \<Rightarrow> exc + server_args" where
  "main_args args =
     bind_res (parsecmdline args) (\<lambda>c.
     bind_res (int_times (ivals c o_max_req_body) (2 ^ 20)) (\<lambda>body.
     bind_res (sigconv (svals c o_sigdl_ext)) (\<lambda>ext.
     bind_res (sigconv (svals c o_sigdl_int)) (\<lambda>int.
     bind_res (sigconv (svals c o_sigflush)) (\<lambda>flush.
     Inr \<lparr>a_ipv6 = bvals c o_ipv6, a_mount = svals c o_mount, a_bindto = svals c o_port,
       a_cacheszMB = of_int (ivals c o_cachesz), a_sigflush = flush, a_nworkers = ivals c o_nworkers,
       a_listenq = ivals c o_listenq, a_preallocMB = of_int (ivals c o_req_prealloc_sz), a_ifnam = svals c o_ifnam,
       a_sigdl_int = int, a_sigdl_ext = ext,
       a_keepalive = (ivals c o_tcp_keepalive_intvl, ivals c o_tcp_keepalive_probes, ivals c o_tcp_keepalive_time),
       a_uid = of_int (ivals c o_untrusted_uid), a_gid = of_int (ivals c o_untrusted_gid),
       a_max_req_uri = of_int (ivals c o_max_req_uri), a_max_req_body = of_int body,
       a_max_line_len = of_int (ivals c o_max_req_hdr)\<rparr>)))))"

section \<open>Writing a command line\<close>

text \<open>An option with its value in the short or the long form, or a Boolean option alone.\<close>

datatype setting = Short opt string | Long opt string | Flag_short opt | Flag_long opt

fun render :: "setting \<Rightarrow> string" where
  "render (Short k v) = CHR ''-'' # shorts k # v"
| "render (Long k v) = ''--'' @ longs k @ ''='' @ v"
| "render (Flag_short k) = [CHR ''-'', shorts k]"
| "render (Flag_long k) = ''--'' @ longs k"

fun valid_setting :: "setting \<Rightarrow> bool" where
  "valid_setting (Short k v) = (shorts k \<noteq> CHR ''-'' \<and> v \<noteq> [])"
| "valid_setting (Long k v) = True"
| "valid_setting (Flag_short k) = (shorts k \<noteq> CHR ''-'' \<and> kind_of k = Bool_opt)"
| "valid_setting (Flag_long k) = (kind_of k = Bool_opt)"

text \<open>The option that is set: the long form of \<open>untrusted_uid\<close> is that of \<open>untrusted_gid\<close>.\<close>

definition long_target :: "opt \<Rightarrow> opt" where
  "long_target k = (if k = o_untrusted_uid then o_untrusted_gid else k)"

fun sets :: "setting \<Rightarrow> svals \<Rightarrow> svals" where
  "sets (Short k v) sv = sv(k := v)"
| "sets (Long k v) sv = sv(long_target k := v)"
| "sets (Flag_short k) sv = sv(k := ''true'')"
| "sets (Flag_long k) sv = sv(k := ''true'')"

lemma find_long: "List.find (\<lambda>p. prefix (longs p) (longs k @ ''='' @ v)) all_opts = Some (long_target k)"
  by (cases k) (simp_all add: all_opts_def long_target_def)

lemma find_long_flag: "kind_of k = Bool_opt \<Longrightarrow> List.find (\<lambda>p. prefix (longs p) (longs k)) all_opts = Some k"
  by (cases k) (simp_all add: all_opts_def)

lemma find_short: "shorts k \<noteq> CHR ''-'' \<Longrightarrow> List.find (\<lambda>p. shorts k = shorts p \<and> shorts k \<noteq> CHR ''-'') all_opts = Some k"
  by (cases k) (simp_all add: all_opts_def)

lemma longs_chars: "CHR ''='' \<notin> set (longs k)" "\<not> prefix ''help'' (longs k @ v)"
  by (cases k; simp)+

lemma parse_render:
  assumes "valid_setting x"
  shows "parse_arg (render x) sv = Inr (sets x sv)"
proof (cases x)
  case (Short k v)
  then show ?thesis using assms find_short [of k] by (cases v) (auto simp: parse_arg_def short_opt_def)
next
  case (Long k v)
  have "dropWhile (\<lambda>c. c \<noteq> CHR ''='') (longs k @ CHR ''='' # v) = CHR ''='' # v"
    using longs_chars(1) [of k] by (subst dropWhile_append2) auto
  then show ?thesis using Long find_long [of k v] longs_chars(2) [of k "''='' @ v"]
    by (simp add: parse_arg_def long_opt_def)
next
  case (Flag_short k)
  then show ?thesis using assms find_short [of k] by (auto simp: parse_arg_def short_opt_def bval_def)
next
  case (Flag_long k)
  then show ?thesis using assms find_long_flag [of k] longs_chars [of k] longs_chars(2) [of k "[]"]
    by (simp add: parse_arg_def long_opt_def bval_def)
qed

lemma parse_renders:
  "\<forall>x \<in> set xs. valid_setting x \<Longrightarrow> fold_res parse_arg (map render xs) sv = Inr (fold sets xs sv)"
  by (induction xs arbitrary: sv) (simp_all add: parse_render)

lemma atoi_show:
  assumes "n < 2 ^ 31"
  shows "atoi (show_nat n) = Inr (int n)"
proof -
  obtain c ds where ds: "show_nat n = c # ds" using show_nat_ne by (metis neq_Nil_conv)
  have c: "digit_val c \<noteq> None" using show_nat_digits [of n] by (simp add: ds)
  have "dropWhile isspace (show_nat n) = show_nat n" using digit_not_space [OF c] by (simp add: ds)
  moreover have "sign_of (show_nat n) = []" using c by (auto simp: ds sign_of_def digit_val_def split: if_splits)
  moreover have "digits_of (show_nat n) = show_nat n" using digits_of_append [OF show_nat_digits [of n], of "[]"] by simp
  ultimately show ?thesis using assms by (simp add: atoi_def Let_def nat_of_digits_show)
qed

text \<open>C39. The command line. Options written in the short form \<open>-pVALUE\<close>, the long form \<open>--port=VALUE\<close> or, if Boolean,
  alone, give exactly the values written, the last one for an option that is written twice, and the
  default for one that is not written; a number below \<open>2^31\<close> is read as that number. The exception is
  \<open>--untrusted-uid\<close>, which is the long form of two options: it sets the group, and the user stays
  the default.\<close>

theorem cmdline_values:
  assumes "\<forall>x \<in> set xs. valid_setting x"
  shows "parsecmdline (map render xs) = atoi_opts (fold sets xs defaults) \<and>
    (\<forall>c. parsecmdline (map render xs) = Inr c \<longrightarrow> svals c = fold sets xs defaults) \<and>
    (n < 2 ^ 31 \<longrightarrow> atoi (show_nat n) = Inr (int n)) \<and>
    sets (Long o_untrusted_uid v) sv = sv(o_untrusted_gid := v)"
proof -
  have p: "parsecmdline (map render xs) = atoi_opts (fold sets xs defaults)"
    by (simp add: parsecmdline_def parse_renders [OF assms])
  moreover have "svals c = sv" if "atoi_opts sv = Inr c" for sv c
    using that by (auto simp: atoi_opts_def bind_res_Inr)
  ultimately show ?thesis using atoi_show by (simp add: long_target_def)
qed

lemma cmdline_values_witness:
  "let xs = [Short o_port ''8080'', Flag_long o_ipv6, Long o_untrusted_uid ''99''] in
    parsecmdline (map render xs) = atoi_opts (fold sets xs defaults) \<and>
    (\<forall>c. parsecmdline (map render xs) = Inr c \<longrightarrow> svals c = fold sets xs defaults) \<and>
    (8080 < (2 :: nat) ^ 31 \<longrightarrow> atoi (show_nat 8080) = Inr (int 8080)) \<and>
    sets (Long o_untrusted_uid ''99'') defaults = defaults(o_untrusted_gid := ''99'')"
proof -
  have "\<forall>x \<in> set [Short o_port ''8080'', Flag_long o_ipv6, Long o_untrusted_uid ''99'']. valid_setting x" by simp
  then show ?thesis unfolding Let_def by (rule cmdline_values)
qed

text \<open>A limit of 2048 megabytes or more for bodies is not representable as an \<open>int\<close>.\<close>

lemma main_args_overflow:
  assumes "parsecmdline args = Inr c" and "2048 \<le> ivals c o_max_req_body"
  shows "main_args args = Inl UB"
  using assms by (simp add: main_args_def int_times_def)

end
