(* ===== verification/Thread_Pool.thy ===== *)
theory Thread_Pool
  imports HTTP_constants
begin

text \<open>
  \<open>Thread.hpp\<close>, \<open>ThreadPool.hpp\<close> and the mutex and the condition variable of \<open>Locks.cpp\<close>: a pool of
  threads that each run a body and then take themselves out of a list, the destructor that waits until
  the list is empty, and the emergency that interrupts every thread. The body is open: it may go on for
  as long as it likes.
\<close>

section \<open>A thread\<close>

text \<open>What the constructor that takes a factory keeps: the signals to block, whether the thread is detached,
  whether the object is the thread's own, whether there is a callback.\<close>

record thread =
  t_sigmask :: "(int \<Rightarrow> bool) option"
  t_detached :: bool
  t_dodelete :: bool
  t_cleanup :: bool

definition thread_of_factory :: "(int \<Rightarrow> bool) option \<Rightarrow> bool \<Rightarrow> bool \<Rightarrow> thread" where
  "thread_of_factory m det cb = \<lparr>t_sigmask = m, t_detached = det, t_dodelete = True, t_cleanup = cb\<rparr>"

definition thread_of_object :: "(int \<Rightarrow> bool) option \<Rightarrow> bool \<Rightarrow> bool \<Rightarrow> thread" where
  "thread_of_object m det cb = \<lparr>t_sigmask = m, t_detached = det, t_dodelete = False, t_cleanup = cb\<rparr>"

text \<open>Every \<open>pthread\<close> function answers 0 or the number of an error, and an error ends the process.\<close>

definition pthread :: "nat \<Rightarrow> exc + unit" where
  "pthread e = (if e = 0 then Inr () else Inl (Exit 1))"

definition thread_start :: "nat \<Rightarrow> nat \<Rightarrow> nat \<Rightarrow> exc + unit" where
  "thread_start init setdetach create =
     bind_res (pthread init) (\<lambda>_. bind_res (pthread setdetach) (\<lambda>_. pthread create))"

text \<open>The thread itself: the signal mask, the cancellation state and type, the body, the callback.\<close>

datatype t_act = Set_mask "int \<Rightarrow> bool" | Run_body | Call_cleanup

definition thread_wrapper :: "nat \<Rightarrow> nat \<Rightarrow> nat \<Rightarrow> thread \<Rightarrow> exc + t_act list" where
  "thread_wrapper em ec et t =
     bind_res (case t_sigmask t of None \<Rightarrow> Inr [] | Some m \<Rightarrow> bind_res (pthread em) (\<lambda>_. Inr [Set_mask m])) (\<lambda>as.
     bind_res (pthread ec) (\<lambda>_.
     bind_res (pthread et) (\<lambda>_.
     Inr (as @ [Run_body] @ (if t_cleanup t then [Call_cleanup] else [])))))"

text \<open>The destructor: whether the thread is joined, whether the object goes.\<close>

definition thread_delete :: "nat \<Rightarrow> thread \<Rightarrow> exc + bool \<times> bool" where
  "thread_delete join t =
     (if t_detached t then Inr (False, t_dodelete t)
      else bind_res (pthread join) (\<lambda>_. Inr (True, t_dodelete t)))"

section \<open>The pool\<close>

text \<open>
  Threads are numbered in the order they are made. Where one is: not started, in its body, at the lock
  in \<open>operator()\<close>, holding the lock before and after the search, out of it, gone. Where the thread that
  owns the pool is: before \<open>start\<close>, at the \<open>i\<close>-th element of the list, before the destructor, at the
  test of its loop, asleep on the condition variable and awake without the lock, past the loop, done.
  Where the emergency is, which another thread runs: before, at the lock, with the threads it still
  has to signal, after.
\<close>

datatype tpc = T_new | T_run | T_lock | T_in | T_out | T_left | T_gone

datatype ppc = P_begin | P_start nat | P_dtor | P_test | P_sleep | P_woken | P_leave | P_done

datatype ypc = Y_idle | Y_lock | Y_send "nat list" | Y_done

datatype who = Pool | Yank | Thr nat

record tpool =
  plist :: "nat list"
  tpcs :: "tpc list"
  tfreed :: "nat list"
  mutex :: "who option"
  sigkill :: int
  sent :: "nat list"
  in_handler :: "nat list"
  ppc :: ppc
  ypc :: ypc
  pcrash :: "exc option"

text \<open>The signals that \<open>sigdelset\<close> knows (the C library keeps two to itself), those that may have a handler.\<close>

definition valid_sig :: "int \<Rightarrow> bool" where
  "valid_sig n \<longleftrightarrow> 1 \<le> n \<and> n \<le> 64 \<and> n \<noteq> 32 \<and> n \<noteq> 33"

definition pool_mask :: "int \<Rightarrow> int \<Rightarrow> bool" where
  "pool_mask sk = (if sk = -1 then (\<lambda>n. True) else (\<lambda>n. n \<noteq> sk))"

definition pool_thread :: "int \<Rightarrow> thread" where
  "pool_thread sk = thread_of_factory (Some (pool_mask sk)) True True"

definition tpool_new :: "nat \<Rightarrow> int \<Rightarrow> exc + tpool" where
  "tpool_new n sk =
     (if sk \<noteq> -1 \<and> \<not> valid_sig sk then Inl (Exit 1)
      else if sk \<noteq> -1 \<and> (sk = 9 \<or> sk = 19) then Inl (Exit 1)
      else Inr \<lparr>plist = [0..<n], tpcs = replicate n T_new, tfreed = [], mutex = None, sigkill = sk, sent = [], in_handler = [],
        ppc = P_begin, ypc = Y_idle, pcrash = None\<rparr>)"

text \<open>\<open>start\<close>; the answer is that of \<open>pthread_create\<close>.\<close>

definition pool_start :: "nat \<Rightarrow> tpool \<Rightarrow> tpool option" where
  "pool_start e s =
     (case ppc s of
        P_begin \<Rightarrow> if mutex s = None then Some (s\<lparr>mutex := Some Pool, ppc := P_start 0\<rparr>) else None
      | P_start i \<Rightarrow>
          if i < length (plist s)
          then (case thread_start 0 0 e of
                  Inl x \<Rightarrow> Some (s\<lparr>pcrash := Some x\<rparr>)
                | Inr _ \<Rightarrow> Some (s\<lparr>tpcs := (tpcs s)[plist s ! i := T_run], ppc := P_start (i + 1)\<rparr>))
          else Some (s\<lparr>mutex := None, ppc := P_dtor\<rparr>)
      | _ \<Rightarrow> None)"

text \<open>The destructor. A wait gives up the mutex and takes it again.\<close>

definition pool_dtor :: "tpool \<Rightarrow> tpool option" where
  "pool_dtor s =
     (case ppc s of
        P_dtor \<Rightarrow> if mutex s = None then Some (s\<lparr>mutex := Some Pool, ppc := P_test\<rparr>) else None
      | P_test \<Rightarrow> if plist s = [] then Some (s\<lparr>ppc := P_leave\<rparr>) else Some (s\<lparr>mutex := None, ppc := P_sleep\<rparr>)
      | P_woken \<Rightarrow> if mutex s = None then Some (s\<lparr>mutex := Some Pool, ppc := P_test\<rparr>) else None
      | P_leave \<Rightarrow> Some (s\<lparr>mutex := None, ppc := P_done\<rparr>)
      | _ \<Rightarrow> None)"

text \<open>\<open>operator()\<close> by the thread \<open>k\<close>: the search, the deletion of the thread's objects, the signal.\<close>

definition pool_remove :: "nat \<Rightarrow> tpool \<Rightarrow> tpool" where
  "pool_remove k s =
     (if k \<in> set (plist s)
      then let l = removeAll k (plist s) in
        s\<lparr>plist := l, tfreed := k # tfreed s, ppc := (if l = [] \<and> ppc s = P_sleep then P_woken else ppc s)\<rparr>
      else s)"

definition set_tpc :: "nat \<Rightarrow> tpc \<Rightarrow> tpool \<Rightarrow> tpool" where
  "set_tpc k p s = s\<lparr>tpcs := (tpcs s)[k := p]\<rparr>"

text \<open>The thread \<open>k\<close>, from the end of its body on. A mutex of a pool that is no more is undefined behaviour.\<close>

definition pool_op :: "nat \<Rightarrow> tpool \<Rightarrow> tpool option" where
  "pool_op k s =
     (case tpcs s ! k of
        T_run \<Rightarrow> Some (set_tpc k T_lock s)
      | T_lock \<Rightarrow>
          if ppc s = P_done then Some (s\<lparr>pcrash := Some UB\<rparr>)
          else if mutex s = None then Some (set_tpc k T_in (s\<lparr>mutex := Some (Thr k)\<rparr>)) else None
      | T_in \<Rightarrow> Some (set_tpc k T_out (pool_remove k s))
      | T_out \<Rightarrow> Some (set_tpc k T_left (s\<lparr>mutex := None\<rparr>))
      | T_left \<Rightarrow> Some (set_tpc k T_gone s)
      | _ \<Rightarrow> None)"

text \<open>\<open>UNSAFE_emerg_yank\<close>; the descriptor of a thread that was not started is not initialised.\<close>

definition emerg_yank :: "tpool \<Rightarrow> tpool option" where
  "emerg_yank s =
     (case ypc s of
        Y_idle \<Rightarrow> Some (s\<lparr>ypc := (if sigkill s = -1 then Y_done else Y_lock)\<rparr>)
      | Y_lock \<Rightarrow>
          if ppc s = P_done then Some (s\<lparr>pcrash := Some UB\<rparr>)
          else if mutex s = None then Some (s\<lparr>mutex := Some Yank, ypc := Y_send (plist s)\<rparr>) else None
      | Y_send [] \<Rightarrow> Some (s\<lparr>mutex := None, ypc := Y_done\<rparr>)
      | Y_send (k # ks) \<Rightarrow>
          if tpcs s ! k = T_new then Some (s\<lparr>pcrash := Some UB\<rparr>)
          else Some (s\<lparr>sent := k # sent s, ypc := Y_send ks\<rparr>)
      | Y_done \<Rightarrow> None)"

text \<open>The signal reaches the thread \<open>k\<close>, wherever it is: \<open>pthread_exit_wrapper\<close> calls \<open>operator()\<close>, then the
  thread ends.\<close>

definition pthread_exit_wrapper :: "nat \<Rightarrow> tpool \<Rightarrow> tpool option" where
  "pthread_exit_wrapper k s =
     (if k \<notin> set (sent s) then None
      else if tpcs s ! k = T_gone then Some (s\<lparr>sent := remove1 k (sent s)\<rparr>)
      else Some (set_tpc k T_lock (s\<lparr>sent := remove1 k (sent s), in_handler := k # in_handler s\<rparr>)))"

datatype pmove = Start nat | Dtor | Thread nat | Emerg | Interrupt nat | Spurious

fun pool_move :: "pmove \<Rightarrow> tpool \<Rightarrow> tpool option" where
  "pool_move (Start e) s = pool_start e s"
| "pool_move Dtor s = pool_dtor s"
| "pool_move (Thread k) s = (if k < length (tpcs s) then pool_op k s else None)"
| "pool_move Emerg s = emerg_yank s"
| "pool_move (Interrupt k) s = pthread_exit_wrapper k s"
| "pool_move Spurious s = (if ppc s = P_sleep then Some (s\<lparr>ppc := P_woken\<rparr>) else None)"

fun pool_moves :: "pmove list \<Rightarrow> tpool \<Rightarrow> tpool option" where
  "pool_moves [] s = Some s"
| "pool_moves (m # ms) s = (if pcrash s = None then Option.bind (pool_move m s) (pool_moves ms) else None)"

section \<open>What holds between the steps\<close>

text \<open>The threads that are not in the list have been deleted, once each; a sleeping destructor has
  something to wait for.\<close>

definition plist_ok :: "tpool \<Rightarrow> bool" where
  "plist_ok s \<longleftrightarrow> distinct (plist s) \<and> distinct (tfreed s) \<and> set (plist s) \<inter> set (tfreed s) = {} \<and>
     set (plist s) \<union> set (tfreed s) = {..<length (tpcs s)} \<and>
     (ppc s = P_sleep \<longrightarrow> plist s \<noteq> []) \<and> (ppc s \<in> {P_leave, P_done} \<longrightarrow> plist s = [])"

text \<open>Who is inside. A thread that was interrupted there waits for itself.\<close>

definition pool_in :: "tpool \<Rightarrow> bool" where
  "pool_in s \<longleftrightarrow> (case ppc s of P_start _ \<Rightarrow> True | P_test \<Rightarrow> True | P_leave \<Rightarrow> True | _ \<Rightarrow> False)"

definition yank_in :: "tpool \<Rightarrow> bool" where
  "yank_in s \<longleftrightarrow> (case ypc s of Y_send _ \<Rightarrow> True | _ \<Rightarrow> False)"

definition thr_in :: "tpool \<Rightarrow> nat \<Rightarrow> bool" where
  "thr_in s k \<longleftrightarrow> k < length (tpcs s) \<and> (tpcs s ! k = T_in \<or> tpcs s ! k = T_out)"

definition waits_for_itself :: "tpool \<Rightarrow> nat \<Rightarrow> bool" where
  "waits_for_itself s k \<longleftrightarrow> mutex s = Some (Thr k) \<and> k < length (tpcs s) \<and> tpcs s ! k = T_lock \<and> k \<in> set (in_handler s)"

definition mutex_ok :: "tpool \<Rightarrow> bool" where
  "mutex_ok s \<longleftrightarrow>
     pool_in s = (mutex s = Some Pool) \<and> yank_in s = (mutex s = Some Yank) \<and>
     (\<forall>k. thr_in s k \<longrightarrow> mutex s = Some (Thr k)) \<and>
     (\<forall>k. mutex s = Some (Thr k) \<longrightarrow> thr_in s k \<or> waits_for_itself s k)"

text \<open>The threads that are still to come to the list are in it; those that are not started are the rest
  of the loop in \<open>start\<close>.\<close>

definition tpc_ok :: "tpool \<Rightarrow> nat \<Rightarrow> bool" where
  "tpc_ok s k \<longleftrightarrow>
     (k \<in> set (plist s) \<longrightarrow> tpcs s ! k \<in> {T_new, T_run, T_lock, T_in}) \<and>
     (tpcs s ! k \<in> {T_new, T_run} \<longrightarrow> k \<in> set (plist s)) \<and>
     (tpcs s ! k \<in> {T_lock, T_in} \<longrightarrow> k \<notin> set (in_handler s) \<longrightarrow> k \<in> set (plist s)) \<and>
     (tpcs s ! k = T_new \<longrightarrow>
        (case ppc s of P_begin \<Rightarrow> True | P_start i \<Rightarrow> k \<in> set (drop i (plist s)) | _ \<Rightarrow> False))"

definition quiet_ok :: "tpool \<Rightarrow> bool" where
  "quiet_ok s \<longleftrightarrow> set (sent s) \<subseteq> {..<length (tpcs s)} \<and> (\<forall>ks. ypc s = Y_send ks \<longrightarrow> set ks \<subseteq> {..<length (tpcs s)}) \<and>
     (sigkill s = -1 \<longrightarrow> sent s = [] \<and> in_handler s = [] \<and> ypc s \<in> {Y_idle, Y_done} \<and> pcrash s \<in> {None, Some (Exit 1)})"

definition pool_inv :: "tpool \<Rightarrow> bool" where
  "pool_inv s \<longleftrightarrow> plist_ok s \<and> mutex_ok s \<and> (\<forall>k < length (tpcs s). tpc_ok s k) \<and> quiet_ok s"

lemma pool_invD:
  assumes "pool_inv s"
  shows "plist_ok s" "mutex_ok s" "\<And>k. k < length (tpcs s) \<Longrightarrow> tpc_ok s k" "quiet_ok s"
  using assms by (auto simp: pool_inv_def)

lemma pool_invI:
  "plist_ok s \<Longrightarrow> mutex_ok s \<Longrightarrow> (\<And>k. k < length (tpcs s) \<Longrightarrow> tpc_ok s k) \<Longrightarrow> quiet_ok s \<Longrightarrow> pool_inv s"
  by (simp add: pool_inv_def)

lemmas rest_defs = plist_ok_def mutex_ok_def quiet_ok_def pool_in_def yank_in_def thr_in_def waits_for_itself_def set_tpc_def
lemmas pool_defs = plist_ok_def mutex_ok_def tpc_ok_def quiet_ok_def pool_in_def yank_in_def thr_in_def waits_for_itself_def set_tpc_def

lemma tpool_new_inv: "tpool_new n sk = Inr s \<Longrightarrow> pool_inv s \<and> length (tpcs s) = n \<and> sigkill s = sk \<and> pcrash s = None"
  by (auto simp: tpool_new_def pool_inv_def pool_defs split: if_splits)

lemma mutex_okD:
  assumes "mutex_ok s"
  shows "pool_in s \<longleftrightarrow> mutex s = Some Pool" "yank_in s \<longleftrightarrow> mutex s = Some Yank"
    "thr_in s k \<Longrightarrow> mutex s = Some (Thr k)" "mutex s = Some (Thr k) \<Longrightarrow> thr_in s k \<or> waits_for_itself s k"
  using assms by (auto simp: mutex_ok_def)

text \<open>A step of the owner or of the emergency: the list and the threads stay.\<close>

definition new_done :: "ppc \<Rightarrow> nat \<Rightarrow> bool" where
  "new_done p n \<longleftrightarrow> (case p of P_begin \<Rightarrow> False | P_start i \<Rightarrow> n \<le> i | _ \<Rightarrow> True)"

lemma frame_inv:
  assumes inv: "pool_inv s"
    and same: "plist s' = plist s" "tpcs s' = tpcs s" "tfreed s' = tfreed s" "in_handler s' = in_handler s"
    and ppc: "ppc s' = ppc s \<or> ppc s = P_begin \<and> ppc s' = P_start 0 \<or> new_done (ppc s) (length (plist s))"
    and "ppc s' = P_sleep \<longrightarrow> plist s \<noteq> []" "ppc s' \<in> {P_leave, P_done} \<longrightarrow> plist s = []" "mutex_ok s'" "quiet_ok s'"
  shows "pool_inv s'"
proof (rule pool_invI)
  note i = pool_invD [OF inv]
  show "plist_ok s'" using i(1) assms by (simp add: plist_ok_def)
  show "tpc_ok s' k" if "k < length (tpcs s')" for k
  proof -
    have k: "tpc_ok s k" using i(3) that same by simp
    consider "ppc s' = ppc s" | "ppc s = P_begin" "ppc s' = P_start 0" | "new_done (ppc s) (length (plist s))" using ppc by blast
    then show ?thesis
    proof cases
      case 1
      then show ?thesis using k unfolding tpc_ok_def same by simp
    next
      case 3
      then have "tpcs s ! k \<noteq> T_new" using k by (auto simp: tpc_ok_def new_done_def split: ppc.splits)
      then show ?thesis using k by (simp add: tpc_ok_def same)
    qed (use k in \<open>simp_all add: tpc_ok_def same\<close>)
  qed
qed (use assms in simp_all)

text \<open>The mutex is taken by one that was outside, or given back.\<close>

lemma mutex_move:
  assumes ok: "mutex_ok s" and same: "tpcs s' = tpcs s" "in_handler s' = in_handler s"
    and m: "mutex s = None \<and> mutex s' \<in> {Some Pool, Some Yank} \<or> mutex s \<in> {Some Pool, Some Yank} \<and> mutex s' \<in> {mutex s, None} \<or> mutex s' = mutex s"
    and io: "pool_in s' \<longleftrightarrow> mutex s' = Some Pool" "yank_in s' \<longleftrightarrow> mutex s' = Some Yank"
  shows "mutex_ok s'"
proof -
  note d = mutex_okD [OF ok]
  have t: "thr_in s' k \<longleftrightarrow> thr_in s k" for k by (simp add: thr_in_def same)
  show ?thesis
  proof (cases "mutex s' = mutex s")
    case True
    then have "waits_for_itself s' k \<longleftrightarrow> waits_for_itself s k" for k by (simp add: waits_for_itself_def same)
    then show ?thesis using d(3,4) io True by (simp add: mutex_ok_def t)
  next
    case False
    then have "mutex s \<noteq> Some (Thr k)" "mutex s' \<noteq> Some (Thr k)" for k using m by auto
    then show ?thesis using d(3) io by (simp add: mutex_ok_def t) blast
  qed
qed

lemma start_inv:
  assumes inv: "pool_inv s" and step: "pool_start e s = Some s'" and no: "pcrash s = None"
  shows "pool_inv s'"
proof -
  note i = pool_invD [OF inv] and d = mutex_okD [OF pool_invD(2) [OF inv]]
  consider (lock) "ppc s = P_begin" "mutex s = None" "s' = s\<lparr>mutex := Some Pool, ppc := P_start 0\<rparr>"
    | (fail) "s' = s\<lparr>pcrash := Some (Exit 1)\<rparr>"
    | (one) j where "ppc s = P_start j" "j < length (plist s)" "s' = s\<lparr>tpcs := (tpcs s)[plist s ! j := T_run], ppc := P_start (j + 1)\<rparr>"
    | (unlock) j where "ppc s = P_start j" "length (plist s) \<le> j" "s' = s\<lparr>mutex := None, ppc := P_dtor\<rparr>"
    using step by (auto simp: pool_start_def thread_start_def pthread_def split: ppc.splits if_splits)
  then show ?thesis
  proof cases
    case lock
    have "mutex_ok s'" by (rule mutex_move [OF i(2)]) (use lock d in \<open>auto simp: pool_in_def yank_in_def\<close>)
    then show ?thesis using lock i(4) by (intro frame_inv [OF inv]) (simp_all add: quiet_ok_def)
  next
    case fail
    have "mutex_ok s'" by (rule mutex_move [OF i(2)]) (use fail d in \<open>auto simp: pool_in_def yank_in_def\<close>)
    then show ?thesis using fail i(1,4) by (intro frame_inv [OF inv]) (auto simp: quiet_ok_def plist_ok_def)
  next
    case one
    have m: "plist s ! j \<in> set (plist s)" "plist s ! j \<notin> set (drop (Suc j) (plist s))"
      using one i(1) by (auto simp: plist_ok_def in_set_conv_nth nth_eq_iff_index_eq)
    have k: "plist s ! j < length (tpcs s)" using m(1) i(1) by (auto simp: plist_ok_def)
    have out: "mutex s = Some Pool" using d(1) one by (simp add: pool_in_def)
    have "\<not> thr_in s' k'" for k' using one d(3) [of k'] out by (cases "plist s ! j = k'") (auto simp: thr_in_def)
    then have mtx: "mutex_ok s'" using one out d(2) by (auto simp: mutex_ok_def pool_in_def yank_in_def)
    show ?thesis
    proof (rule pool_invI)
      show "tpc_ok s' k" if "k < length (tpcs s')" for k
        using one i(3) [of k] that m k by (auto simp: tpc_ok_def nth_list_update Cons_nth_drop_Suc [symmetric])
    qed (use one i mtx in \<open>simp_all add: plist_ok_def quiet_ok_def\<close>)
  next
    case unlock
    have "mutex_ok s'" by (rule mutex_move [OF i(2)]) (use unlock d in \<open>auto simp: pool_in_def yank_in_def\<close>)
    then show ?thesis using unlock i(4) by (intro frame_inv [OF inv]) (auto simp: quiet_ok_def new_done_def)
  qed
qed

lemma dtor_inv:
  assumes inv: "pool_inv s" and step: "pool_dtor s = Some s'"
  shows "pool_inv s'"
proof -
  note i = pool_invD [OF inv] and d = mutex_okD [OF pool_invD(2) [OF inv]]
  consider (lock) "ppc s = P_dtor \<or> ppc s = P_woken" "mutex s = None" "s' = s\<lparr>mutex := Some Pool, ppc := P_test\<rparr>"
    | (empty) "ppc s = P_test" "plist s = []" "s' = s\<lparr>ppc := P_leave\<rparr>"
    | (wait) "ppc s = P_test" "plist s \<noteq> []" "s' = s\<lparr>mutex := None, ppc := P_sleep\<rparr>"
    | (leave) "ppc s = P_leave" "s' = s\<lparr>mutex := None, ppc := P_done\<rparr>"
    using step by (auto simp: pool_dtor_def split: ppc.splits if_splits)
  then have "mutex_ok s'"
    by (cases; intro mutex_move [OF i(2)]) (use d(1,2) in \<open>auto simp: pool_in_def yank_in_def\<close>)
  moreover have "new_done (ppc s) (length (plist s))" "quiet_ok s'" "plist s' = plist s" "tpcs s' = tpcs s" "tfreed s' = tfreed s"
    "in_handler s' = in_handler s" "ppc s' = P_sleep \<longrightarrow> plist s \<noteq> []" "ppc s' \<in> {P_leave, P_done} \<longrightarrow> plist s = []"
    using step i(1,4) by (auto simp: pool_dtor_def new_done_def quiet_ok_def plist_ok_def split: ppc.splits if_splits)
  ultimately show ?thesis by (intro frame_inv [OF inv]) simp_all
qed

lemma emerg_frame:
  assumes "emerg_yank s = Some s'"
  shows "plist s' = plist s" "tpcs s' = tpcs s" "tfreed s' = tfreed s" "in_handler s' = in_handler s" "ppc s' = ppc s"
  using assms by (cases "ypc s"; auto simp: emerg_yank_def split: list.splits if_splits)+

lemma emerg_inv:
  assumes inv: "pool_inv s" and step: "emerg_yank s = Some s'"
  shows "pool_inv s'"
proof -
  note i = pool_invD [OF inv] and d = mutex_okD [OF pool_invD(2) [OF inv]]
  consider (idle) "ypc s = Y_idle" "s' = s\<lparr>ypc := (if sigkill s = -1 then Y_done else Y_lock)\<rparr>"
    | (lock) "ypc s = Y_lock" "mutex s = None" "s' = s\<lparr>mutex := Some Yank, ypc := Y_send (plist s)\<rparr>"
    | (unlock) "ypc s = Y_send []" "s' = s\<lparr>mutex := None, ypc := Y_done\<rparr>"
    | (send) k ks where "ypc s = Y_send (k # ks)" "s' = s\<lparr>sent := k # sent s, ypc := Y_send ks\<rparr>"
    | (crash) "ypc s = Y_lock \<or> (\<exists>ks. ypc s = Y_send ks)" "s' = s\<lparr>pcrash := Some UB\<rparr>"
  proof -
    have "(ypc s = Y_idle \<longrightarrow> s' = s\<lparr>ypc := (if sigkill s = -1 then Y_done else Y_lock)\<rparr>) \<and>
      (ypc s = Y_lock \<longrightarrow> s' = s\<lparr>pcrash := Some UB\<rparr> \<or> mutex s = None \<and> s' = s\<lparr>mutex := Some Yank, ypc := Y_send (plist s)\<rparr>) \<and>
      (ypc s = Y_send [] \<longrightarrow> s' = s\<lparr>mutex := None, ypc := Y_done\<rparr>) \<and>
      (\<forall>k ks. ypc s = Y_send (k # ks) \<longrightarrow> s' = s\<lparr>pcrash := Some UB\<rparr> \<or> s' = s\<lparr>sent := k # sent s, ypc := Y_send ks\<rparr>) \<and> ypc s \<noteq> Y_done"
      using step by (auto simp: emerg_yank_def split: if_splits)
    moreover have "ypc s = Y_idle \<or> ypc s = Y_lock \<or> ypc s = Y_done \<or> ypc s = Y_send [] \<or> (\<exists>k ks. ypc s = Y_send (k # ks))"
      by (metis ypc.exhaust neq_Nil_conv)
    ultimately show ?thesis using that by blast
  qed
  then have mq: "mutex_ok s' \<and> quiet_ok s'"
  proof cases
    case idle
    have "mutex_ok s'" by (rule mutex_move [OF i(2)]) (use idle d(1,2) in \<open>auto simp: pool_in_def yank_in_def\<close>)
    moreover have "quiet_ok s'" using idle i(4) by (auto simp: quiet_ok_def)
    ultimately show ?thesis by simp
  next
    case lock
    have "mutex_ok s'" by (rule mutex_move [OF i(2)]) (use lock d(1,2) in \<open>auto simp: pool_in_def yank_in_def\<close>)
    moreover have "quiet_ok s'" using lock i(1,4) by (auto simp: quiet_ok_def plist_ok_def)
    ultimately show ?thesis by simp
  next
    case unlock
    have "mutex_ok s'" by (rule mutex_move [OF i(2)]) (use unlock d(1,2) in \<open>auto simp: pool_in_def yank_in_def\<close>)
    moreover have "quiet_ok s'" using unlock i(4) by (auto simp: quiet_ok_def)
    ultimately show ?thesis by simp
  next
    case send
    have "mutex_ok s'" by (rule mutex_move [OF i(2)]) (use send d(1,2) in \<open>auto simp: pool_in_def yank_in_def\<close>)
    moreover have "quiet_ok s'" using send i(4) by (auto simp: quiet_ok_def)
    ultimately show ?thesis by simp
  next
    case crash
    have "mutex_ok s'" by (rule mutex_move [OF i(2)]) (use crash(2) d(1,2) in \<open>simp_all add: pool_in_def yank_in_def\<close>)
    moreover have "sigkill s \<noteq> -1" using crash(1) i(4) by (auto simp: quiet_ok_def)
    then have "quiet_ok s'" using crash(2) i(4) by (simp add: quiet_ok_def)
    ultimately show ?thesis by simp
  qed
  note f = emerg_frame [OF step]
  show ?thesis using mq i(1) f by (intro frame_inv [OF inv]) (auto simp: plist_ok_def)
qed

text \<open>A step of a thread.\<close>

lemma tpc_mutex:
  assumes ok: "mutex_ok s" and k: "k < length (tpcs s)" and new: "tpcs s' = (tpcs s)[k := p]"
    and same: "pool_in s' = pool_in s" "yank_in s' = yank_in s" "in_handler s' = in_handler s"
    and m: "p \<in> {T_in, T_out} \<and> mutex s' = Some (Thr k) \<and> (mutex s = None \<or> thr_in s k) \<or>
      p \<notin> {T_in, T_out} \<and> (thr_in s k \<and> mutex s' = None \<or> \<not> thr_in s k \<and> \<not> waits_for_itself s k \<and> mutex s' = mutex s)"
  shows "mutex_ok s'"
proof -
  note d = mutex_okD [OF ok]
  have t: "thr_in s' j \<longleftrightarrow> (if j = k then p \<in> {T_in, T_out} else thr_in s j)" for j using k by (auto simp: thr_in_def new)
  have w: "waits_for_itself s' j \<longleftrightarrow> waits_for_itself s j" if "j \<noteq> k" "mutex s' = mutex s" for j
    using that same by (simp add: waits_for_itself_def new)
  from m consider (inside) "p \<in> {T_in, T_out}" "mutex s' = Some (Thr k)" "mutex s = None \<or> mutex s = Some (Thr k)"
    | (out) "p \<notin> {T_in, T_out}" "mutex s = Some (Thr k)" "mutex s' = None"
    | (apart) "p \<notin> {T_in, T_out}" "\<not> thr_in s k" "\<not> waits_for_itself s k" "mutex s' = mutex s" using d(3) [of k] by metis
  then show ?thesis
  proof cases
    case inside
    have "\<not> thr_in s j" if "j \<noteq> k" for j using d(3) [of j] inside(3) that by auto
    then show ?thesis using inside d(1,2) same by (auto simp: mutex_ok_def t)
  next
    case out
    have "\<not> thr_in s j" if "j \<noteq> k" for j using d(3) [of j] out(2) that by auto
    then show ?thesis using out d(1,2) same by (auto simp: mutex_ok_def t)
  next
    case apart
    have "thr_in s' j \<or> waits_for_itself s' j" if "mutex s' = Some (Thr j)" for j
      using d(4) [of j] apart w [of j] that t [of j] by (cases "j = k") auto
    moreover have "mutex s' = Some (Thr j)" if "thr_in s' j" for j using d(3) [of j] that apart t [of j] by (auto split: if_splits)
    ultimately show ?thesis using apart(4) d(1,2) same by (simp add: mutex_ok_def)
  qed
qed

lemma tpc_thread:
  assumes inv: "pool_inv s" and k: "k < length (tpcs s)" and new: "tpcs s' = (tpcs s)[k := p]"
    and same: "plist s' = plist s" "in_handler s' = in_handler s" "ppc s' = ppc s" and p: "p \<noteq> T_new" "p \<noteq> T_run"
    and mine: "k \<in> set (plist s) \<longrightarrow> p \<in> {T_lock, T_in}" "p \<in> {T_lock, T_in} \<longrightarrow> k \<in> set (plist s) \<or> k \<in> set (in_handler s)"
    and j: "j < length (tpcs s')"
  shows "tpc_ok s' j"
proof (cases "j = k")
  case True
  then show ?thesis using k p mine unfolding tpc_ok_def same new by auto
next
  case False
  then show ?thesis using pool_invD(3) [OF inv, of j] j unfolding tpc_ok_def same new by simp
qed

lemma remove_thread:
  assumes inv: "pool_inv s" and k: "k < length (tpcs s)" and pc: "tpcs s ! k = T_in"
  shows "pool_inv (set_tpc k T_out (pool_remove k s))"
proof -
  note i = pool_invD [OF inv] and d = mutex_okD [OF pool_invD(2) [OF inv]]
  let ?s = "set_tpc k T_out (pool_remove k s)"
  have inside: "thr_in s k" using k pc by (simp add: thr_in_def)
  have m: "mutex s = Some (Thr k)" by (rule d(3) [OF inside])
  have out: "\<not> pool_in s" using d(1) m by simp
  have other: "pool_in ?s = pool_in s" "yank_in ?s = yank_in s"
    by (auto simp: pool_in_def yank_in_def set_tpc_def pool_remove_def Let_def)
  have f: "mutex ?s = mutex s" "in_handler ?s = in_handler s" "tpcs ?s = (tpcs s)[k := T_out]" "plist ?s = removeAll k (plist s)"
    "tfreed ?s = (if k \<in> set (plist s) then k # tfreed s else tfreed s)" "sent ?s = sent s" "ypc ?s = ypc s" "sigkill ?s = sigkill s"
    "pcrash ?s = pcrash s"
    by (simp_all add: set_tpc_def pool_remove_def Let_def)
  have p: "ppc ?s = (if k \<in> set (plist s) \<and> removeAll k (plist s) = [] \<and> ppc s = P_sleep then P_woken else ppc s)"
    by (simp add: set_tpc_def pool_remove_def Let_def)
  show ?thesis
  proof (rule pool_invI)
    have gone: "plist s \<noteq> []" if "ppc s = P_sleep" using i(1) that by (simp add: plist_ok_def)
    have none: "plist s = []" if "ppc s = P_done \<or> ppc s = P_leave" using i(1) that by (auto simp: plist_ok_def)
    have "removeAll k (plist s) \<noteq> []" if "k \<notin> set (plist s)" "ppc s = P_sleep" using gone that by simp
    then show "plist_ok ?s" using i(1) k none unfolding plist_ok_def f p by (auto simp: distinct_removeAll)
    show "mutex_ok ?s" by (rule tpc_mutex [OF i(2) k f(3) other f(2)]) (simp add: f m inside)
    show "quiet_ok ?s" using i(4) by (simp add: quiet_ok_def f)
    show "tpc_ok ?s j" if j: "j < length (tpcs ?s)" for j
    proof (cases "j = k")
      case True
      then show ?thesis using k unfolding tpc_ok_def f by simp
    next
      case False
      have "ppc s \<noteq> P_start x" for x using out by (auto simp: pool_in_def)
      then show ?thesis using i(3) [of j] j False unfolding tpc_ok_def f p by (auto split: ppc.splits)
    qed
  qed
qed

lemma op_inv:
  assumes inv: "pool_inv s" and k: "k < length (tpcs s)" and step: "pool_op k s = Some s'"
  shows "pool_inv s'"
proof -
  note i = pool_invD [OF inv] and d = mutex_okD [OF pool_invD(2) [OF inv]]
  note ok = i(3) [OF k]
  consider (crash) "tpcs s ! k = T_lock" "ppc s = P_done" "s' = s\<lparr>pcrash := Some UB\<rparr>"
    | (run) "tpcs s ! k = T_run" "s' = set_tpc k T_lock s"
    | (lock) "tpcs s ! k = T_lock" "mutex s = None" "s' = set_tpc k T_in (s\<lparr>mutex := Some (Thr k)\<rparr>)"
    | (remove) "tpcs s ! k = T_in" "s' = set_tpc k T_out (pool_remove k s)"
    | (unlock) "tpcs s ! k = T_out" "s' = set_tpc k T_left (s\<lparr>mutex := None\<rparr>)"
    | (exit) "tpcs s ! k = T_left" "s' = set_tpc k T_gone s"
    using step by (cases "tpcs s ! k") (auto simp: pool_op_def split: if_splits)
  then show ?thesis
  proof cases
    case crash
    have "mutex_ok s'" by (rule mutex_move [OF i(2)]) (use crash(3) d(1,2) in \<open>simp_all add: pool_in_def yank_in_def\<close>)
    moreover have "sigkill s \<noteq> -1"
      using ok i(1,4) crash(1,2) by (auto simp: tpc_ok_def plist_ok_def quiet_ok_def)
    then have "quiet_ok s'" using i(4) crash(3) by (simp add: quiet_ok_def)
    ultimately show ?thesis using crash i(1) by (intro frame_inv [OF inv]) (simp_all add: plist_ok_def)
  next
    case run
    show ?thesis
    proof (rule pool_invI)
      show "mutex_ok s'"
        by (rule tpc_mutex [OF i(2) k]) (use run in \<open>auto simp: set_tpc_def pool_in_def yank_in_def thr_in_def waits_for_itself_def\<close>)
      show "tpc_ok s' j" if "j < length (tpcs s')" for j
        by (rule tpc_thread [OF inv k _ _ _ _ _ _ _ _ that]) (use run ok in \<open>auto simp: set_tpc_def tpc_ok_def\<close>)
    qed (use run i(1,4) in \<open>simp_all add: plist_ok_def quiet_ok_def set_tpc_def\<close>)
  next
    case lock
    show ?thesis
    proof (rule pool_invI)
      show "mutex_ok s'" by (rule tpc_mutex [OF i(2) k]) (use lock in \<open>auto simp: set_tpc_def pool_in_def yank_in_def\<close>)
      show "tpc_ok s' j" if "j < length (tpcs s')" for j
        by (rule tpc_thread [OF inv k _ _ _ _ _ _ _ _ that]) (use lock ok in \<open>auto simp: set_tpc_def tpc_ok_def\<close>)
    qed (use lock i(1,4) in \<open>simp_all add: plist_ok_def quiet_ok_def set_tpc_def\<close>)
  next
    case remove
    then show ?thesis using remove_thread [OF inv k] by simp
  next
    case unlock
    have inside: "thr_in s k" using unlock(1) k by (simp add: thr_in_def)
    show ?thesis
    proof (rule pool_invI)
      show "mutex_ok s'" by (rule tpc_mutex [OF i(2) k]) (use unlock inside in \<open>auto simp: set_tpc_def pool_in_def yank_in_def\<close>)
      show "tpc_ok s' j" if "j < length (tpcs s')" for j
        by (rule tpc_thread [OF inv k _ _ _ _ _ _ _ _ that]) (use unlock ok in \<open>auto simp: set_tpc_def tpc_ok_def\<close>)
    qed (use unlock i(1,4) in \<open>simp_all add: plist_ok_def quiet_ok_def set_tpc_def\<close>)
  next
    case exit
    show ?thesis
    proof (rule pool_invI)
      show "mutex_ok s'"
        by (rule tpc_mutex [OF i(2) k]) (use exit in \<open>auto simp: set_tpc_def pool_in_def yank_in_def thr_in_def waits_for_itself_def\<close>)
      show "tpc_ok s' j" if "j < length (tpcs s')" for j
        by (rule tpc_thread [OF inv k _ _ _ _ _ _ _ _ that]) (use exit ok in \<open>auto simp: set_tpc_def tpc_ok_def\<close>)
    qed (use exit i(1,4) in \<open>simp_all add: plist_ok_def quiet_ok_def set_tpc_def\<close>)
  qed
qed

lemma interrupt_inv:
  assumes inv: "pool_inv s" and step: "pthread_exit_wrapper k s = Some s'"
  shows "pool_inv s'"
proof -
  note i = pool_invD [OF inv] and d = mutex_okD [OF pool_invD(2) [OF inv]]
  have pend: "k \<in> set (sent s)" using step by (simp add: pthread_exit_wrapper_def split: if_splits)
  then have k: "k < length (tpcs s)" and sk: "sigkill s \<noteq> -1" using i(4) by (auto simp: quiet_ok_def)
  have sub: "set (remove1 k (sent s)) \<subseteq> {..<length (tpcs s)}"
    using i(4) set_remove1_subset [of k "sent s"] unfolding quiet_ok_def by blast
  show ?thesis
  proof (cases "tpcs s ! k = T_gone")
    case True
    then have s': "s' = s\<lparr>sent := remove1 k (sent s)\<rparr>" using step pend by (simp add: pthread_exit_wrapper_def)
    have "mutex_ok s'" by (rule mutex_move [OF i(2)]) (use s' d(1,2) in \<open>simp_all add: pool_in_def yank_in_def\<close>)
    moreover have "quiet_ok s'" using i(4) sub sk by (simp add: s' quiet_ok_def)
    ultimately show ?thesis using s' i(1) by (intro frame_inv [OF inv]) (simp_all add: plist_ok_def)
  next
    case False
    let ?s = "s\<lparr>sent := remove1 k (sent s), in_handler := k # in_handler s, tpcs := (tpcs s)[k := T_lock]\<rparr>"
    have s': "s' = ?s" using step pend False by (auto simp: pthread_exit_wrapper_def set_tpc_def)
    have f: "plist ?s = plist s" "ppc ?s = ppc s" "tpcs ?s = (tpcs s)[k := T_lock]" "in_handler ?s = k # in_handler s" by simp_all
    have t: "thr_in ?s j \<longleftrightarrow> thr_in s j \<and> j \<noteq> k" for j using k by (auto simp: thr_in_def nth_list_update)
    have w: "waits_for_itself ?s j \<longleftrightarrow> mutex s = Some (Thr j) \<and> (j = k \<or> waits_for_itself s j)" for j
      using k by (auto simp: waits_for_itself_def nth_list_update)
    have "mutex_ok ?s" using i(2) unfolding mutex_ok_def t w by (auto simp: pool_in_def yank_in_def)
    moreover have "tpc_ok ?s j" if "j < length (tpcs s)" for j
      using i(3) [OF that] k unfolding tpc_ok_def f by (cases "j = k") auto
    ultimately show ?thesis using i(1,4) sub sk unfolding s' by (intro pool_invI) (simp_all add: plist_ok_def quiet_ok_def)
  qed
qed

lemma move_inv:
  assumes inv: "pool_inv s" and no: "pcrash s = None" and step: "pool_move m s = Some s'"
  shows "pool_inv s'"
proof (cases m)
  case (Start e)
  then show ?thesis using start_inv [OF inv _ no] step by simp
next
  case Dtor
  then show ?thesis using dtor_inv [OF inv] step by simp
next
  case (Thread k)
  then show ?thesis using op_inv [OF inv] step by (simp split: if_splits)
next
  case Emerg
  then show ?thesis using emerg_inv [OF inv] step by simp
next
  case (Interrupt k)
  then show ?thesis using interrupt_inv [OF inv] step by simp
next
  case Spurious
  note i = pool_invD [OF inv] and d = mutex_okD [OF pool_invD(2) [OF inv]]
  have s': "ppc s = P_sleep" "s' = s\<lparr>ppc := P_woken\<rparr>" using Spurious step by (auto split: if_splits)
  have "mutex_ok s'" by (rule mutex_move [OF i(2)]) (use s' d(1,2) in \<open>simp_all add: pool_in_def yank_in_def\<close>)
  then show ?thesis using s' i(4) by (intro frame_inv [OF inv]) (simp_all add: new_done_def quiet_ok_def)
qed

section \<open>The steps run out\<close>

fun tload :: "tpc \<Rightarrow> nat" where
  "tload T_new = 12" | "tload T_run = 11" | "tload T_lock = 10" | "tload T_in = 9" | "tload T_out = 2" | "tload T_left = 1"
| "tload T_gone = 0"

fun pload :: "ppc \<Rightarrow> nat \<Rightarrow> nat" where
  "pload P_begin n = 2 * n + 8" | "pload (P_start i) n = 2 * (n - i) + 7" | "pload P_dtor n = 5" | "pload P_test n = 2"
| "pload P_sleep n = 1" | "pload P_woken n = 3" | "pload P_leave n = 1" | "pload P_done n = 0"

fun yload :: "ypc \<Rightarrow> nat \<Rightarrow> nat" where
  "yload Y_idle n = 14 * n + 3" | "yload Y_lock n = 14 * n + 2" | "yload (Y_send ks) n = 13 * length ks + 1" | "yload Y_done n = 0"

definition pool_load :: "tpool \<Rightarrow> nat" where
  "pool_load s = sum_list (map tload (tpcs s)) + pload (ppc s) (length (plist s)) + yload (ypc s) (length (plist s)) +
     12 * length (sent s) + (if pcrash s = None then 1 else 0)"

lemma tload_swap: "k < length ts \<Longrightarrow> sum_list (map tload (ts[k := p])) + tload (ts ! k) = sum_list (map tload ts) + tload p"
  by (rule sum_map_swap)

lemma pload_mono: "m \<le> n \<Longrightarrow> pload p m \<le> pload p n"
  by (cases p) auto

lemma yload_mono: "m \<le> n \<Longrightarrow> yload y m \<le> yload y n"
  by (cases y) auto

lemma start_load:
  assumes inv: "pool_inv s" and no: "pcrash s = None" and step: "pool_start e s = Some s'"
  shows "pool_load s' < pool_load s"
proof -
  note i = pool_invD [OF inv] and d = mutex_okD [OF pool_invD(2) [OF inv]]
  show ?thesis
  proof (cases "\<exists>j. ppc s = P_start j \<and> j < length (plist s) \<and> e = 0")
    case True
    then obtain j where j: "ppc s = P_start j" "j < length (plist s)" "e = 0" by blast
    let ?k = "plist s ! j"
    have m: "?k \<in> set (plist s)" using j by simp
    have k: "?k < length (tpcs s)" using m i(1) by (auto simp: plist_ok_def)
    have "mutex s = Some Pool" using d(1) j by (simp add: pool_in_def)
    then have "tpcs s ! ?k \<noteq> T_in" using d(3) [of ?k] k by (auto simp: thr_in_def)
    then have "10 \<le> tload (tpcs s ! ?k)" using i(3) [OF k] m by (auto simp: tpc_ok_def)
    then show ?thesis using step j no tload_swap [OF k, of T_run]
      by (auto simp: pool_start_def thread_start_def pthread_def pool_load_def)
  next
    case False
    then show ?thesis using step no by (auto simp: pool_start_def thread_start_def pthread_def pool_load_def split: ppc.splits if_splits)
  qed
qed

lemma dtor_load: "pool_dtor s = Some s' \<Longrightarrow> pool_load s' < pool_load s"
  by (cases "ppc s") (auto simp: pool_dtor_def pool_load_def split: if_splits)

lemma op_load:
  assumes k: "k < length (tpcs s)" and no: "pcrash s = None" and step: "pool_op k s = Some s'"
  shows "pool_load s' < pool_load s"
proof (cases "tpcs s ! k = T_in")
  case True
  let ?l = "removeAll k (plist s)"
  have "length ?l \<le> length (plist s)" by (rule length_removeAll_less_eq)
  then have "pload (ppc s) (length ?l) \<le> pload (ppc s) (length (plist s))" "yload (ypc s) (length ?l) \<le> yload (ypc s) (length (plist s))"
    by (simp_all add: pload_mono yload_mono)
  moreover have "s' = set_tpc k T_out (pool_remove k s)" using step True by (simp add: pool_op_def)
  ultimately show ?thesis using tload_swap [OF k, of T_out] True no
    by (auto simp: pool_load_def set_tpc_def pool_remove_def Let_def)
next
  case False
  then show ?thesis using step no tload_swap [OF k, of T_lock] tload_swap [OF k, of T_in] tload_swap [OF k, of T_left] tload_swap [OF k, of T_gone]
    by (cases "tpcs s ! k") (auto simp: pool_op_def pool_load_def set_tpc_def split: if_splits)
qed

lemma emerg_load: "emerg_yank s = Some s' \<Longrightarrow> pcrash s = None \<Longrightarrow> pool_load s' < pool_load s"
  by (cases "ypc s") (auto simp: emerg_yank_def pool_load_def split: if_splits list.splits)

lemma interrupt_load:
  assumes inv: "pool_inv s" and step: "pthread_exit_wrapper k s = Some s'"
  shows "pool_load s' < pool_load s"
proof -
  have pend: "k \<in> set (sent s)" using step by (simp add: pthread_exit_wrapper_def split: if_splits)
  then have k: "k < length (tpcs s)" using pool_invD(4) [OF inv] by (auto simp: quiet_ok_def)
  have "length (sent s) = Suc (length (remove1 k (sent s)))"
    using pend length_pos_if_in_set [OF pend] by (simp add: length_remove1)
  moreover have "1 \<le> tload (tpcs s ! k) \<or> tpcs s ! k = T_gone" by (cases "tpcs s ! k") simp_all
  ultimately show ?thesis using step pend tload_swap [OF k, of T_lock]
    by (auto simp: pthread_exit_wrapper_def pool_load_def set_tpc_def split: if_splits)
qed

lemma move_load:
  assumes inv: "pool_inv s" and no: "pcrash s = None" and step: "pool_move m s = Some s'"
  shows "pool_load s' < pool_load s + (if m = Spurious then 3 else 0)"
proof (cases m)
  case (Start e)
  then show ?thesis using start_load [OF inv no] step by simp
next
  case Dtor
  then show ?thesis using dtor_load step by simp
next
  case (Thread k)
  then show ?thesis using op_load [OF _ no] step by (simp split: if_splits)
next
  case Emerg
  then show ?thesis using emerg_load [OF _ no] step by simp
next
  case (Interrupt k)
  then show ?thesis using interrupt_load [OF inv] step by simp
next
  case Spurious
  then show ?thesis using step by (auto simp: pool_load_def split: if_splits)
qed

lemma move_length:
  assumes "pool_move m s = Some s'"
  shows "length (tpcs s') = length (tpcs s) \<and> sigkill s' = sigkill s"
proof (cases m)
  case (Start e)
  then show ?thesis using assms by (cases "ppc s") (auto simp: pool_start_def split: if_splits sum.splits)
next
  case Dtor
  then show ?thesis using assms by (cases "ppc s") (auto simp: pool_dtor_def split: if_splits)
next
  case (Thread k)
  then show ?thesis using assms
    by (cases "tpcs s ! k") (auto simp: pool_op_def set_tpc_def pool_remove_def Let_def split: if_splits)
next
  case Emerg
  then show ?thesis using assms by (cases "ypc s") (auto simp: emerg_yank_def split: if_splits list.splits)
next
  case (Interrupt k)
  then show ?thesis using assms by (auto simp: pthread_exit_wrapper_def set_tpc_def split: if_splits)
next
  case Spurious
  then show ?thesis using assms by (auto split: if_splits)
qed

lemma moves_inv:
  assumes "pool_moves ms s = Some s'" and "pool_inv s"
  shows "pool_inv s' \<and> length ms + pool_load s' \<le> pool_load s + 3 * count_list ms Spurious \<and>
    length (tpcs s') = length (tpcs s) \<and> sigkill s' = sigkill s"
  using assms
proof (induction ms arbitrary: s)
  case (Cons m ms)
  then obtain t where t: "pcrash s = None" "pool_move m s = Some t" "pool_moves ms t = Some s'"
    by (auto split: if_splits bind_splits)
  have "length (tpcs t) = length (tpcs s) \<and> sigkill t = sigkill s" using move_length [OF t(2)] .
  then show ?case using Cons.IH [OF t(3) move_inv [OF Cons.prems(2) t(1,2)]] move_load [OF Cons.prems(2) t(1,2)] by (auto split: if_splits)
qed simp

section \<open>Where it can stop\<close>

lemma stuck_end:
  assumes inv: "pool_inv s" and stuck: "\<And>m. m \<noteq> Spurious \<Longrightarrow> pool_move m s = None"
  shows "ppc s = P_done \<and> tpcs s = replicate (length (tpcs s)) T_gone \<or> (\<exists>k. waits_for_itself s k)"
proof (rule disjCI)
  assume no: "\<nexists>k. waits_for_itself s k"
  note i = pool_invD [OF inv] and d = mutex_okD [OF pool_invD(2) [OF inv]]
  have start: "pool_start 0 s = None" and dtor: "pool_dtor s = None" and emerg: "emerg_yank s = None"
    using stuck [of "Start 0"] stuck [of Dtor] stuck [of Emerg] by simp_all
  have op: "pool_op k s = None" if "k < length (tpcs s)" for k using stuck [of "Thread k"] that by simp
  have "\<not> pool_in s" using start dtor by (cases "ppc s") (auto simp: pool_in_def pool_start_def pool_dtor_def split: if_splits sum.splits)
  moreover have "\<not> yank_in s" using emerg by (cases "ypc s") (auto simp: yank_in_def emerg_yank_def split: if_splits list.splits)
  moreover have out: "\<not> thr_in s k" for k using op [of k] by (auto simp: thr_in_def pool_op_def)
  ultimately have m: "mutex s = None" using d no by (cases "mutex s") (metis who.exhaust)+
  have pc: "ppc s = P_sleep \<or> ppc s = P_done"
    using start dtor m by (cases "ppc s") (auto simp: pool_start_def pool_dtor_def split: if_splits sum.splits)
  have gone: "tpcs s ! k = T_gone" if k: "k < length (tpcs s)" for k
  proof (cases "tpcs s ! k")
    case T_new
    then show ?thesis using i(3) [OF k] pc by (auto simp: tpc_ok_def)
  qed (use op [OF k] m in \<open>simp_all add: pool_op_def split: if_splits\<close>)
  have "set (plist s) = {}"
  proof (rule ccontr)
    assume "set (plist s) \<noteq> {}"
    then obtain k where k: "k \<in> set (plist s)" by (meson ex_in_conv)
    then have "k < length (tpcs s)" using i(1) by (auto simp: plist_ok_def)
    then show False using i(3) [of k] gone k by (simp add: tpc_ok_def)
  qed
  then have "ppc s = P_done" using pc i(1) by (auto simp: plist_ok_def)
  then show "ppc s = P_done \<and> tpcs s = replicate (length (tpcs s)) T_gone" using gone by (simp add: list_eq_iff_nth_eq)
qed

lemma pool_joined:
  assumes new: "tpool_new n sk = Inr s0" and run: "pool_moves ms s0 = Some s" and over: "ppc s = P_done" and k: "k < n"
  shows "tpcs s ! k \<notin> {T_new, T_run}"
proof -
  have inv: "pool_inv s" and len: "length (tpcs s) = n" using moves_inv [OF run] tpool_new_inv [OF new] by auto
  have "plist s = []" using pool_invD(1) [OF inv] over by (simp add: plist_ok_def)
  then show ?thesis using pool_invD(3) [OF inv, of k] len k by (auto simp: tpc_ok_def)
qed

text \<open>C16. The thread pool. For any number of threads, whatever their bodies do and however long they take, every
  run is finite but for spurious wakeups. When the destructor returns, no thread is in its body or still to
  start, and the objects of every thread have been deleted exactly once. A run can only stop there, with every
  thread gone, or in the one deadlock there is: the emergency signal has interrupted a thread while it held the
  pool's mutex. Without the emergency neither that nor undefined behaviour happens, and the process ends early
  only when a thread cannot be created.\<close>

theorem thread_pool_joins:
  assumes new: "tpool_new n sk = Inr s0" and run: "pool_moves ms s0 = Some s"
  shows "length ms \<le> 28 * n + 12 + 3 * count_list ms Spurious \<and>
    (ppc s = P_done \<longrightarrow> distinct (tfreed s) \<and> set (tfreed s) = {..<n} \<and> (\<forall>k < n. tpcs s ! k \<notin> {T_new, T_run})) \<and>
    ((\<forall>m. m \<noteq> Spurious \<longrightarrow> pool_move m s = None) \<longrightarrow>
       ppc s = P_done \<and> tpcs s = replicate n T_gone \<or> (\<exists>k. waits_for_itself s k)) \<and>
    (sk = -1 \<longrightarrow> pcrash s \<in> {None, Some (Exit 1)} \<and> \<not> (\<exists>k. waits_for_itself s k))"
proof -
  note n = tpool_new_inv [OF new]
  have inv: "pool_inv s" and len: "length (tpcs s) = n" and sk: "sigkill s = sk"
    and load: "length ms + pool_load s \<le> pool_load s0 + 3 * count_list ms Spurious"
    using moves_inv [OF run] n by auto
  note i = pool_invD [OF inv]
  have "pool_load s0 = 28 * n + 12" using new by (auto simp: tpool_new_def pool_load_def sum_list_replicate map_replicate split: if_splits)
  then have bound: "length ms \<le> 28 * n + 12 + 3 * count_list ms Spurious" using load by simp
  have deleted: "distinct (tfreed s) \<and> set (tfreed s) = {..<n} \<and> (\<forall>k < n. tpcs s ! k \<notin> {T_new, T_run})" if "ppc s = P_done"
  proof -
    have "plist s = []" using i(1) that by (simp add: plist_ok_def)
    then show ?thesis using i(1) len pool_joined [OF new run that] by (simp add: plist_ok_def)
  qed
  have "\<not> waits_for_itself s k" if "sk = -1" for k using i(4) sk that by (simp add: quiet_ok_def waits_for_itself_def)
  moreover have "pcrash s \<in> {None, Some (Exit 1)}" if "sk = -1" using i(4) sk that by (simp add: quiet_ok_def)
  ultimately show ?thesis using bound deleted stuck_end [OF inv] len by simp
qed

text \<open>Two threads without the emergency; the destructor sleeps once and wakes by itself once.\<close>

definition joined :: "pmove list" where
  "joined = [Start 0, Start 0, Start 0, Start 0, Dtor, Dtor, Thread 1, Thread 1, Thread 1, Thread 1, Spurious, Dtor, Dtor,
    Thread 0, Thread 0, Thread 0, Thread 0, Thread 0, Dtor, Dtor, Dtor, Thread 1, Emerg]"

lemma thread_pool_joins_witness:
  "\<exists>s0 s. tpool_new 2 (-1) = Inr s0 \<and> pool_moves joined s0 = Some s \<and> ppc s = P_done \<and> tpcs s = [T_gone, T_gone] \<and>
    (length joined \<le> 28 * 2 + 12 + 3 * count_list joined Spurious \<and>
    (ppc s = P_done \<longrightarrow> distinct (tfreed s) \<and> set (tfreed s) = {..<2} \<and> (\<forall>k < 2. tpcs s ! k \<notin> {T_new, T_run})) \<and>
    ((\<forall>m. m \<noteq> Spurious \<longrightarrow> pool_move m s = None) \<longrightarrow>
       ppc s = P_done \<and> tpcs s = replicate 2 T_gone \<or> (\<exists>k. waits_for_itself s k)) \<and>
    (-1 = (-1 :: int) \<longrightarrow> pcrash s \<in> {None, Some (Exit 1)} \<and> \<not> (\<exists>k. waits_for_itself s k)))"
proof -
  obtain s0 where s0: "tpool_new 2 (-1) = Inr s0" by (simp add: tpool_new_def)
  have "(case tpool_new 2 (-1) of Inl _ \<Rightarrow> None | Inr s0 \<Rightarrow> map_option (\<lambda>s. (ppc s, tpcs s)) (pool_moves joined s0)) =
    Some (P_done, [T_gone, T_gone])" by code_simp
  then obtain s where s: "pool_moves joined s0 = Some s" "ppc s = P_done" "tpcs s = [T_gone, T_gone]" by (auto simp: s0)
  show ?thesis using s0 s thread_pool_joins [OF s0 s(1)] by blast
qed

definition yanked :: "pmove list" where
  "yanked = [Start 0, Start 0, Start 0, Dtor, Dtor, Emerg, Emerg, Emerg, Emerg, Thread 0, Thread 0, Interrupt 0]"

text \<open>The emergency: a thread that has got through its body is interrupted while it has the mutex, and waits for
  itself; or the signal goes to a thread that does not exist yet, because the thread that handles signals is
  started before the pool.\<close>

lemma yank_deadlock:
  "\<exists>s0 s. tpool_new 1 12 = Inr s0 \<and> pool_moves yanked s0 = Some s \<and>
    waits_for_itself s 0 \<and> (\<forall>m. m \<noteq> Spurious \<longrightarrow> pool_move m s = None)"
proof -
  obtain s0 where s0: "tpool_new 1 12 = Inr s0" by (simp add: tpool_new_def valid_sig_def)
  have "(case tpool_new 1 12 of Inl _ \<Rightarrow> None | Inr s0 \<Rightarrow> map_option (\<lambda>s. (ppc s, tpcs s, ypc s, mutex s, sent s, in_handler s)) (pool_moves yanked s0)) =
    Some (P_sleep, [T_lock], Y_done, Some (Thr 0), [], [0])" by code_simp
  then obtain s where s: "pool_moves yanked s0 = Some s"
    "ppc s = P_sleep" "tpcs s = [T_lock]" "ypc s = Y_done" "mutex s = Some (Thr 0)" "sent s = []" "in_handler s = [0]" using s0 by auto
  have "pool_move m s = None" if "m \<noteq> Spurious" for m
    using that s by (cases m) (simp_all add: pool_start_def pool_dtor_def pool_op_def emerg_yank_def pthread_exit_wrapper_def)
  then show ?thesis using s0 s by (auto simp: waits_for_itself_def)
qed

lemma yank_before_start:
  "\<exists>s0 s. tpool_new 1 12 = Inr s0 \<and> pool_moves [Emerg, Emerg, Emerg] s0 = Some s \<and> pcrash s = Some UB"
  by (simp add: tpool_new_def valid_sig_def emerg_yank_def)

end
