(* ===== verification/Turn_End.thy ===== *)
theory Turn_End
  imports Scheduler_Runs
begin

text \<open>
  What a turn of the server leaves: every descriptor that is open was open before the turn or is polled, and every
  work that lives is in the map or in the middle of its deletion. So, once the workers have retired, the
  destructor of the map has hold of everything.
\<close>

definition clean :: "fd list \<Rightarrow> sched \<Rightarrow> bool" where
  "clean D s \<longleftrightarrow> crash s = None \<longrightarrow>
     set (opens s) \<subseteq> set D \<union> fst ` set (epoll s) \<and>
     (\<forall>a. objs s a \<noteq> None \<longrightarrow> a \<in> snd ` set (works s) \<or> a \<in># by_workers closing s + by_workers freeing s)"

lemma cleanI:
  assumes "\<And>d. crash s = None \<Longrightarrow> d \<in> set (opens s) \<Longrightarrow> d \<notin> set D \<Longrightarrow> d \<in> fst ` set (epoll s)"
    and "\<And>a. crash s = None \<Longrightarrow> objs s a \<noteq> None \<Longrightarrow> a \<notin> snd ` set (works s) \<Longrightarrow> a \<in># by_workers closing s + by_workers freeing s"
  shows "clean D s"
  using assms unfolding clean_def by blast

lemma cleanD:
  assumes "clean D s" and "crash s = None"
  shows "d \<in> set (opens s) \<Longrightarrow> d \<notin> set D \<Longrightarrow> d \<in> fst ` set (epoll s)"
    and "objs s a \<noteq> None \<Longrightarrow> a \<notin> snd ` set (works s) \<Longrightarrow> a \<in># by_workers closing s + by_workers freeing s"
  using assms unfolding clean_def by blast+

text \<open>Nothing that matters changes.\<close>

lemma clean_same:
  assumes "clean D s" and "crash s = None" and "opens s' = opens s" "map fst (epoll s') = map fst (epoll s)" "works s' = works s"
    and "\<And>a. objs s' a = None \<longleftrightarrow> objs s a = None"
    and "by_workers closing s' + by_workers freeing s' = by_workers closing s + by_workers freeing s"
  shows "clean D s'"
proof (rule cleanI)
  note c = cleanD [OF assms(1,2)]
  have e: "fst ` set (epoll s') = fst ` set (epoll s)" using assms(4) by (metis set_map)
  show "d \<in> fst ` set (epoll s')" if "d \<in> set (opens s')" "d \<notin> set D" for d using c(1) that assms(3) e by simp
  show "a \<in># by_workers closing s' + by_workers freeing s'" if "objs s' a \<noteq> None" "a \<notin> snd ` set (works s')" for a
    using c(2) [of a] that assms(5,6,7) by simp
qed

lemma opens_frame: "fwork s' = fwork s \<Longrightarrow> opens s' = opens s \<and> works s' = works s \<and> objs s' = objs s"
  by simp

lemma by_workers_same: "wpcs s' = wpcs s \<Longrightarrow> by_workers f s' = by_workers f s"
  by (simp add: by_workers_def)

text \<open>A new connection is in the map and polled.\<close>

lemma accept_adds:
  assumes "c \<notin> fst ` set (works s)" and "c \<notin> fst ` set (epoll s)"
  obtains s' a w r where "acceptcb (Conn c) s = (None, s')" and "epoll s' = (c, r) # epoll s"
    and "wpcs s' = wpcs s" and "crash s' = crash s" and "fdcbs s' = fdcbs s"
    and "opens s' = c # opens s" and "works s' = (c, a) # works s" and "objs s' = (objs s)(a \<mapsto> w)"
proof -
  have "map_of (works s) c = None" "map_of (epoll s) c = None" using assms by (simp_all add: map_of_eq_None_iff)
  then show ?thesis
    by (intro that [of "snd (acceptcb (Conn c) s)" "\<lparr>emode = mode_read, oneshot = True, armed = True\<rparr>" "heap_next (wpool (fwork s))" "server_work c mode_read"])
      (simp_all add: acceptcb_def find_work_def fw_find_def pre_new_def no_store_def sch_schedule_def epoll_add_def Let_def server_work_def work_new_def)
qed

lemma accept_clean:
  assumes clean: "clean D s" and no: "crash s = None" and inv: "sch_inv l s" and c: "\<forall>c. x = Conn c \<longrightarrow> c \<notin> set (opens s)"
  shows "clean D (thrown_or (next_event r) (acceptcb x s)) \<and> fdcbs (thrown_or (next_event r) (acceptcb x s)) = fdcbs s"
proof (cases x)
  case (Conn c)
  note D = own_okD [OF inv [unfolded sch_inv_def]] and dat = data_okD [OF own_okD(1) [OF inv [unfolded sch_inv_def]]]
  have new: "c \<notin> set (opens s)" using assms(4) Conn by simp
  then have w: "c \<notin> fst ` set (works s)" using dat(4) by blast
  have e: "c \<notin> fst ` set (epoll s)" using D(11) w new D(6) by auto
  obtain s' a w' r' where s': "acceptcb (Conn c) s = (None, s')" and f: "epoll s' = (c, r') # epoll s" "wpcs s' = wpcs s"
      "crash s' = crash s" "fdcbs s' = fdcbs s"
    and g: "opens s' = c # opens s" "works s' = (c, a) # works s" "objs s' = (objs s)(a \<mapsto> w')"
    using accept_adds [OF w e] by metis
  have n: "fwork (next_event r s') = fwork s'" "epoll (next_event r s') = epoll s'" "by_workers h (next_event r s') = by_workers h s" for h
    by (simp_all add: next_event_def by_workers_def f(2))
  have "clean D (next_event r s')"
  proof (rule cleanI)
    note cl = cleanD [OF clean no]
    show "d \<in> fst ` set (epoll (next_event r s'))" if "d \<in> set (opens (next_event r s'))" "d \<notin> set D" for d
      using cl(1) [of d] that unfolding n g f(1) by auto
    show "b \<in># by_workers closing (next_event r s') + by_workers freeing (next_event r s')"
      if "objs (next_event r s') b \<noteq> None" "b \<notin> snd ` set (works (next_event r s'))" for b
      using cl(2) [of b] that unfolding n g by (cases "b = a") simp_all
  qed
  then show ?thesis using Conn s' f(4) by (simp add: thrown_or_def) (simp add: next_event_def)
next
  case (Accept_err e)
  have "clean D (next_event r s)" by (rule clean_same [OF clean no]) (simp_all add: next_event_def by_workers_def)
  then show ?thesis using Accept_err by (auto simp: acceptcb_def thrown_or_def clean_def next_event_def)
next
  case (Fcntl_err what e)
  then show ?thesis by (simp add: acceptcb_def thrown_or_def clean_def)
qed

text \<open>The deletion of a work that is in the map.\<close>

lemma delete_clean:
  assumes clean: "clean D s" and no: "crash s = None" and inv: "sch_inv l s" and a: "(fd_at s a, a) \<in> set (works s)"
  shows "clean D (delete_work l a s)"
proof (rule cleanI)
  note dat = data_okD [OF own_okD(1) [OF inv [unfolded sch_inv_def]]] and cl = cleanD [OF clean no]
  have f: "opens (delete_work l a s) = work_destroy l (the (objs s a)) (opens s)" "objs (delete_work l a s) = (objs s)(a := None)"
    "works (delete_work l a s) = filter (\<lambda>(d, b). d \<noteq> fd_at s a) (works s)" "wpcs (delete_work l a s) = wpcs s"
    "epoll (delete_work l a s) = (if fd_at s a = l then epoll s else filter (\<lambda>(d, r). d \<noteq> fd_at s a) (epoll s))"
    by (simp_all add: delete_work_def del_free_def del_close_def del_unregister_def fw_unregister_def Let_def fd_at_def)
  show "d \<in> fst ` set (epoll (delete_work l a s))" if d: "d \<in> set (opens (delete_work l a s))" "d \<notin> set D" for d
  proof (cases "fd_at s a = l")
    case True
    then show ?thesis using cl(1) [of d] d by (simp add: f work_destroy_def fd_at_def)
  next
    case False
    then have "d \<in> set (opens s)" "d \<noteq> fd_at s a" using d dat(5) by (auto simp: f work_destroy_def fd_at_def)
    then have "d \<in> fst ` set (epoll s)" using cl(1) d(2) by blast
    then show ?thesis using False \<open>d \<noteq> fd_at s a\<close> by (force simp: f)
  qed
  show "b \<in># by_workers closing (delete_work l a s) + by_workers freeing (delete_work l a s)"
    if b: "objs (delete_work l a s) b \<noteq> None" "b \<notin> snd ` set (works (delete_work l a s))" for b
  proof -
    have ne: "b \<noteq> a" and ob: "objs s b \<noteq> None" using b(1) by (auto simp: f split: if_splits)
    have "b \<notin> snd ` set (works s)"
    proof
      assume "b \<in> snd ` set (works s)"
      then obtain d where d: "(d, b) \<in> set (works s)" by auto
      then have "d = fd_at s a" using b(2) by (force simp: f)
      then show False using d a ne dat(1) by (metis eq_key_imp_eq_value)
    qed
    then show ?thesis using cl(2) [OF ob] by (simp add: by_workers_def f)
  qed
qed

lemma poll_clean:
  assumes clean: "clean D s" and no: "crash s = None" and inv: "sch_inv l s" and step: "poll_step l s s'"
  shows "clean D s' \<and> fdcbs s' = fdcbs s"
  using step
proof cases
  case (poll_accept d e r x)
  then show ?thesis using accept_clean [OF clean no inv] by blast
next
  case (poll_find d e r a s1)
  have R: "own_ok l (add_mset d (conns s (map fst r))) (serving s) (by_workers closing s) (by_workers freeing s) s"
    using inv poll_find by (simp add: sch_inv_def ready_conns_def)
  obtain b where "find_work d (if ev_hup e \<or> ev_in e then mode_read else mode_write) s = (b, s)" using own_find [OF R poll_find(3)] .
  then have "s1 = s" using poll_find by simp
  moreover have "clean D (s\<lparr>sch_pc := S_got a e r\<rparr>)" by (rule clean_same [OF clean no]) (simp_all add: by_workers_def)
  ultimately show ?thesis using poll_find by simp
next
  case (poll_got a e r)
  have a: "(fd_at s a, a) \<in> set (works s)" using own_okD(3) [OF inv [unfolded sch_inv_def], of a] poll_got by (simp add: serving_def)
  have 1: "clean D (next_event r t)" if "clean D t" "crash t = None" for t
    by (rule clean_same [OF that]) (simp_all add: next_event_def by_workers_def)
  have 2: "clean D (s\<lparr>jobq := jobq s @ [Some a]\<rparr>)" by (rule clean_same [OF clean no]) (simp_all add: by_workers_def)
  have "crash (delete_work l a s) = None" using no by (simp add: delete_work_def del_free_def del_close_def del_unregister_def Let_def)
  then show ?thesis using poll_got 1 [OF delete_clean [OF clean no inv a]] 1 [OF 2] no
    by (simp add: got_event_def next_event_def delete_work_def)
next
  case (poll_signal d e r sigs)
  have "clean D (next_event r (sigcb sigs s))"
    by (rule clean_same [OF clean no]) (use sigcb_frame [of sigs s] in \<open>simp_all add: next_event_def by_workers_def\<close>)
  then show ?thesis using poll_signal sigcb_frame [of sigs s] by (simp add: next_event_def)
next
  case (poll_fails err)
  then show ?thesis by (simp add: clean_def)
next
  case (poll_deliver evl)
  have "clean D s'" by (rule clean_same [OF clean no]) (use poll_deliver in \<open>simp_all add: deliver_def by_workers_def comp_def case_prod_beta\<close>)
  then show ?thesis using poll_deliver by (simp add: deliver_def)
next
  case poll_retire
  have "clean D s'" by (rule clean_same [OF clean no]) (use poll_retire in \<open>simp_all add: by_workers_def\<close>)
  then show ?thesis using poll_retire by simp
next
  case poll_round
  have "clean D s'" by (rule clean_same [OF clean no]) (use poll_round in \<open>simp_all add: by_workers_def\<close>)
  then show ?thesis using poll_round by simp
next
  case (poll_nothing d e r)
  have "clean D s'" by (rule clean_same [OF clean no]) (use poll_nothing in \<open>simp_all add: next_event_def by_workers_def\<close>)
  then show ?thesis using poll_nothing by (simp add: next_event_def)
qed

text \<open>The workers.\<close>

lemma to_pc_frame [simp]:
  "fwork (to_pc k p s) = fwork s" "epoll (to_pc k p s) = epoll s" "crash (to_pc k p s) = crash s" "fdcbs (to_pc k p s) = fdcbs s"
  by (simp_all add: to_pc_def)

lemma clean_to_pc:
  assumes "clean D s" and "crash s = None" and k: "k < length (wpcs s)" and w: "wpcs s1 = wpcs s"
    and "opens s1 = opens s" "map fst (epoll s1) = map fst (epoll s)" "works s1 = works s" "\<And>a. objs s1 a = None \<longleftrightarrow> objs s a = None"
    and pc: "closing p + freeing p = closing (wpcs s ! k) + freeing (wpcs s ! k)"
  shows "clean D (to_pc k p s1)"
proof (rule clean_same [OF assms(1,2)])
  have "(others closing k s + others freeing k s) + (closing p + freeing p) =
      (others closing k s + others freeing k s) + (closing (wpcs s ! k) + freeing (wpcs s ! k))" by (simp only: pc)
  then show "by_workers closing (to_pc k p s1) + by_workers freeing (to_pc k p s1) = by_workers closing s + by_workers freeing s"
    by (simp add: by_workers_to_pc [OF k w] by_workers_others [OF k] ac_simps)
qed (use assms(5-8) in simp_all)

lemma set_work_parts [simp]:
  "opens (set_work a f s) = opens s" "works (set_work a f s) = works s" "epoll (set_work a f s) = epoll s" "crash (set_work a f s) = crash s"
  "objs (set_work a f s) = (objs s)(a := map_option f (objs s a))"
  by (simp_all add: set_work_def)

lemma work_clean:
  assumes clean: "clean D s" and no: "crash s = None" and inv: "sch_inv l s" and k: "k < length (wpcs s)"
    and step: "work_step l k s s'"
  shows "clean D s' \<and> fdcbs s' = fdcbs s"
  using step
proof cases
  case (work_null js)
  have "clean D s'" unfolding work_null(1) by (rule clean_to_pc [OF clean no k]) (use work_null in simp_all)
  then show ?thesis using work_null by simp
next
  case work_retire
  have "clean D s'" unfolding work_retire(1) by (rule clean_to_pc [OF clean no k]) (use work_retire in simp_all)
  then show ?thesis using work_retire by simp
next
  case (work_deq a js)
  have "clean D s'" unfolding work_deq(1) by (rule clean_to_pc [OF clean no k]) (use work_deq in simp_all)
  then show ?thesis using work_deq by simp
next
  case (work_dead a mine)
  have "clean D s'" unfolding work_dead(1) by (rule clean_to_pc [OF clean no k]) (use work_dead in auto)
  then show ?thesis using work_dead by simp
next
  case (work_returns a w m del)
  have "clean D s'" unfolding work_returns(1) by (rule clean_to_pc [OF clean no k]) (use work_returns in simp_all)
  then show ?thesis using work_returns by simp
next
  case (work_reschedules a w del m)
  let ?s = "set_work a (\<lambda>w. w\<lparr>wmode := m, deleteme := del\<rparr>) s"
  have ok: "fst (sch_reschedule a True ?s) = None" by (rule reschedule_succeeds [OF inv k work_reschedules(2)]) simp
  then have s': "s' = to_pc k (W_check a False) (snd (sch_reschedule a True ?s))" using work_reschedules(1)
    by (cases "sch_reschedule a True ?s") (simp add: thrown_or_def)
  have f: "fwork (snd (sch_reschedule a True ?s)) = fwork ?s" "map fst (epoll (snd (sch_reschedule a True ?s))) = map fst (epoll s)"
    "wpcs (snd (sch_reschedule a True ?s)) = wpcs s" "fdcbs (snd (sch_reschedule a True ?s)) = fdcbs s"
    by (simp_all add: sch_reschedule_def epoll_mod_def Let_def comp_def case_prod_beta)
  have "clean D s'" unfolding s' by (rule clean_to_pc [OF clean no k f(3)]) (use work_reschedules f in simp_all)
  then show ?thesis using s' f by simp
next
  case (work_throws a w m)
  have "clean D s'" unfolding work_throws(1) by (rule clean_to_pc [OF clean no k]) (use work_throws in simp_all)
  then show ?thesis using work_throws by simp
next
  case (work_kept a mine w)
  have "clean D s'" unfolding work_kept(1) by (rule clean_to_pc [OF clean no k]) (use work_kept in simp_all)
  then show ?thesis using work_kept by simp
next
  case (work_deletes a mine w)
  have "clean D s'" unfolding work_deletes(1) by (rule clean_to_pc [OF clean no k]) (use work_deletes in simp_all)
  then show ?thesis using work_deletes by simp
next
  case (work_unregisters a w)
  note d = by_workers_to_pc [OF k, of "del_unregister a s"] and o = by_workers_others [OF k]
  note cl = cleanD [OF clean no] and dat = data_okD [OF own_okD(1) [OF inv [unfolded sch_inv_def]]]
  have inw: "a \<in># serving s" using work_unregisters(2) by (simp add: serving_def by_workers_others [OF k])
  have a: "(fd_at s a, a) \<in> set (works s)" by (rule own_okD(3) [OF inv [unfolded sch_inv_def] inw])
  have f: "opens (del_unregister a s) = opens s" "objs (del_unregister a s) = objs s" "epoll (del_unregister a s) = epoll s"
    "works (del_unregister a s) = filter (\<lambda>(d, b). d \<noteq> fd_at s a) (works s)"
    by (simp_all add: del_unregister_def fw_unregister_def fd_at_def)
  have "clean D s'"
  proof (rule cleanI)
    show "d \<in> fst ` set (epoll s')" if "d \<in> set (opens s')" "d \<notin> set D" for d using cl(1) [of d] that work_unregisters(1) f by simp
    show "b \<in># by_workers closing s' + by_workers freeing s'" if b: "objs s' b \<noteq> None" "b \<notin> snd ` set (works s')" for b
    proof (cases "b = a")
      case True
      then show ?thesis by (simp add: work_unregisters(1) d)
    next
      case False
      have "b \<notin> snd ` set (works s)"
      proof
        assume "b \<in> snd ` set (works s)"
        then obtain e where e: "(e, b) \<in> set (works s)" by auto
        then have "e = fd_at s a" using b(2) by (force simp: work_unregisters(1) f)
        then show False using e a False dat(1) by (metis eq_key_imp_eq_value)
      qed
      then have "b \<in># by_workers closing s + by_workers freeing s" using cl(2) [of b] b(1) f by (simp add: work_unregisters(1))
      then show ?thesis using work_unregisters(2) by (auto simp: work_unregisters(1) d o)
    qed
  qed
  then show ?thesis using work_unregisters(1) by simp
next
  case (work_closes a w)
  note d = by_workers_to_pc [OF k, of "del_close l a s"] and o = by_workers_others [OF k]
  note cl = cleanD [OF clean no] and dat = data_okD [OF own_okD(1) [OF inv [unfolded sch_inv_def]]]
  have f: "opens (del_close l a s) = work_destroy l (the (objs s a)) (opens s)" "objs (del_close l a s) = objs s" "works (del_close l a s) = works s"
    "epoll (del_close l a s) = (if fd_at s a = l then epoll s else filter (\<lambda>(d, r). d \<noteq> fd_at s a) (epoll s))"
    by (simp_all add: del_close_def Let_def fd_at_def)
  have "clean D s'"
  proof (rule cleanI)
    show "e \<in> fst ` set (epoll s')" if e: "e \<in> set (opens s')" "e \<notin> set D" for e
    proof (cases "fd_at s a = l")
      case True
      then show ?thesis using cl(1) [of e] e by (simp add: work_closes(1) f work_destroy_def fd_at_def)
    next
      case False
      then have "e \<in> set (opens s)" "e \<noteq> fd_at s a" using e dat(5) by (auto simp: work_closes(1) f work_destroy_def fd_at_def)
      then have "e \<in> fst ` set (epoll s)" using cl(1) e(2) by blast
      then show ?thesis using False \<open>e \<noteq> fd_at s a\<close> by (force simp: work_closes(1) f)
    qed
    show "b \<in># by_workers closing s' + by_workers freeing s'" if b: "objs s' b \<noteq> None" "b \<notin> snd ` set (works s')" for b
      using cl(2) [of b] b work_closes(2) by (auto simp: work_closes(1) f d o)
  qed
  then show ?thesis using work_closes(1) by simp
next
  case (work_frees a w)
  note d = by_workers_to_pc [OF k, of "del_free a s"] and o = by_workers_others [OF k]
  note cl = cleanD [OF clean no]
  have f: "opens (del_free a s) = opens s" "objs (del_free a s) = (objs s)(a := None)" "works (del_free a s) = works s" "epoll (del_free a s) = epoll s"
    by (simp_all add: del_free_def)
  have "clean D s'"
  proof (rule cleanI)
    show "e \<in> fst ` set (epoll s')" if "e \<in> set (opens s')" "e \<notin> set D" for e using cl(1) [of e] that by (simp add: work_frees(1) f)
    show "b \<in># by_workers closing s' + by_workers freeing s'" if b: "objs s' b \<noteq> None" "b \<notin> snd ` set (works s')" for b
      using cl(2) [of b] b work_frees(2) by (auto simp: work_frees(1) f d o split: if_splits)
  qed
  then show ?thesis using work_frees(1) by simp
qed

lemma run_clean:
  "sch_run l n s s' \<Longrightarrow> sch_inv l s \<Longrightarrow> \<not> stray s' \<Longrightarrow> clean D s \<Longrightarrow> clean D s' \<and> fdcbs s' = fdcbs s"
proof (induction rule: sch_run.induct)
  case (run_step n s s' s'')
  have fine: "\<not> stray s'" using stray_step run_step.hyps(2) run_step.prems(2) by blast
  then have c: "clean D s'" "fdcbs s' = fdcbs s" and inv: "sch_inv l s'" using run_step run_inv by blast+
  from run_step.hyps(2) show ?case
    by cases (use poll_clean [OF c(1) _ inv] work_clean [OF c(1) _ inv] c(2) in \<open>metis+\<close>)
qed simp

section \<open>The destructor of the map\<close>

text \<open>The works of the scheduler's model have no store to go back to.\<close>

definition no_enq :: "nat \<Rightarrow> unit \<Rightarrow> unit" where
  "no_enq a q = ()"

lemma delete_each:
  assumes "distinct as" and "\<And>a. a \<in> set as \<Longrightarrow> wobjs F a \<noteq> None" and "distinct (wopen F)"
  shows "set (wopen (fold (fw_delete enq l) as F)) = set (wopen F) - ((\<lambda>a. wfd (the (wobjs F a))) ` set as - {l})"
    and "distinct (wopen (fold (fw_delete enq l) as F))"
    and "wobjs (fold (fw_delete enq l) as F) = (\<lambda>a. if a \<in> set as then None else wobjs F a)"
proof -
  have "set (wopen (fold (fw_delete enq l) as F)) = set (wopen F) - ((\<lambda>a. wfd (the (wobjs F a))) ` set as - {l}) \<and>
    distinct (wopen (fold (fw_delete enq l) as F)) \<and>
    wobjs (fold (fw_delete enq l) as F) = (\<lambda>a. if a \<in> set as then None else wobjs F a)"
    using assms
  proof (induction as arbitrary: F)
    case (Cons a as)
    let ?F = "fw_delete enq l a F"
    have f: "wobjs ?F = (wobjs F)(a := None)" "wopen ?F = work_destroy l (the (wobjs F a)) (wopen F)"
      by (simp_all add: fw_delete_def fw_unregister_def Let_def)
    have o: "set (wopen ?F) = set (wopen F) - ({wfd (the (wobjs F a))} - {l})" "distinct (wopen ?F)"
      using Cons.prems(3) by (auto simp: f work_destroy_def)
    have ne: "b \<noteq> a" if "b \<in> set as" for b using Cons.prems(1) that by auto
    have "wobjs ?F b \<noteq> None" if "b \<in> set as" for b using Cons.prems(2) [of b] ne [OF that] that by (simp add: f)
    then have IH: "set (wopen (fold (fw_delete enq l) as ?F)) = set (wopen ?F) - ((\<lambda>a. wfd (the (wobjs ?F a))) ` set as - {l})"
      "distinct (wopen (fold (fw_delete enq l) as ?F))"
      "wobjs (fold (fw_delete enq l) as ?F) = (\<lambda>a. if a \<in> set as then None else wobjs ?F a)"
      using Cons.IH [of ?F] Cons.prems(1) o(2) by auto
    have "(\<lambda>a. wfd (the (wobjs ?F a))) ` set as = (\<lambda>a. wfd (the (wobjs F a))) ` set as"
      by (rule image_cong) (simp_all add: f ne)
    then have "set (wopen (fold (fw_delete enq l) as ?F)) = set (wopen F) - ((\<lambda>a. wfd (the (wobjs F a))) ` set (a # as) - {l})"
      using IH(1) o(1) by auto
    moreover have "wobjs (fold (fw_delete enq l) as ?F) = (\<lambda>b. if b \<in> set (a # as) then None else wobjs F b)"
      using IH(3) by (auto simp: f fun_eq_iff)
    ultimately show ?case using IH(2) by simp
  qed simp
  then show "set (wopen (fold (fw_delete enq l) as F)) = set (wopen F) - ((\<lambda>a. wfd (the (wobjs F a))) ` set as - {l})"
    "distinct (wopen (fold (fw_delete enq l) as F))" "wobjs (fold (fw_delete enq l) as F) = (\<lambda>a. if a \<in> set as then None else wobjs F a)"
    by blast+
qed

lemma clean_clear:
  assumes clean: "clean D s" and no: "crash s = None" and inv: "sch_inv l s"
    and gone: "by_workers closing s = {#}" "by_workers freeing s = {#}"
  shows "wmap (fw_clear no_enq l (fwork s)) = []" "wobjs (fw_clear no_enq l (fwork s)) = (\<lambda>a. None)"
    "l \<in> set (wopen (fw_clear no_enq l (fwork s)))" "distinct (wopen (fw_clear no_enq l (fwork s)))"
    "set (wopen (fw_clear no_enq l (fwork s))) \<subseteq> set D \<union> {l}"
    "fdcbs s d \<noteq> None \<Longrightarrow> d \<noteq> l \<Longrightarrow> d \<notin> set (wopen (fw_clear no_enq l (fwork s)))"
proof -
  note D = own_okD [OF inv [unfolded sch_inv_def]] and dat = data_okD [OF own_okD(1) [OF inv [unfolded sch_inv_def]]]
  let ?as = "map snd (works s)"
  have "inj_on snd (set (works s))" using dat(3) by (intro inj_onI) (metis prod.collapse)
  then have dis: "distinct ?as" using dat(1) by (simp add: distinct_map)
  have alive: "objs s a \<noteq> None" if "a \<in> set ?as" for a using that dat(2) by auto
  note e = delete_each [OF dis alive dat(5), of no_enq l]
  have fds: "(\<lambda>a. wfd (the (objs s a))) ` set ?as = fst ` set (works s)"
    using dat(3) by (force simp: fd_at_def image_iff)
  have open': "set (wopen (fw_clear no_enq l (fwork s))) = set (opens s) - (fst ` set (works s) - {l})"
    using e(1) unfolding fds by (simp add: fw_clear_def)
  show "wmap (fw_clear no_enq l (fwork s)) = []" by (simp add: fw_clear_def)
  have "objs s a = None" if "a \<notin> snd ` set (works s)" for a using cleanD(2) [OF clean no, of a] that gone by auto
  then show "wobjs (fw_clear no_enq l (fwork s)) = (\<lambda>a. None)" using e(3) by (auto simp: fw_clear_def fun_eq_iff)
  have "l \<in> set (opens s)" using dat(4,8,9) by blast
  then show "l \<in> set (wopen (fw_clear no_enq l (fwork s)))" by (simp add: open')
  show "distinct (wopen (fw_clear no_enq l (fwork s)))" using e(2) by (simp add: fw_clear_def)
  have "fst ` set (epoll s) = fst ` set (works s)" using D(11) gone by simp
  then show "set (wopen (fw_clear no_enq l (fwork s))) \<subseteq> set D \<union> {l}" using cleanD(1) [OF clean no] by (auto simp: open')
  show "d \<notin> set (wopen (fw_clear no_enq l (fwork s)))" if "fdcbs s d \<noteq> None" "d \<noteq> l" using dat(8) [of d] that by (simp add: open')
qed

lemma sch_start_clean:
  assumes "0 \<le> l" "0 \<le> sig" "l \<noteq> sig" "l \<in> set ds" "sig \<in> set ds" "distinct ds"
  shows "clean ds (sch_start n maxev l sig ds hs)" "fdcbs (sch_start n maxev l sig ds hs) sig = Some Sig_cb"
proof -
  let ?s = "sch_start n maxev l sig ds hs"
  have "opens ?s = ds" "works ?s = [(l, 1), (sig, 0)]" "objs ?s = (\<lambda>_. None)(0 \<mapsto> server_work sig mode_read, 1 \<mapsto> server_work l mode_read)"
    "fdcbs ?s sig = Some Sig_cb"
    using assms by (simp_all add: sch_start_def poll_start_def sched_new_def registercb_def find_work_def fw_find_def fw_new_def pool_new_def
        pre_new_def no_store_def sch_schedule_def epoll_add_def Let_def thrown_or_def server_work_def work_new_def numeral_2_eq_2)
  then show "clean ds ?s" "fdcbs ?s sig = Some Sig_cb" by (auto intro!: cleanI split: if_splits)
qed

text \<open>The end of a turn in which every worker has retired.\<close>

lemma turn_end:
  assumes fds: "0 \<le> l" "0 \<le> sig" "l \<noteq> sig" "l \<in> set ds" "sig \<in> set ds" "distinct ds"
    and run: "sch_run l m (sch_start k maxev l sig ds hs) s" and retired: "sch_pc s = S_done" "wpcs s = replicate k W_exit" and fine: "\<not> stray s"
  shows "crash s = None" "wmap (fw_clear no_enq l (fwork s)) = []" "wobjs (fw_clear no_enq l (fwork s)) = (\<lambda>a. None)"
    "l \<in> set (wopen (fw_clear no_enq l (fwork s)))" "distinct (wopen (fw_clear no_enq l (fwork s)))"
    "set (wopen (fw_clear no_enq l (fwork s))) \<subseteq> set ds - {sig}"
proof -
  note start = sch_start_inv [OF fds, of k maxev hs] and startc = sch_start_clean [OF fds, of k maxev hs]
  have inv: "sch_inv l s" by (rule run_inv [OF run start(1) fine])
  have halt: "halt_ok s" by (rule run_halt [OF run start(1) sch_start_halt [OF fds] fine])
  show no: "crash s = None" using halt retired by (cases "crash s") (auto simp: halt_ok_def)
  have cl: "clean ds s" and cb: "fdcbs s sig \<noteq> None" using run_clean [OF run start(1) fine startc(1)] startc(2) by simp_all
  have gone: "by_workers closing s = {#}" "by_workers freeing s = {#}" by (simp_all add: by_workers_def retired map_replicate)
  note c = clean_clear [OF cl no inv gone]
  show "wmap (fw_clear no_enq l (fwork s)) = []" "wobjs (fw_clear no_enq l (fwork s)) = (\<lambda>a. None)"
    "l \<in> set (wopen (fw_clear no_enq l (fwork s)))" "distinct (wopen (fw_clear no_enq l (fwork s)))" by (fact c)+
  show "set (wopen (fw_clear no_enq l (fwork s))) \<subseteq> set ds - {sig}" using c(5) c(6) [OF cb] fds by auto
qed

section \<open>The handlers\<close>

text \<open>The loop of the server is only told to stop by a signal that has the handler for it.\<close>

definition told :: "(nat \<Rightarrow> handler option) \<Rightarrow> sched \<Rightarrow> bool" where
  "told hs s \<longleftrightarrow> sighandlers s = hs \<and> (doserve s \<or> (\<exists>n. hs n = Some Server_halt))"

lemma told_same: "told hs s \<Longrightarrow> sighandlers s' = sighandlers s \<Longrightarrow> doserve s' = doserve s \<Longrightarrow> told hs s'"
  by (simp add: told_def)

lemma sigcb_told: "told hs s \<Longrightarrow> told hs (sigcb sigs s)"
proof (induction sigs s rule: sigcb.induct)
  case (2 signo rest s)
  have "told hs (handle h s)" if "sighandlers s signo = Some h" for h
    using 2(2) that by (cases h) (auto simp: told_def sch_halt_def)
  then show ?case using 2 by (auto simp: Let_def split: option.split)
qed simp

lemma find_told: "find_work d m s = (a, s') \<Longrightarrow> sighandlers s' = sighandlers s \<and> doserve s' = doserve s"
  by (auto simp: find_work_def split: prod.splits)

lemma schedule_told: "sighandlers (snd (sch_schedule a os s)) = sighandlers s \<and> doserve (snd (sch_schedule a os s)) = doserve s"
  by (simp add: sch_schedule_def epoll_add_def Let_def)

lemma accept_told: "sighandlers (snd (acceptcb x s)) = sighandlers s \<and> doserve (snd (acceptcb x s)) = doserve s"
proof (cases x)
  case (Conn c)
  obtain a s1 where s1: "find_work c mode_read (s\<lparr>fwork := (fwork s)\<lparr>wopen := c # opens s\<rparr>\<rparr>) = (a, s1)" by fastforce
  show ?thesis using find_told [OF s1] schedule_told [of a True s1] by (simp add: acceptcb_def Conn s1)
qed (simp_all add: acceptcb_def)

lemma step_told:
  assumes "sch_step l s s'" and told: "told hs s"
  shows "told hs s'"
  using assms(1)
proof cases
  case step_poll
  from step_poll(2) show ?thesis
  proof cases
    case (poll_accept d e r x)
    show ?thesis using accept_told [of x s] unfolding poll_accept(1)
      by (cases rule: thrown_or_cases [of "acceptcb x s" "next_event r"]) (auto intro!: told_same [OF told] simp: next_event_def)
  next
    case (poll_find d e r a s1)
    then show ?thesis using find_told [OF poll_find(5)] by (auto intro!: told_same [OF told])
  next
    case (poll_signal d e r sigs)
    show ?thesis unfolding poll_signal(1) by (rule told_same [OF sigcb_told [OF told, of sigs]]) (simp_all add: next_event_def)
  next
    case (poll_got a e r)
    show ?thesis unfolding poll_got(1)
      by (rule told_same [OF told]) (simp_all add: got_event_def next_event_def delete_work_def del_free_def del_close_def del_unregister_def Let_def)
  qed (auto intro!: told_same [OF told] simp: deliver_def next_event_def)
next
  case (step_work k)
  from step_work(3) show ?thesis
  proof cases
    case (work_reschedules a w del m)
    let ?s = "set_work a (\<lambda>w. w\<lparr>wmode := m, deleteme := del\<rparr>) s"
    have "sighandlers (snd (sch_reschedule a True ?s)) = sighandlers s" "doserve (snd (sch_reschedule a True ?s)) = doserve s"
      by (simp_all add: sch_reschedule_def epoll_mod_def Let_def set_work_def)
    then show ?thesis unfolding work_reschedules(1)
      by (cases rule: thrown_or_cases [of "sch_reschedule a True ?s" "to_pc k (W_check a False)"])
        (auto intro!: told_same [OF told] simp: to_pc_def)
  qed (auto intro!: told_same [OF told] simp: to_pc_def set_work_def del_free_def del_close_def del_unregister_def Let_def)
qed

lemma run_told: "sch_run l n s s' \<Longrightarrow> told hs s \<Longrightarrow> told hs s'"
  by (induction rule: sch_run.induct) (auto dest: step_told)

lemma sch_start_told:
  assumes "0 \<le> l" "0 \<le> sig" "l \<noteq> sig" "l \<in> set ds" "sig \<in> set ds" "distinct ds"
  shows "told hs (sch_start n maxev l sig ds hs)"
  using assms by (simp add: told_def sch_start_def poll_start_def sched_new_def registercb_def find_work_def fw_find_def fw_new_def pool_new_def
      pre_new_def no_store_def sch_schedule_def epoll_add_def Let_def thrown_or_def server_work_def work_new_def numeral_2_eq_2)

end
