(* ===== verification/Server.thy ===== *)
theory Server
  imports HTTP_cmdline Thread_Pool Turn_End
begin

text \<open>
  \<open>Server.hpp\<close>, \<open>CachingServer.hpp\<close>, \<open>root_safety.cpp\<close> and the part of \<open>sigmasks.cpp\<close> they use: how the server
  gets its listening socket and gives up its privileges, and the loop that builds everything else
  for each turn and tears it down again. The kernel is a parameter: what it answers may depend on
  every call that was made before.
\<close>

section \<open>The process and the kernel\<close>

datatype domain = AF_INET | AF_INET6 | AF_LOCAL | AF_other int

text \<open>Addresses are numbers; the port is in host order.\<close>

datatype sockaddr = Inet domain "16 word" nat | Unix_path string

datatype builtin = BLOCK_ALL | BLOCK_NONE

datatype scall =
    C_sigmask builtin | C_socket domain | C_getifaddrs | C_bind fd sockaddr | C_getsockname fd | C_inet_ntop domain
  | C_keepalive fd | C_keepintvl fd int | C_keepcnt fd int | C_keepidle fd int | C_getfl fd | C_setfl fd int | C_listen fd int
  | C_chdir string | C_unlink string | C_close fd | C_setegid "32 word" | C_seteuid "32 word" | C_stat
  | C_sigmask_how int "int list" | C_signalfd "int list" | C_epoll_create | C_sigaction int

text \<open>An interface has a name and, sometimes, an address.\<close>

record ifaddr =
  ifa_name :: string
  ifa_addr :: "(domain \<times> nat) option"

record dirinfo =
  st_uid :: "32 word"
  st_gid :: "32 word"
  iwoth :: bool

record kernel =
  answer :: "scall list \<Rightarrow> scall \<Rightarrow> int"
  interfaces :: "scall list \<Rightarrow> ifaddr list"
  directory :: "scall list \<Rightarrow> dirinfo"
  workdir :: "scall list \<Rightarrow> string"

text \<open>The process: the calls made so far, and the effective ids, which only two calls change.\<close>

record proc =
  calls :: "scall list"
  euid :: "32 word"
  egid :: "32 word"

type_synonym 'a run = "proc \<Rightarrow> (exc + 'a) \<times> proc"

definition ret :: "'a \<Rightarrow> 'a run" where
  "ret x p = (Inr x, p)"

definition fail :: "exc \<Rightarrow> 'a run" where
  "fail e p = (Inl e, p)"

definition then_run :: "'a run \<Rightarrow> ('a \<Rightarrow> 'b run) \<Rightarrow> 'b run" where
  "then_run m f p = (case m p of (Inl e, q) \<Rightarrow> (Inl e, q) | (Inr x, q) \<Rightarrow> f x q)"

fun effect :: "scall \<Rightarrow> proc \<Rightarrow> proc" where
  "effect (C_setegid g) p = p\<lparr>egid := g\<rparr>"
| "effect (C_seteuid u) p = p\<lparr>euid := u\<rparr>"
| "effect c p = p"

definition sys :: "kernel \<Rightarrow> scall \<Rightarrow> int run" where
  "sys K c p =
     (let r = answer K (calls p) c; q = p\<lparr>calls := calls p @ [c]\<rparr>
      in (Inr r, if r = -1 then q else effect c q))"

text \<open>A call whose failure ends the process.\<close>

definition must :: "kernel \<Rightarrow> scall \<Rightarrow> int run" where
  "must K c = then_run (sys K c) (\<lambda>r. if r = -1 then fail (Exit 1) else ret r)"

section \<open>Signal masks\<close>

definition sigmask_caller :: "kernel \<Rightarrow> builtin \<Rightarrow> unit run" where
  "sigmask_caller K b = then_run (sys K (C_sigmask b)) (\<lambda>r. if r \<noteq> 0 then fail (Exit 1) else ret ())"

text \<open>The overloads for one signal, for several, and for a set that may be missing. A signal that does not exist
  cannot be put into a set.\<close>

definition sigmask_how :: "kernel \<Rightarrow> int \<Rightarrow> int list \<Rightarrow> unit run" where
  "sigmask_how K how ns = then_run (sys K (C_sigmask_how how ns)) (\<lambda>r. if r \<noteq> 0 then fail (Exit 1) else ret ())"

definition sigmask_sig :: "kernel \<Rightarrow> int \<Rightarrow> int \<Rightarrow> unit run" where
  "sigmask_sig K how n = (if \<not> valid_sig n then fail (Exit 1) else sigmask_how K how [n])"

definition sigmask_sigs :: "kernel \<Rightarrow> int \<Rightarrow> int list \<Rightarrow> unit run" where
  "sigmask_sigs K how ns = (if \<not> list_all valid_sig ns then fail (Exit 1) else sigmask_how K how ns)"

definition sigmask_set :: "kernel \<Rightarrow> int \<Rightarrow> int list option \<Rightarrow> unit run" where
  "sigmask_set K how s = (case s of None \<Rightarrow> ret () | Some ns \<Rightarrow> sigmask_how K how ns)"

section \<open>The scheduler's descriptors\<close>

text \<open>The constructor of \<open>Scheduler\<close> asks whether there is a \<open>signalfd\<close>, and closes the descriptor it got for the
  question; its destructor closes the polling descriptor.\<close>

definition scheduler_new :: "kernel \<Rightarrow> (bool \<times> fd) run" where
  "scheduler_new K =
     then_run (sys K (C_signalfd [])) (\<lambda>d.
     then_run (if d = -1 then ret False else then_run (sys K (C_close d)) (\<lambda>_. ret True)) (\<lambda>use_signalfd.
     then_run (must K C_epoll_create) (\<lambda>pollfd. ret (use_signalfd, pollfd))))"

definition scheduler_delete :: "kernel \<Rightarrow> fd \<Rightarrow> unit run" where
  "scheduler_delete K pollfd = then_run (sys K (C_close pollfd)) (\<lambda>_. ret ())"

text \<open>The start of \<open>poll\<close>: all signals blocked and read from a descriptor, or none blocked.\<close>

definition poll_signals :: "kernel \<Rightarrow> bool \<Rightarrow> int list \<Rightarrow> fd option run" where
  "poll_signals K use_signalfd tohandle =
     (if use_signalfd
      then then_run (sigmask_caller K BLOCK_ALL) (\<lambda>_. then_run (must K (C_signalfd tohandle)) (\<lambda>d. ret (Some d)))
      else then_run (sigmask_caller K BLOCK_NONE) (\<lambda>_. ret None))"

text \<open>\<open>push_sighandler\<close> without \<open>signalfd\<close>.\<close>

definition push_sigaction :: "kernel \<Rightarrow> int \<Rightarrow> unit run" where
  "push_sigaction K n = then_run (must K (C_sigaction n)) (\<lambda>_. ret ())"

section \<open>Privileges\<close>

definition untrusted_sanity_checks :: "kernel \<Rightarrow> unit run" where
  "untrusted_sanity_checks K =
     then_run (must K C_stat) (\<lambda>_ p.
       let st = directory K (calls p)
       in if euid p = 0 then fail (Exit 1) p
          else if st_uid st = euid p then fail (Exit 1) p
          else if st_gid st = egid p then fail (Exit 1) p
          else if iwoth st then fail (Exit 1) p
          else ret () p)"

definition root_giveup :: "kernel \<Rightarrow> 32 word \<Rightarrow> 32 word \<Rightarrow> unit run" where
  "root_giveup K uid gid =
     then_run (must K (C_setegid gid)) (\<lambda>_.
     then_run (must K (C_seteuid uid)) (\<lambda>_.
     untrusted_sanity_checks K))"

definition root_getback :: "kernel \<Rightarrow> unit run" where
  "root_getback K = then_run (must K (C_seteuid 0)) (\<lambda>_. ret ())"

section \<open>The server\<close>

record server =
  sdomain :: domain
  sbindto :: string
  smount :: string
  ssockdir :: string
  sifnam :: "string option"
  slistenq :: int
  snworkers :: int
  skeepalive :: "int \<times> int \<times> int"
  spreallocMB :: size_t
  scacheszMB :: size_t
  ssigflush :: int
  ssigdl_int :: int
  ssigdl_ext :: int
  shaltsigs :: "int list"
  suid :: "32 word"
  sgid :: "32 word"

text \<open>The first part of the constructor of \<open>Server\<close>; no signals to halt means \<open>SIGINT\<close> and \<open>SIGTERM\<close>. The two fields of
  \<open>CachingServer\<close> mean nothing here.\<close>

definition server_ctor :: "domain \<Rightarrow> string \<Rightarrow> string \<Rightarrow> int \<Rightarrow> int \<Rightarrow> size_t \<Rightarrow> string option \<Rightarrow> int list option \<Rightarrow> int \<Rightarrow> int \<Rightarrow>
    int \<times> int \<times> int \<Rightarrow> 32 word \<Rightarrow> 32 word \<Rightarrow> server" where
  "server_ctor d mount bindto nworkers listenq preallocMB ifnam haltsigs sigdl_int sigdl_ext tcp_keepalive uid gid =
     \<lparr>sdomain = d, sbindto = bindto, smount = mount, ssockdir = [], sifnam = ifnam, slistenq = listenq, snworkers = nworkers,
      skeepalive = tcp_keepalive, spreallocMB = preallocMB, scacheszMB = 0, ssigflush = -1, ssigdl_int = sigdl_int,
      ssigdl_ext = sigdl_ext, shaltsigs = (case haltsigs of Some s \<Rightarrow> s | None \<Rightarrow> [2, 15]), suid = uid, sgid = gid\<rparr>"

text \<open>The constructor of \<open>CachingServer\<close> with what \<open>main\<close> passes to it.\<close>

definition server_of :: "server_args \<Rightarrow> server" where
  "server_of a =
     (server_ctor (if a_ipv6 a then AF_INET6 else AF_INET) (a_mount a) (a_bindto a) (a_nworkers a) (a_listenq a) (a_preallocMB a)
       (Some (a_ifnam a)) None (a_sigdl_int a) (a_sigdl_ext a) (a_keepalive a) (a_uid a) (a_gid a))
       \<lparr>scacheszMB := a_cacheszMB a, ssigflush := a_sigflush a\<rparr>"

text \<open>The rest of the constructor: 108 bytes for the path of a socket, one of them for the NUL.\<close>

definition server_new :: "kernel \<Rightarrow> server \<Rightarrow> server run" where
  "server_new K sv =
     (if sdomain sv = AF_LOCAL
      then (\<lambda>p. if length (sbindto sv) > 107 then fail (Exit 1) p else ret (sv\<lparr>ssockdir := workdir K (calls p)\<rparr>) p)
      else then_run (must K (C_chdir (smount sv))) (\<lambda>_. ret sv))"

text \<open>The loop over the interfaces. The names are compared over the length of the interface's.\<close>

fun pick_if :: "domain \<Rightarrow> string option \<Rightarrow> ifaddr list \<Rightarrow> exc + nat option" where
  "pick_if d ifnam [] = Inr None"
| "pick_if d None (i # rest) = Inl UB"
| "pick_if d (Some n) (i # rest) =
     (if prefix (ifa_name i) n
      then (case ifa_addr i of
              None \<Rightarrow> Inl UB
            | Some (d', a) \<Rightarrow> if d' = d then Inr (Some a) else pick_if d (Some n) rest)
      else pick_if d (Some n) rest)"

text \<open>What \<open>setup_AF_INET\<close> and \<open>setup_AF_INET6\<close> have in common, which is all but the family.\<close>

definition setup_inet :: "kernel \<Rightarrow> domain \<Rightarrow> server \<Rightarrow> fd \<Rightarrow> unit run" where
  "setup_inet K d sv l =
     then_run (must K C_getifaddrs) (\<lambda>_ p.
       (case pick_if d (sifnam sv) (interfaces K (calls p)) of
          Inl e \<Rightarrow> fail e p
        | Inr None \<Rightarrow> fail (Exit 1) p
        | Inr (Some a) \<Rightarrow>
            (case atoi (sbindto sv) of
               Inl e \<Rightarrow> fail e p
             | Inr n \<Rightarrow>
                 then_run (must K (C_bind l (Inet d (of_int n) a))) (\<lambda>_.
                 then_run (must K (C_getsockname l)) (\<lambda>_.
                 then_run (must K (C_inet_ntop d)) (\<lambda>_. ret ()))) p)))"

definition setup_AF_INET :: "kernel \<Rightarrow> server \<Rightarrow> fd \<Rightarrow> unit run" where
  "setup_AF_INET K sv l = setup_inet K AF_INET sv l"

definition setup_AF_INET6 :: "kernel \<Rightarrow> server \<Rightarrow> fd \<Rightarrow> unit run" where
  "setup_AF_INET6 K sv l = setup_inet K AF_INET6 sv l"

definition setup_AF_LOCAL :: "kernel \<Rightarrow> server \<Rightarrow> fd \<Rightarrow> unit run" where
  "setup_AF_LOCAL K sv l =
     then_run (must K (C_chdir (ssockdir sv))) (\<lambda>_.
     then_run (must K (C_bind l (Unix_path (take 107 (sbindto sv))))) (\<lambda>_.
     then_run (must K (C_chdir (smount sv))) (\<lambda>_. ret ())))"

text \<open>An option of \<open>-1\<close> is left alone.\<close>

definition set_unless :: "kernel \<Rightarrow> (int \<Rightarrow> scall) \<Rightarrow> int \<Rightarrow> unit run" where
  "set_unless K c v = (if v = -1 then ret () else then_run (must K (c v)) (\<lambda>_. ret ()))"

definition keepalive :: "kernel \<Rightarrow> server \<Rightarrow> fd \<Rightarrow> unit run" where
  "keepalive K sv l =
     (case skeepalive sv of (intvl, probes, time) \<Rightarrow>
        if sdomain sv \<noteq> AF_LOCAL \<and> (intvl \<noteq> -1 \<or> probes \<noteq> -1 \<or> time \<noteq> -1)
        then then_run (must K (C_keepalive l)) (\<lambda>_.
             then_run (set_unless K (C_keepintvl l) intvl) (\<lambda>_.
             then_run (set_unless K (C_keepcnt l) probes) (\<lambda>_.
             set_unless K (C_keepidle l) time)))
        else ret ())"

definition O_NONBLOCK :: int where
  "O_NONBLOCK = 2048"

definition socket_bind_listen :: "kernel \<Rightarrow> server \<Rightarrow> fd run" where
  "socket_bind_listen K sv =
     then_run (must K (C_socket (sdomain sv))) (\<lambda>l.
     then_run (case sdomain sv of
                AF_INET \<Rightarrow> setup_AF_INET K sv l
              | AF_INET6 \<Rightarrow> setup_AF_INET6 K sv l
              | AF_LOCAL \<Rightarrow> setup_AF_LOCAL K sv l
              | AF_other n \<Rightarrow> fail (Exit 1)) (\<lambda>_.
     then_run (keepalive K sv l) (\<lambda>_.
     then_run (must K (C_getfl l)) (\<lambda>flags.
     then_run (must K (C_setfl l (or flags O_NONBLOCK))) (\<lambda>_.
     then_run (must K (C_listen l (slistenq sv))) (\<lambda>_. ret l))))))"

text \<open>\<open>serve\<close> up to its loop.\<close>

definition serve_start :: "kernel \<Rightarrow> server \<Rightarrow> fd run" where
  "serve_start K sv =
     then_run (sigmask_caller K BLOCK_ALL) (\<lambda>_.
     then_run (socket_bind_listen K sv) (\<lambda>l.
     then_run (root_giveup K (suid sv) (sgid sv)) (\<lambda>_. ret l)))"

text \<open>The destructor; nothing stops it.\<close>

definition server_delete :: "kernel \<Rightarrow> server \<Rightarrow> fd \<Rightarrow> unit run" where
  "server_delete K sv l =
     then_run (if sdomain sv = AF_LOCAL
              then then_run (sys K (C_chdir (ssockdir sv))) (\<lambda>r.
                   if r = -1 then ret () else then_run (sys K (C_unlink (sbindto sv))) (\<lambda>_. ret ()))
              else ret ()) (\<lambda>_.
     then_run (sys K (C_close l)) (\<lambda>_. ret ()))"

section \<open>What the start of a server does\<close>

lemma then_run_Inr: "then_run m f p = (Inr y, q) \<longleftrightarrow> (\<exists>x r. m p = (Inr x, r) \<and> f x r = (Inr y, q))"
  by (auto simp: then_run_def split: prod.splits sum.splits)

lemma ret_Inr [simp]: "ret x p = (Inr y, q) \<longleftrightarrow> y = x \<and> q = p"
  by (auto simp: ret_def)

lemma fail_Inr [simp]: "\<not> fail e p = (Inr y, q)"
  by (simp add: fail_def)

text \<open>A trace that the kernel has let through: every call was answered, none with a failure.\<close>

fun granted :: "kernel \<Rightarrow> scall list \<Rightarrow> scall list \<Rightarrow> bool" where
  "granted K h [] = True"
| "granted K h (c # cs) = (answer K h c \<noteq> -1 \<and> granted K (h @ [c]) cs)"

lemma granted_append: "granted K h (as @ bs) \<longleftrightarrow> granted K h as \<and> granted K (h @ as) bs"
  by (induction as arbitrary: h) simp_all

lemma must_Inr:
  "must K c p = (Inr r, q) \<longleftrightarrow> r = answer K (calls p) c \<and> r \<noteq> -1 \<and> q = effect c (p\<lparr>calls := calls p @ [c]\<rparr>)"
  by (auto simp: must_def then_run_Inr sys_def Let_def)

text \<open>A run that only makes calls, all of them let through.\<close>

definition made :: "kernel \<Rightarrow> scall list \<Rightarrow> proc \<Rightarrow> proc \<Rightarrow> bool" where
  "made K cs p q \<longleftrightarrow> q = p\<lparr>calls := calls p @ cs\<rparr> \<and> granted K (calls p) cs"

lemma made_Nil: "made K [] p q \<longleftrightarrow> q = p"
  by (auto simp: made_def)

lemma made_trans: "made K as p q \<Longrightarrow> made K bs q r \<Longrightarrow> made K (as @ bs) p r"
  by (auto simp: made_def granted_append)

lemma must_made: "must K c p = (Inr r, q) \<Longrightarrow> effect c = (\<lambda>p. p) \<Longrightarrow> made K [c] p q \<and> r = answer K (calls p) c"
  by (auto simp: must_Inr made_def)

lemma effect_id [simp]:
  "effect (C_sigmask b) = (\<lambda>p. p)" "effect (C_socket d) = (\<lambda>p. p)" "effect C_getifaddrs = (\<lambda>p. p)" "effect (C_bind l a) = (\<lambda>p. p)"
  "effect (C_getsockname l) = (\<lambda>p. p)" "effect (C_inet_ntop d) = (\<lambda>p. p)" "effect (C_keepalive l) = (\<lambda>p. p)"
  "effect (C_keepintvl l v) = (\<lambda>p. p)" "effect (C_keepcnt l v) = (\<lambda>p. p)" "effect (C_keepidle l v) = (\<lambda>p. p)" "effect (C_getfl l) = (\<lambda>p. p)"
  "effect (C_setfl l v) = (\<lambda>p. p)" "effect (C_listen l v) = (\<lambda>p. p)" "effect (C_chdir s) = (\<lambda>p. p)" "effect C_stat = (\<lambda>p. p)"
  by (rule ext, simp)+

lemma set_unless_made:
  assumes "set_unless K c v p = (Inr x, q)" and "\<And>v. effect (c v) = (\<lambda>p. p)"
  shows "made K (if v = -1 then [] else [c v]) p q"
  using assms by (auto simp: set_unless_def then_run_Inr made_Nil dest!: must_made)

definition keepalive_calls :: "server \<Rightarrow> fd \<Rightarrow> scall list" where
  "keepalive_calls sv l =
     (case skeepalive sv of (intvl, probes, time) \<Rightarrow>
        if sdomain sv = AF_LOCAL \<or> intvl = -1 \<and> probes = -1 \<and> time = -1 then []
        else [C_keepalive l] @ (if intvl = -1 then [] else [C_keepintvl l intvl]) @ (if probes = -1 then [] else [C_keepcnt l probes]) @
          (if time = -1 then [] else [C_keepidle l time]))"

lemma keepalive_made:
  assumes run: "keepalive K sv l p = (Inr x, q)"
  shows "made K (keepalive_calls sv l) p q"
proof -
  obtain i pr t where opts: "skeepalive sv = (i, pr, t)" by (cases "skeepalive sv")
  show ?thesis
  proof (cases "sdomain sv \<noteq> AF_LOCAL \<and> (i \<noteq> -1 \<or> pr \<noteq> -1 \<or> t \<noteq> -1)")
    case True
    then obtain r p1 p2 p3 where "must K (C_keepalive l) p = (Inr r, p1)" "set_unless K (C_keepintvl l) i p1 = (Inr (), p2)"
      "set_unless K (C_keepcnt l) pr p2 = (Inr (), p3)" "set_unless K (C_keepidle l) t p3 = (Inr x, q)"
      using run opts by (auto simp: keepalive_def then_run_Inr)
    then have "made K ([C_keepalive l] @ ((if i = -1 then [] else [C_keepintvl l i]) @ ((if pr = -1 then [] else [C_keepcnt l pr]) @
        (if t = -1 then [] else [C_keepidle l t])))) p q"
      by (intro made_trans [of K _ p p1] made_trans [of K _ p1 p2] made_trans [of K _ p2 p3] set_unless_made) (simp_all add: must_made)
    then show ?thesis using True opts by (auto simp: keepalive_calls_def)
  next
    case False
    then show ?thesis using run opts by (auto simp: keepalive_def keepalive_calls_def made_Nil)
  qed
qed

text \<open>What the address is: the first interface whose name starts the given one and whose address is of the
  family, with the port; or the path.\<close>

definition address_calls :: "kernel \<Rightarrow> server \<Rightarrow> fd \<Rightarrow> scall list \<Rightarrow> scall list \<Rightarrow> bool" where
  "address_calls K sv l h cs \<longleftrightarrow>
     (if sdomain sv = AF_LOCAL
      then cs = [C_chdir (ssockdir sv), C_bind l (Unix_path (take 107 (sbindto sv))), C_chdir (smount sv)]
      else sdomain sv \<in> {AF_INET, AF_INET6} \<and>
        (\<exists>a n. pick_if (sdomain sv) (sifnam sv) (interfaces K (h @ [C_getifaddrs])) = Inr (Some a) \<and> atoi (sbindto sv) = Inr n \<and>
           cs = [C_getifaddrs, C_bind l (Inet (sdomain sv) (of_int n) a), C_getsockname l, C_inet_ntop (sdomain sv)]))"

lemma setup_inet_made:
  assumes run: "setup_inet K d sv l p = (Inr x, q)" and d: "sdomain sv = d" "d \<in> {AF_INET, AF_INET6}"
  shows "\<exists>cs. address_calls K sv l (calls p) cs \<and> made K cs p q"
proof -
  obtain r p1 where 1: "must K C_getifaddrs p = (Inr r, p1)" and rest: "(case pick_if d (sifnam sv) (interfaces K (calls p1)) of
          Inl e \<Rightarrow> fail e p1 | Inr None \<Rightarrow> fail (Exit 1) p1
        | Inr (Some a) \<Rightarrow> (case atoi (sbindto sv) of Inl e \<Rightarrow> fail e p1
             | Inr n \<Rightarrow> then_run (must K (C_bind l (Inet d (of_int n) a))) (\<lambda>_. then_run (must K (C_getsockname l)) (\<lambda>_.
                 then_run (must K (C_inet_ntop d)) (\<lambda>_. ret ()))) p1)) = (Inr x, q)"
    using run by (auto simp: setup_inet_def then_run_Inr)
  have c: "calls p1 = calls p @ [C_getifaddrs]" using must_made [OF 1] by (simp add: made_def)
  obtain a n where a: "pick_if d (sifnam sv) (interfaces K (calls p1)) = Inr (Some a)" "atoi (sbindto sv) = Inr n"
    using rest by (auto split: sum.splits option.splits)
  obtain r2 p2 r3 p3 r4 where "must K (C_bind l (Inet d (of_int n) a)) p1 = (Inr r2, p2)" "must K (C_getsockname l) p2 = (Inr r3, p3)"
    "must K (C_inet_ntop d) p3 = (Inr r4, q)" using rest by (auto simp: a then_run_Inr)
  then have "made K [C_bind l (Inet d (of_int n) a)] p1 p2" "made K [C_getsockname l] p2 p3" "made K [C_inet_ntop d] p3 q"
    by (simp_all add: must_made)
  then have "made K ([C_getifaddrs] @ [C_bind l (Inet d (of_int n) a)] @ [C_getsockname l] @ [C_inet_ntop d]) p q"
    using must_made [OF 1] made_trans by (metis effect_id(3))
  then show ?thesis using a d by (intro exI conjI) (auto simp: address_calls_def c)
qed

lemma socket_bind_listen_made:
  assumes run: "socket_bind_listen K sv p = (Inr l, q)"
  shows "\<exists>cs f. address_calls K sv l (calls p @ [C_socket (sdomain sv)]) cs \<and>
    made K (C_socket (sdomain sv) # cs @ keepalive_calls sv l @ [C_getfl l, C_setfl l (or f O_NONBLOCK), C_listen l (slistenq sv)]) p q"
proof -
  let ?d = "sdomain sv"
  obtain l' p1 p2 p3 f p4 r5 p5 r6 where 1: "must K (C_socket ?d) p = (Inr l', p1)"
    and 2: "(case ?d of AF_INET \<Rightarrow> setup_AF_INET K sv l' | AF_INET6 \<Rightarrow> setup_AF_INET6 K sv l'
        | AF_LOCAL \<Rightarrow> setup_AF_LOCAL K sv l' | AF_other n \<Rightarrow> fail (Exit 1)) p1 = (Inr (), p2)"
    and 3: "keepalive K sv l' p2 = (Inr (), p3)" and 4: "must K (C_getfl l') p3 = (Inr f, p4)"
    and 5: "must K (C_setfl l' (or f O_NONBLOCK)) p4 = (Inr r5, p5)" and 6: "must K (C_listen l' (slistenq sv)) p5 = (Inr r6, q)" and l: "l' = l"
    using run by (auto simp: socket_bind_listen_def then_run_Inr)
  have c: "calls p1 = calls p @ [C_socket ?d]" using must_made [OF 1] by (simp add: made_def)
  have "\<exists>cs. address_calls K sv l' (calls p1) cs \<and> made K cs p1 p2"
  proof (cases ?d)
    case AF_LOCAL
    obtain r7 q7 r8 q8 r9 where "must K (C_chdir (ssockdir sv)) p1 = (Inr r7, q7)"
      "must K (C_bind l' (Unix_path (take 107 (sbindto sv)))) q7 = (Inr r8, q8)" "must K (C_chdir (smount sv)) q8 = (Inr r9, p2)"
      using 2 AF_LOCAL by (auto simp: setup_AF_LOCAL_def then_run_Inr)
    then have "made K [C_chdir (ssockdir sv)] p1 q7" "made K [C_bind l' (Unix_path (take 107 (sbindto sv)))] q7 q8" "made K [C_chdir (smount sv)] q8 p2"
      by (simp_all add: must_made)
    then have "made K ([C_chdir (ssockdir sv)] @ [C_bind l' (Unix_path (take 107 (sbindto sv)))] @ [C_chdir (smount sv)]) p1 p2"
      using made_trans by metis
    then show ?thesis using AF_LOCAL by (auto simp: address_calls_def)
  qed (use 2 setup_inet_made in \<open>auto simp: setup_AF_INET_def setup_AF_INET6_def\<close>)
  then obtain cs where cs: "address_calls K sv l (calls p @ [C_socket ?d]) cs" "made K cs p1 p2" by (auto simp: c l)
  have "made K [C_socket ?d] p p1" "made K [C_getfl l] p3 p4" "made K [C_setfl l (or f O_NONBLOCK)] p4 p5" "made K [C_listen l (slistenq sv)] p5 q"
    using must_made [OF 1] must_made [OF 4] must_made [OF 5] must_made [OF 6] l by simp_all
  then have "made K ([C_socket ?d] @ cs @ keepalive_calls sv l @ [C_getfl l] @ [C_setfl l (or f O_NONBLOCK)] @ [C_listen l (slistenq sv)]) p q"
    using cs(2) keepalive_made [OF 3] l made_trans by metis
  then show ?thesis using cs(1) by auto
qed

lemma sigmask_made:
  assumes "sigmask_caller K b p = (Inr x, q)"
  shows "made K [C_sigmask b] p q"
proof -
  obtain r where "sys K (C_sigmask b) p = (Inr r, q)" "r = 0"
    using assms by (auto simp: sigmask_caller_def then_run_Inr split: if_splits)
  then show ?thesis by (auto simp: sys_def made_def Let_def)
qed

lemma address_neutral: "address_calls K sv l h cs \<Longrightarrow> c \<in> set cs \<Longrightarrow> effect c p = p"
  by (cases "sdomain sv = AF_LOCAL") (auto simp: address_calls_def)

lemma keepalive_neutral: "c \<in> set (keepalive_calls sv l) \<Longrightarrow> effect c p = p"
  by (cases "skeepalive sv") (auto simp: keepalive_calls_def split: if_splits)

lemma root_giveup_made:
  assumes "root_giveup K u g p = (Inr x, q)"
  shows "calls q = calls p @ [C_setegid g, C_seteuid u, C_stat]" "granted K (calls p) [C_setegid g, C_seteuid u, C_stat]"
    "euid q = u" "egid q = g" "u \<noteq> 0" "st_uid (directory K (calls q)) \<noteq> u" "st_gid (directory K (calls q)) \<noteq> g"
    "\<not> iwoth (directory K (calls q))"
proof -
  obtain r1 p1 r2 p2 r3 p3 where 1: "must K (C_setegid g) p = (Inr r1, p1)" and 2: "must K (C_seteuid u) p1 = (Inr r2, p2)"
    and 3: "must K C_stat p2 = (Inr r3, p3)" and 4: "(let st = directory K (calls p3)
       in if euid p3 = 0 then fail (Exit 1) p3 else if st_uid st = euid p3 then fail (Exit 1) p3
          else if st_gid st = egid p3 then fail (Exit 1) p3 else if iwoth st then fail (Exit 1) p3 else ret () p3) = (Inr (), q)"
    using assms by (auto simp: root_giveup_def untrusted_sanity_checks_def then_run_Inr)
  have p3: "calls p3 = calls p @ [C_setegid g, C_seteuid u, C_stat]" "euid p3 = u" "egid p3 = g"
    and ok: "granted K (calls p) [C_setegid g, C_seteuid u, C_stat]"
    using 1 2 3 by (simp_all add: must_Inr)
  have 5: "q = p3" "euid p3 \<noteq> 0" "st_uid (directory K (calls p3)) \<noteq> euid p3" "st_gid (directory K (calls p3)) \<noteq> egid p3"
    "\<not> iwoth (directory K (calls p3))" using 4 by (simp_all add: Let_def split: if_splits)
  show "calls q = calls p @ [C_setegid g, C_seteuid u, C_stat]" "granted K (calls p) [C_setegid g, C_seteuid u, C_stat]"
    "euid q = u" "egid q = g" "u \<noteq> 0" "st_uid (directory K (calls q)) \<noteq> u" "st_gid (directory K (calls q)) \<noteq> g"
    "\<not> iwoth (directory K (calls q))" using 5 p3 ok by auto
qed

text \<open>C22. The start of the server, whatever the kernel answers. If it goes through, these calls were made and no
  others, each let through: the socket is bound to the first interface that fits, or to the path, listens and
  is nonblocking; all of that under the ids the process came with. Only then are the group and the user given
  up, in this order; after that the effective user is not the superuser, and the current directory belongs to
  neither and cannot be written by others.\<close>

theorem serve_privileges:
  assumes run: "serve_start K sv p = (Inr l, q)"
  shows "\<exists>cs f. address_calls K sv l (calls p @ [C_sigmask BLOCK_ALL, C_socket (sdomain sv)]) cs \<and>
    (let bound = [C_socket (sdomain sv)] @ cs @ keepalive_calls sv l @ [C_getfl l, C_setfl l (or f O_NONBLOCK), C_listen l (slistenq sv)]
     in calls q = calls p @ [C_sigmask BLOCK_ALL] @ bound @ [C_setegid (sgid sv), C_seteuid (suid sv), C_stat] \<and>
       granted K (calls p) ([C_sigmask BLOCK_ALL] @ bound @ [C_setegid (sgid sv), C_seteuid (suid sv), C_stat]) \<and>
       (\<forall>c \<in> set bound. effect c p = p)) \<and>
    euid q = suid sv \<and> egid q = sgid sv \<and> euid q \<noteq> 0 \<and>
    (let st = directory K (calls q) in st_uid st \<noteq> euid q \<and> st_gid st \<noteq> egid q \<and> \<not> iwoth st)"
proof -
  obtain p1 p2 where 1: "sigmask_caller K BLOCK_ALL p = (Inr (), p1)" and 2: "socket_bind_listen K sv p1 = (Inr l, p2)"
    and 3: "root_giveup K (suid sv) (sgid sv) p2 = (Inr (), q)"
    using run by (auto simp: serve_start_def then_run_Inr)
  have m: "made K [C_sigmask BLOCK_ALL] p p1" by (rule sigmask_made [OF 1])
  obtain cs f where cs: "address_calls K sv l (calls p1 @ [C_socket (sdomain sv)]) cs"
    "made K (C_socket (sdomain sv) # cs @ keepalive_calls sv l @ [C_getfl l, C_setfl l (or f O_NONBLOCK), C_listen l (slistenq sv)]) p1 p2"
    using socket_bind_listen_made [OF 2] by blast
  let ?b = "[C_socket (sdomain sv)] @ cs @ keepalive_calls sv l @ [C_getfl l, C_setfl l (or f O_NONBLOCK), C_listen l (slistenq sv)]"
  have m2: "made K ([C_sigmask BLOCK_ALL] @ ?b) p p2" using made_trans [OF m cs(2)] by simp
  have calls: "calls p2 = calls p @ [C_sigmask BLOCK_ALL] @ ?b" and ok: "granted K (calls p) ([C_sigmask BLOCK_ALL] @ ?b)"
    using m2 by (simp_all add: made_def)
  have p1: "calls p1 = calls p @ [C_sigmask BLOCK_ALL]" using m by (simp add: made_def)
  have id: "effect c p = p" if "c \<in> set ?b" for c
  proof -
    from that consider "c \<in> set cs" | "c \<in> set (keepalive_calls sv l)"
      | "c \<in> set [C_socket (sdomain sv), C_getfl l, C_setfl l (or f O_NONBLOCK), C_listen l (slistenq sv)]" by (simp only: set_append Un_iff set_simps) blast
    then show ?thesis by cases (use address_neutral [OF cs(1)] keepalive_neutral in auto)
  qed
  note q = root_giveup_made [OF 3]
  show ?thesis unfolding Let_def
    using cs(1) q calls ok id by (intro exI [of _ cs] exI [of _ f] conjI ballI) (simp_all add: p1 granted_append)
qed

text \<open>A kernel that answers 3 for the socket and 0 otherwise, with two interfaces, and a directory of the
  superuser's.\<close>

definition a_kernel :: kernel where
  "a_kernel = \<lparr>answer = (\<lambda>h c. case c of C_socket d \<Rightarrow> 3 | _ \<Rightarrow> 0),
    interfaces = (\<lambda>h. [\<lparr>ifa_name = ''lo'', ifa_addr = Some (AF_INET, 1)\<rparr>, \<lparr>ifa_name = ''eth0'', ifa_addr = Some (AF_INET, 77)\<rparr>]),
    directory = (\<lambda>h. \<lparr>st_uid = 0, st_gid = 0, iwoth = False\<rparr>), workdir = (\<lambda>h. ''/'')\<rparr>"

definition a_server :: server where
  "a_server = \<lparr>sdomain = AF_INET, sbindto = ''80'', smount = ''.'', ssockdir = [], sifnam = Some ''eth0'', slistenq = 10, snworkers = 2,
    skeepalive = (1, -1, -1), spreallocMB = 10, scacheszMB = 10, ssigflush = 18, ssigdl_int = 12, ssigdl_ext = 10, shaltsigs = [2, 15],
    suid = 9999, sgid = 9999\<rparr>"

definition a_start :: proc where
  "a_start = \<lparr>calls = [], euid = 0, egid = 0\<rparr>"

definition a_started :: proc where
  "a_started = snd (serve_start a_kernel a_server a_start)"

lemma serve_privileges_witness:
  "serve_start a_kernel a_server a_start = (Inr 3, a_started) \<and>
    (\<exists>cs f. address_calls a_kernel a_server 3 (calls a_start @ [C_sigmask BLOCK_ALL, C_socket (sdomain a_server)]) cs \<and>
    (let bound = [C_socket (sdomain a_server)] @ cs @ keepalive_calls a_server 3 @
        [C_getfl 3, C_setfl 3 (or f O_NONBLOCK), C_listen 3 (slistenq a_server)]
     in calls a_started = calls a_start @ [C_sigmask BLOCK_ALL] @ bound @ [C_setegid (sgid a_server), C_seteuid (suid a_server), C_stat] \<and>
       granted a_kernel (calls a_start) ([C_sigmask BLOCK_ALL] @ bound @ [C_setegid (sgid a_server), C_seteuid (suid a_server), C_stat]) \<and>
       (\<forall>c \<in> set bound. effect c a_start = a_start)) \<and>
    euid a_started = suid a_server \<and> egid a_started = sgid a_server \<and> euid a_started \<noteq> 0 \<and>
    (let st = directory a_kernel (calls a_started) in st_uid st \<noteq> euid a_started \<and> st_gid st \<noteq> egid a_started \<and> \<not> iwoth st))"
proof -
  have "fst (serve_start a_kernel a_server a_start) = Inr 3" by code_simp
  then have run: "serve_start a_kernel a_server a_start = (Inr 3, a_started)" unfolding a_started_def by (metis prod.collapse)
  show ?thesis by (rule conjI [OF run serve_privileges [OF run]])
qed

text \<open>Names and numbers that are not what they seem: the interface \<open>eth1\<close> is taken for \<open>eth10\<close>, and a port that is
  too large is not refused.\<close>

lemma eth1_for_eth10:
  "pick_if AF_INET (Some ''eth10'') [\<lparr>ifa_name = ''eth1'', ifa_addr = Some (AF_INET, a)\<rparr>, \<lparr>ifa_name = ''eth10'', ifa_addr = Some (AF_INET, b)\<rparr>] =
    Inr (Some a)"
  by simp

lemma port_wraps: "atoi (show_nat 65616) = Inr 65616" "(of_int 65616 :: 16 word) = 80"
  using atoi_show [of 65616] by simp_all

section \<open>A turn of the server\<close>

text \<open>A handler is entered for a signal; a new signal must be one that exists.\<close>

definition push_signal :: "int \<Rightarrow> handler \<Rightarrow> sched \<Rightarrow> exc + sched" where
  "push_signal n h s =
     (if (n < 0 \<or> sighandlers s (nat n) = None) \<and> \<not> valid_sig n then Inl (Exit 1) else Inr (push_sighandler (nat n) h s))"

definition cache_bytes :: "server \<Rightarrow> size_t" where
  "cache_bytes sv = scacheszMB sv * 2 ^ 20"

definition prealloc_bytes :: "server \<Rightarrow> size_t" where
  "prealloc_bytes sv = spreallocMB sv * 2 ^ 20"

definition onstartup :: "server \<Rightarrow> sched \<Rightarrow> exc + sched" where
  "onstartup sv s = push_signal (ssigflush sv) Server_flush s"

definition push_haltsigs :: "server \<Rightarrow> sched \<Rightarrow> exc + sched" where
  "push_haltsigs sv s = fold_res (\<lambda>n. if n \<in> set (shaltsigs sv) then push_signal n Server_halt else Inr) [1..64] s"

text \<open>The scheduler of a turn, before its thread is started: 100 events at a time.\<close>

definition turn_sched :: "server \<Rightarrow> fd list \<Rightarrow> exc + sched" where
  "turn_sched sv ds =
     bind_res (onstartup sv (sched_new (nat (snworkers sv)) 100 ds (\<lambda>_. None))) (\<lambda>s.
     bind_res (push_haltsigs sv s) (\<lambda>s.
     if ssigdl_ext sv \<noteq> -1 then push_signal (ssigdl_ext sv) Server_yank s else Inr s))"

text \<open>Which handler a signal has in the end: the emergency goes before the halt, the halt before the flush.\<close>

definition turn_handlers :: "server \<Rightarrow> nat \<Rightarrow> handler option" where
  "turn_handlers sv n =
     (if ssigdl_ext sv \<noteq> -1 \<and> int n = ssigdl_ext sv then Some Server_yank
      else if int n \<in> set (shaltsigs sv) \<and> 1 \<le> n \<and> n \<le> 64 then Some Server_halt
      else if int n = ssigflush sv then Some Server_flush else None)"

lemma push_signal_Inr:
  "push_signal n h s = Inr t \<Longrightarrow> t = s\<lparr>sighandlers := (sighandlers s)(nat n \<mapsto> h)\<rparr> \<and> (0 \<le> n)"
  by (auto simp: push_signal_def push_sighandler_def valid_sig_def split: if_splits)

lemma push_haltsigs_Inr:
  assumes "fold_res (\<lambda>n. if n \<in> set (shaltsigs sv) then push_signal n Server_halt else Inr) ns s = Inr t"
  shows "t = s\<lparr>sighandlers := (\<lambda>n. if int n \<in> set (shaltsigs sv) \<and> int n \<in> set ns then Some Server_halt else sighandlers s n)\<rparr>"
  using assms
proof (induction ns arbitrary: s)
  case (Cons k ns)
  show ?case
  proof (cases "k \<in> set (shaltsigs sv)")
    case True
    then obtain u where u: "push_signal k Server_halt s = Inr u" "fold_res (\<lambda>n. if n \<in> set (shaltsigs sv) then push_signal n Server_halt else Inr) ns u = Inr t"
      using Cons.prems by (auto simp: bind_res_Inr)
    show ?thesis using Cons.IH [OF u(2)] push_signal_Inr [OF u(1)] True by (auto intro!: arg_cong [where f = "\<lambda>h. s\<lparr>sighandlers := h\<rparr>"] simp: fun_eq_iff)
  next
    case False
    then have "fold_res (\<lambda>n. if n \<in> set (shaltsigs sv) then push_signal n Server_halt else Inr) ns s = Inr t" using Cons.prems by simp
    from Cons.IH [OF this] show ?thesis using False by (auto intro!: arg_cong [where f = "\<lambda>h. s\<lparr>sighandlers := h\<rparr>"] simp: fun_eq_iff)
  qed
qed simp

lemma sched_new_handlers: "(sched_new n m ds g)\<lparr>sighandlers := h\<rparr> = sched_new n m ds h" "sighandlers (sched_new n m ds h) = h"
  by (simp_all add: sched_new_def)

lemma turn_sched_handlers:
  assumes "turn_sched sv ds = Inr s"
  shows "s = sched_new (nat (snworkers sv)) 100 ds (turn_handlers sv)"
proof -
  let ?N = "sched_new (nat (snworkers sv)) 100 ds"
  obtain s1 s2 where 1: "push_signal (ssigflush sv) Server_flush (?N (\<lambda>_. None)) = Inr s1" and 2: "push_haltsigs sv s1 = Inr s2"
    and 3: "(if ssigdl_ext sv \<noteq> -1 then push_signal (ssigdl_ext sv) Server_yank s2 else Inr s2) = Inr s"
    using assms unfolding turn_sched_def onstartup_def bind_res_Inr by blast
  define h1 where "h1 = [nat (ssigflush sv) \<mapsto> Server_flush]"
  define h2 where "h2 = (\<lambda>n. if int n \<in> set (shaltsigs sv) \<and> int n \<in> {1..64} then Some Server_halt else h1 n)"
  have f: "s1 = ?N h1" "0 \<le> ssigflush sv" using push_signal_Inr [OF 1] by (simp_all add: sched_new_handlers h1_def)
  have s2: "s2 = ?N h2"
    using push_haltsigs_Inr [OF 2 [unfolded push_haltsigs_def], unfolded set_upto] unfolding f sched_new_handlers h2_def .
  show ?thesis
  proof (cases "ssigdl_ext sv = -1")
    case True
    then have "h2 = turn_handlers sv" using f(2) by (auto simp: turn_handlers_def h1_def h2_def fun_eq_iff)
    then show ?thesis using 3 True s2 by simp
  next
    case False
    then have 4: "push_signal (ssigdl_ext sv) Server_yank s2 = Inr s" using 3 by simp
    have "0 \<le> ssigdl_ext sv" using push_signal_Inr [OF 4] by blast
    then have "h2(nat (ssigdl_ext sv) \<mapsto> Server_yank) = turn_handlers sv"
      using f(2) False by (auto simp: turn_handlers_def h1_def h2_def fun_eq_iff)
    then show ?thesis using push_signal_Inr [OF 4] unfolding s2 sched_new_handlers by simp
  qed
qed

text \<open>
  What the loop of \<open>serve\<close> has between its turns: the open descriptors and whether to go on. In a turn the
  queue, the map of works and the scheduler are new; \<open>signalfd\<close> gives a descriptor that was not open; the
  scheduler's thread and the workers run, in any interleaving, until the destructor of the pool has seen
  every worker leave, which a worker does when \<open>Worker::work\<close> returns; the scheduler's thread is joined, and the map
  is deleted before the scheduler and the queue. A turn in which the emergency interrupts the workers, or in
  which a worker uses a work that it has no more (see \<open>used_after_reschedule\<close>), is left out.
\<close>

record loop =
  lopen :: "fd list"
  ldoserve :: bool

inductive serve_turn :: "server \<Rightarrow> fd \<Rightarrow> loop \<Rightarrow> loop \<Rightarrow> bool" for sv l where
  turn: "ldoserve x \<Longrightarrow> 0 \<le> sig \<Longrightarrow> sig \<notin> set (lopen x) \<Longrightarrow> turn_sched sv (sig # lopen x) = Inr s0 \<Longrightarrow>
    tpool_new (nat (snworkers sv)) (ssigdl_int sv) = Inr t0 \<Longrightarrow>
    sch_run l m (poll_start l sig s0) s \<Longrightarrow> pool_moves ms t0 = Some t \<Longrightarrow>
    \<forall>k < nat (snworkers sv). tpcs t ! k \<notin> {T_new, T_run} \<longrightarrow> wpcs s ! k = W_exit \<Longrightarrow>
    ppc t = P_done \<Longrightarrow> sch_pc s = S_done \<Longrightarrow> \<not> stray s \<Longrightarrow>
    serve_turn sv l x (x\<lparr>lopen := wopen (fw_clear no_enq l (fwork s)), ldoserve := doserve s\<rparr>)"

inductive serve_turns :: "server \<Rightarrow> fd \<Rightarrow> nat \<Rightarrow> loop \<Rightarrow> loop \<Rightarrow> bool" for sv l where
  turns_none: "serve_turns sv l 0 x x"
| turns_more: "serve_turns sv l n x y \<Longrightarrow> serve_turn sv l y z \<Longrightarrow> serve_turns sv l (Suc n) x z"

inductive_cases serve_turnE: "serve_turn sv l x y"

lemma turn_leaves:
  assumes l: "0 \<le> l" "l \<in> set (lopen x)" "distinct (lopen x)" and turn: "serve_turn sv l x y"
  shows "ldoserve x" "l \<in> set (lopen y)" "distinct (lopen y)" "set (lopen y) \<subseteq> set (lopen x)"
    "ldoserve y \<or> (\<exists>n. turn_handlers sv n = Some Server_halt)"
proof -
  let ?k = "nat (snworkers sv)"
  obtain sig s0 t0 m s ms t where go: "ldoserve x" and sig: "0 \<le> sig" "sig \<notin> set (lopen x)" and s0: "turn_sched sv (sig # lopen x) = Inr s0"
    and t0: "tpool_new ?k (ssigdl_int sv) = Inr t0" and run: "sch_run l m (poll_start l sig s0) s" and run': "pool_moves ms t0 = Some t"
    and tied: "\<forall>k < ?k. tpcs t ! k \<notin> {T_new, T_run} \<longrightarrow> wpcs s ! k = W_exit" and over: "ppc t = P_done" "sch_pc s = S_done" and fine: "\<not> stray s"
    and y: "y = x\<lparr>lopen := wopen (fw_clear no_enq l (fwork s)), ldoserve := doserve s\<rparr>"
    using turn by (auto elim!: serve_turnE)
  have fds: "0 \<le> l" "0 \<le> sig" "l \<noteq> sig" "l \<in> set (sig # lopen x)" "sig \<in> set (sig # lopen x)" "distinct (sig # lopen x)"
    using l sig by auto
  have start: "poll_start l sig s0 = sch_start ?k 100 l sig (sig # lopen x) (turn_handlers sv)"
    using turn_sched_handlers [OF s0] by (simp add: sch_start_def)
  have r: "sch_run l m (sch_start ?k 100 l sig (sig # lopen x) (turn_handlers sv)) s" using run by (simp only: start)
  have "length (wpcs s) = ?k" using run_length [OF r] sch_start_inv(6) [OF fds] by simp
  moreover have "wpcs s ! k = W_exit" if "k < ?k" for k using pool_joined [OF t0 run' over(1)] tied that by blast
  ultimately have exit: "wpcs s = replicate ?k W_exit" by (simp add: list_eq_iff_nth_eq)
  note e = turn_end [OF fds r over(2) exit fine]
  show "ldoserve x" by (fact go)
  show "l \<in> set (lopen y)" "distinct (lopen y)" "set (lopen y) \<subseteq> set (lopen x)" using e(4-6) by (auto simp: y)
  show "ldoserve y \<or> (\<exists>n. turn_handlers sv n = Some Server_halt)"
    using run_told [OF r sch_start_told [OF fds]] by (simp add: y told_def)
qed


text \<open>A turn with two workers that the signal 15 ends.\<close>

definition a_turn :: "move list" where
  "a_turn = [M_deliver [(4, rd_ev)], M_signal [15], M_take 0, M_go 0, M_take 1, M_go 1]"


end
