(* ===== verification/Time_nr.thy ===== *)
theory Time_nr
  imports Streams
begin

text \<open>
  \<open>Time_nr.hpp\<close>, \<open>Time_nr.cpp\<close>: printing and reading dates. The functions of the C library behind them are
  given as the GNU library defines them in the C locale: \<open>gmtime_r\<close>, \<open>strftime\<close>, \<open>strptime\<close> and \<open>mktime\<close>, the latter for a
  time zone at a constant distance from Greenwich.
\<close>

section \<open>The calendar\<close>

text \<open>Broken-down time as in \<open>struct tm\<close>: the month and the weekday start with 0, the year with 1900.\<close>

record tm =
  tm_sec :: int
  tm_min :: int
  tm_hour :: int
  tm_mday :: int
  tm_mon :: int
  tm_year :: int
  tm_wday :: int

definition tm_zero :: tm where
  "tm_zero = \<lparr>tm_sec = 0, tm_min = 0, tm_hour = 0, tm_mday = 0, tm_mon = 0, tm_year = 0, tm_wday = 0\<rparr>"

definition leap :: "int \<Rightarrow> bool" where
  "leap y \<longleftrightarrow> y mod 4 = 0 \<and> (y mod 100 \<noteq> 0 \<or> y mod 400 = 0)"

definition year_len :: "int \<Rightarrow> nat" where
  "year_len y = (if leap y then 366 else 365)"

definition month_lens :: "int \<Rightarrow> nat list" where
  "month_lens y = [31, if leap y then 29 else 28, 31, 30, 31, 30, 31, 31, 30, 31, 30, 31]"

text \<open>The year and the day in it, from the first day of a year on; the month and the day in it.\<close>

function year_of :: "int \<Rightarrow> nat \<Rightarrow> int \<times> nat" where
  "year_of y d = (if d < year_len y then (y, d) else year_of (y + 1) (d - year_len y))"
  by auto
termination by (relation "measure snd") (auto simp: year_len_def split: if_splits)

declare year_of.simps [simp del]

fun month_of :: "nat list \<Rightarrow> nat \<Rightarrow> nat \<times> nat" where
  "month_of [] d = (0, d)"
| "month_of (l # ls) d = (if d < l then (0, d) else let (m, r) = month_of ls (d - l) in (m + 1, r))"

text \<open>The calendar repeats itself every 400 years, which are 146097 days. The year must be an \<open>int\<close>.\<close>

definition gmtime_r :: "time_t \<Rightarrow> tm option" where
  "gmtime_r t =
     (let days = t div 86400; s = t mod 86400; (y, yd) = year_of 1970 (nat (days mod 146097)); year = y + 400 * (days div 146097);
          (m, md) = month_of (month_lens year) yd
      in if - (2 ^ 31) \<le> year - 1900 \<and> year - 1900 < 2 ^ 31
         then Some \<lparr>tm_sec = s mod 60, tm_min = s div 60 mod 60, tm_hour = s div 3600, tm_mday = int md + 1, tm_mon = int m,
           tm_year = year - 1900, tm_wday = (4 + days) mod 7\<rparr>
         else None)"

text \<open>\<open>mktime\<close> of a local time \<open>off\<close> seconds east of Greenwich; what is too large in a field counts on.\<close>

definition days_before :: "int \<Rightarrow> int" where
  "days_before year =
     146097 * ((year - 1970) div 400) + int (sum_list (map (\<lambda>k. year_len (1970 + int k)) [0..<nat ((year - 1970) mod 400)]))"

definition mktime :: "int \<Rightarrow> tm \<Rightarrow> time_t" where
  "mktime off tm =
     (let year = tm_year tm + 1900; days = days_before year + int (sum_list (take (nat (tm_mon tm)) (month_lens year))) + tm_mday tm - 1
      in days * 86400 + tm_hour tm * 3600 + tm_min tm * 60 + tm_sec tm - off)"

section \<open>Formats\<close>

definition ab_days :: "string list" where
  "ab_days = [''Sun'', ''Mon'', ''Tue'', ''Wed'', ''Thu'', ''Fri'', ''Sat'']"

definition full_days :: "string list" where
  "full_days = [''Sunday'', ''Monday'', ''Tuesday'', ''Wednesday'', ''Thursday'', ''Friday'', ''Saturday'']"

definition ab_months :: "string list" where
  "ab_months = [''Jan'', ''Feb'', ''Mar'', ''Apr'', ''May'', ''Jun'', ''Jul'', ''Aug'', ''Sep'', ''Oct'', ''Nov'', ''Dec'']"

definition full_months :: "string list" where
  "full_months = [''January'', ''February'', ''March'', ''April'', ''May'', ''June'', ''July'', ''August'', ''September'',
    ''October'', ''November'', ''December'']"

definition two :: "int \<Rightarrow> string" where
  "two n = [char_of (48 + nat n div 10), char_of (48 + nat n mod 10)]"

definition show_year :: "int \<Rightarrow> string" where
  "show_year y = (if y < 0 then ''-'' @ show_nat (nat (- y)) else show_nat (nat y))"

text \<open>The directives of the format in use. The zone of a time from \<open>gmtime_r\<close> is \<open>GMT\<close>.\<close>

definition put_field :: "char \<Rightarrow> tm \<Rightarrow> string" where
  "put_field c tm =
     (if c = CHR ''a'' then ab_days ! nat (tm_wday tm)
      else if c = CHR ''d'' then two (tm_mday tm)
      else if c = CHR ''b'' then ab_months ! nat (tm_mon tm)
      else if c = CHR ''Y'' then show_year (tm_year tm + 1900)
      else if c = CHR ''H'' then two (tm_hour tm)
      else if c = CHR ''M'' then two (tm_min tm)
      else if c = CHR ''S'' then two (tm_sec tm)
      else ''GMT'')"

fun strftime :: "string \<Rightarrow> tm \<Rightarrow> string" where
  "strftime [] tm = []"
| "strftime (c # f) tm =
     (if c = CHR ''%'' then (case f of [] \<Rightarrow> [] | d # f' \<Rightarrow> put_field d tm @ strftime f' tm)
      else c # strftime f tm)"

text \<open>A number of at most \<open>n\<close> digits between two bounds, after white space. It ends where another digit could
  only be too much.\<close>

fun get_digits :: "nat \<Rightarrow> int \<Rightarrow> int \<Rightarrow> string \<Rightarrow> int \<times> string" where
  "get_digits 0 hi v s = (v, s)"
| "get_digits (Suc n) hi v [] = (v, [])"
| "get_digits (Suc n) hi v (c # s) =
     (case digit_val c of
        None \<Rightarrow> (v, c # s)
      | Some d \<Rightarrow> if v * 10 \<le> hi then get_digits n hi (v * 10 + int d) s else (v, c # s))"

definition get_number :: "int \<Rightarrow> int \<Rightarrow> nat \<Rightarrow> string \<Rightarrow> (int \<times> string) option" where
  "get_number lo hi n s =
     (case dropWhile isspace s of
        [] \<Rightarrow> None
      | c # s \<Rightarrow>
          (case digit_val c of
             None \<Rightarrow> None
           | Some d \<Rightarrow> (case get_digits (n - 1) hi (int d) s of (v, s) \<Rightarrow> if lo \<le> v \<and> v \<le> hi then Some (v, s) else None)))"

text \<open>A name, in either form and any case.\<close>

definition match_string :: "string \<Rightarrow> string \<Rightarrow> string option" where
  "match_string name s = (if prefix (map to_lower name) (map to_lower s) then Some (drop (length name) s) else None)"

fun get_name :: "int \<Rightarrow> string list \<Rightarrow> string list \<Rightarrow> string \<Rightarrow> (int \<times> string) option" where
  "get_name k (full # fulls) (ab # abbrs) s =
     (case match_string full s of
        Some r \<Rightarrow> Some (k, r)
      | None \<Rightarrow> (case match_string ab s of Some r \<Rightarrow> Some (k, r) | None \<Rightarrow> get_name (k + 1) fulls abbrs s))"
| "get_name k _ _ s = None"

definition get_field :: "char \<Rightarrow> tm \<Rightarrow> string \<Rightarrow> (tm \<times> string) option" where
  "get_field c tm s =
     (if c = CHR ''a'' then map_option (\<lambda>(v, r). (tm\<lparr>tm_wday := v\<rparr>, r)) (get_name 0 full_days ab_days s)
      else if c = CHR ''d'' then map_option (\<lambda>(v, r). (tm\<lparr>tm_mday := v\<rparr>, r)) (get_number 1 31 2 s)
      else if c = CHR ''b'' then map_option (\<lambda>(v, r). (tm\<lparr>tm_mon := v\<rparr>, r)) (get_name 0 full_months ab_months s)
      else if c = CHR ''Y'' then map_option (\<lambda>(v, r). (tm\<lparr>tm_year := v - 1900\<rparr>, r)) (get_number 0 9999 4 s)
      else if c = CHR ''H'' then map_option (\<lambda>(v, r). (tm\<lparr>tm_hour := v\<rparr>, r)) (get_number 0 23 2 s)
      else if c = CHR ''M'' then map_option (\<lambda>(v, r). (tm\<lparr>tm_min := v\<rparr>, r)) (get_number 0 59 2 s)
      else if c = CHR ''S'' then map_option (\<lambda>(v, r). (tm\<lparr>tm_sec := v\<rparr>, r)) (get_number 0 61 2 s)
      else Some (tm, dropWhile (\<lambda>c. \<not> isspace c) (dropWhile isspace s)))"

fun strptime :: "string \<Rightarrow> tm \<Rightarrow> string \<Rightarrow> (tm \<times> string) option" where
  "strptime [] tm s = Some (tm, s)"
| "strptime (c # f) tm s =
     (if isspace c then strptime f tm (dropWhile isspace s)
      else if c = CHR ''%'' then (case f of [] \<Rightarrow> None | d # f' \<Rightarrow> Option.bind (get_field d tm s) (\<lambda>(tm, s). strptime f' tm s))
      else (case s of [] \<Rightarrow> None | c' # s' \<Rightarrow> if c' = c then strptime f tm s' else None))"

section \<open>The class\<close>

definition RFC822 :: string where
  "RFC822 = ''%a, %d %b %Y %H:%M:%S %Z''"

definition bufsz :: nat where
  "bufsz = 64"

text \<open>\<open>print\<close>: \<open>None\<close> where the result is not defined, which is when \<open>gmtime_r\<close> fails, as \<open>strftime\<close> is then given a
  null pointer, or when the text and its NUL do not fit.\<close>

definition date_print :: "time_t \<Rightarrow> string option" where
  "date_print t = Option.bind (gmtime_r t) (\<lambda>tm. let s = strftime RFC822 tm in if length s < bufsz then Some s else None)"

definition date_scan :: "int \<Rightarrow> string \<Rightarrow> time_t" where
  "date_scan off s = (case strptime RFC822 tm_zero s of None \<Rightarrow> 0 | Some (tm, r) \<Rightarrow> mktime off tm)"

section \<open>Days and back\<close>

lemma year_of_inverse:
  assumes "year_of y d = (y', r)"
  shows "\<exists>n. y' = y + int n \<and> r < year_len y' \<and> d = sum_list (map (\<lambda>k. year_len (y + int k)) [0..<n]) + r"
  using assms
proof (induction y d rule: year_of.induct)
  case (1 y d)
  show ?case
  proof (cases "d < year_len y")
    case True
    then show ?thesis using 1(2) by (intro exI [of _ 0]) (simp add: year_of.simps [of y d])
  next
    case False
    then have "year_of (y + 1) (d - year_len y) = (y', r)" using 1(2) by (simp add: year_of.simps [of y d])
    from 1(1) [OF False this] obtain n where n: "y' = y + 1 + int n" "r < year_len y'"
      "d - year_len y = sum_list (map (\<lambda>k. year_len (y + 1 + int k)) [0..<n]) + r" by blast
    have "[0..<Suc n] = 0 # map Suc [0..<n]" by (simp add: map_Suc_upt upt_conv_Cons del: upt_Suc)
    then have "sum_list (map (\<lambda>k. year_len (y + int k)) [0..<Suc n]) = year_len y + sum_list (map (\<lambda>k. year_len (y + 1 + int k)) [0..<n])"
      by (simp add: comp_def ac_simps del: upt_Suc)
    then show ?thesis using n False by (intro exI [of _ "Suc n"]) (simp del: upt_Suc)
  qed
qed

lemma month_of_inverse:
  assumes "month_of ls d = (m, r)" and "d < sum_list ls"
  shows "m < length ls \<and> r < ls ! m \<and> d = sum_list (take m ls) + r"
  using assms
proof (induction ls arbitrary: d m r)
  case (Cons l ls)
  show ?case
  proof (cases "d < l")
    case False
    obtain m' r' where m: "month_of ls (d - l) = (m', r')" by fastforce
    then have "m = m' + 1" "r = r'" using Cons.prems(1) False by simp_all
    moreover have "m' < length ls \<and> r' < ls ! m' \<and> d - l = sum_list (take m' ls) + r'" using Cons.IH [OF m] Cons.prems(2) False by simp
    moreover from this False have "d = l + sum_list (take m' ls) + r'" by linarith
    ultimately show ?thesis by simp
  qed (use Cons in simp)
qed simp

lemma sum_month_lens: "sum_list (month_lens y) = year_len y"
  by (simp add: month_lens_def year_len_def)

lemma leap_cycle: "leap (y + 400 * c) = leap y"
  using mod_mult_self2 [of y 4 "100 * c"] mod_mult_self2 [of y 100 "4 * c"] mod_mult_self2 [of y 400 c] by (simp add: leap_def)

lemma year_len_cycle: "year_len (y + 400 * c) = year_len y"
  by (simp add: year_len_def leap_cycle)

lemma upt_add_split: "m \<le> n \<Longrightarrow> [0..<n] = [0..<m] @ [m..<n]"
  using upt_add_eq_append [of 0 m "n - m"] by simp

lemma sum_years_bound:
  assumes "sum_list (map (\<lambda>k. year_len (1970 + int k)) [0..<n]) < sum_list (map (\<lambda>k. year_len (1970 + int k)) [0..<m])"
  shows "n < m"
proof (rule ccontr)
  assume "\<not> n < m"
  then show False using assms upt_add_split [of m n] by simp
qed

lemma leap_from_1970: "leap (1970 + int n) \<longleftrightarrow> (n + 2) mod 4 = 0 \<and> ((n + 70) mod 100 \<noteq> 0 \<or> (n + 370) mod 400 = 0)"
proof -
  have "(1970 + int n) mod 4 = int ((n + 2) mod 4)" using mod_mult_self2 [of "int (n + 2)" 4 492] by (simp add: zmod_int algebra_simps)
  moreover have "(1970 + int n) mod 100 = int ((n + 70) mod 100)" using mod_mult_self2 [of "int (n + 70)" 100 19] by (simp add: zmod_int algebra_simps)
  moreover have "(1970 + int n) mod 400 = int ((n + 370) mod 400)" using mod_mult_self2 [of "int (n + 370)" 400 4] by (simp add: zmod_int algebra_simps)
  ultimately show ?thesis unfolding leap_def by (simp only: of_nat_eq_0_iff)
qed

text \<open>The days of the first years after 1970, in closed form.\<close>

lemma years_sum:
  "sum_list (map (\<lambda>k. year_len (1970 + int k)) [0..<n]) + (n + 69) div 100 = 365 * n + (n + 1) div 4 + (n + 369) div 400"
proof (induction n)
  case (Suc n)
  have "(Suc n + 1) div 4 = (n + 1) div 4 + (if (n + 2) mod 4 = 0 then 1 else 0)"
    "(Suc n + 69) div 100 = (n + 69) div 100 + (if (n + 70) mod 100 = 0 then 1 else 0)"
    "(Suc n + 369) div 400 = (n + 369) div 400 + (if (n + 370) mod 400 = 0 then 1 else 0)"
    using div_Suc [of "n + 1" 4] div_Suc [of "n + 69" 100] div_Suc [of "n + 369" 400] by (simp_all add: ac_simps)
  moreover have "(n + 370) mod 400 = 0 \<Longrightarrow> (n + 70) mod 100 = 0" "(n + 70) mod 100 = 0 \<Longrightarrow> (n + 2) mod 4 = 0"
    using dvd_trans [of 100 400 "n + 70 + 300"] dvd_add_left_iff [of 100 300 "n + 70"]
      dvd_trans [of 4 100 "n + 2 + 68"] dvd_add_left_iff [of 4 68 "n + 2"]
    by (simp_all add: mod_eq_0_iff_dvd ac_simps)
  moreover have "year_len (1970 + int n) + (if (n + 70) mod 100 = 0 then 1 else 0) =
    365 + (if (n + 2) mod 4 = 0 then 1 else 0) + (if (n + 370) mod 400 = 0 then 1 else 0)"
    using calculation(4,5) by (auto simp: year_len_def leap_from_1970)
  ultimately show ?case using Suc.IH by simp
qed simp

lemma years_400: "sum_list (map (\<lambda>k. year_len (1970 + int k)) [0..<400]) = 146097"
  using years_sum [of 400] by simp

lemma years_30: "sum_list (map (\<lambda>k. year_len (1970 + int k)) [0..<30]) = 10957"
  using years_sum [of 30] by simp

text \<open>The fields of a time before the year 10000, and what \<open>mktime\<close> makes of them.\<close>

definition tm_ok :: "tm \<Rightarrow> bool" where
  "tm_ok tm \<longleftrightarrow> 0 \<le> tm_sec tm \<and> tm_sec tm < 60 \<and> 0 \<le> tm_min tm \<and> tm_min tm < 60 \<and> 0 \<le> tm_hour tm \<and> tm_hour tm < 24 \<and>
     1 \<le> tm_mday tm \<and> tm_mday tm \<le> 31 \<and> 0 \<le> tm_mon tm \<and> tm_mon tm < 12 \<and> 70 \<le> tm_year tm \<and> tm_year tm < 8100 \<and>
     0 \<le> tm_wday tm \<and> tm_wday tm < 7"

lemma month_lens_le: "m < 12 \<Longrightarrow> month_lens y ! m \<le> 31"
proof -
  assume "m < 12"
  then have "month_lens y ! m \<in> set (month_lens y)" by (intro nth_mem) (simp add: month_lens_def)
  then show ?thesis by (auto simp: month_lens_def)
qed

lemma day_seconds:
  fixes s :: int
  shows "s div 3600 * 3600 + s div 60 mod 60 * 60 + s mod 60 = s"
proof -
  have "s div 3600 = s div 60 div 60" by (simp add: zdiv_zmult2_eq [symmetric])
  then show ?thesis using div_mult_mod_eq [of s 60] div_mult_mod_eq [of "s div 60" 60] by linarith
qed

lemma gmtime_mktime:
  assumes "0 \<le> t" and "t < 253402300800"
  shows "\<exists>tm. gmtime_r t = Some tm \<and> tm_ok tm \<and> (\<forall>off. mktime off tm = t - off)"
proof -
  define days where "days = t div 86400"
  define s where "s = t mod 86400"
  define c where "c = days div 146097"
  define d where "d = nat (days mod 146097)"
  have days: "0 \<le> days" "days < 2932897" using assms by (simp_all add: days_def)
  have cd: "days = 146097 * c + int d" by (simp add: c_def d_def)
  have dlt: "d < 146097" by (simp add: d_def nat_less_iff)
  have c: "0 \<le> c" "c \<le> 20" using days cd dlt by simp_all
  obtain y yd where y: "year_of 1970 d = (y, yd)" by fastforce
  from year_of_inverse [OF y] obtain n where n: "y = 1970 + int n" "yd < year_len y"
    "d = sum_list (map (\<lambda>k. year_len (1970 + int k)) [0..<n]) + yd" by blast
  have n400: "n < 400" by (rule sum_years_bound) (use n(3) dlt in \<open>simp only: years_400\<close>)
  have n30: "c = 20 \<Longrightarrow> n < 30" by (rule sum_years_bound) (use n(3) days cd in \<open>simp only: years_30\<close>)
  define year where "year = y + 400 * c"
  obtain m md where m: "month_of (month_lens year) yd = (m, md)" by fastforce
  have "yd < sum_list (month_lens year)" using n(2) by (simp add: sum_month_lens year_def year_len_cycle)
  from month_of_inverse [OF m this] have md: "m < 12" "md < month_lens year ! m" "yd = sum_list (take m (month_lens year)) + md"
    by (simp_all add: month_lens_def)
  have "c \<le> 19 \<or> n < 30" using n30 c by linarith
  then have year: "1970 \<le> year" "year < 10000" using n(1) n400 c unfolding year_def by linarith+
  have before: "days_before year + int yd = days"
    using n n400 c cd by (simp add: days_before_def year_def)
  have s: "0 \<le> s" "s < 86400" by (simp_all add: s_def)
  let ?tm = "\<lparr>tm_sec = s mod 60, tm_min = s div 60 mod 60, tm_hour = s div 3600, tm_mday = int md + 1, tm_mon = int m,
     tm_year = year - 1900, tm_wday = (4 + days) mod 7\<rparr>"
  have "gmtime_r t = Some ?tm"
    using y m year by (simp add: gmtime_r_def Let_def days_def [symmetric] s_def [symmetric] d_def [symmetric] c_def [symmetric] year_def [symmetric])
  moreover have hour: "0 \<le> s div 3600" "s div 3600 < 24" using s by (simp_all add: div_less_iff_less_mult pos_imp_zdiv_nonneg_iff)
  moreover have "tm_ok ?tm" using s md month_lens_le [OF md(1), of year] year hour by (simp add: tm_ok_def)
  moreover have "mktime off ?tm = t - off" for off
  proof -
    have "days * 86400 + s = t" by (simp add: days_def s_def)
    then show ?thesis using before md(3) day_seconds [of s] by (simp add: mktime_def)
  qed
  ultimately show ?thesis by blast
qed

section \<open>Texts and back\<close>

lemma digit_val_two: "0 \<le> n \<Longrightarrow> n < 100 \<Longrightarrow> digit_val (char_of (48 + nat n div 10)) = Some (nat n div 10)"
  "digit_val (char_of (48 + nat n mod 10)) = Some (nat n mod 10)"
  by (simp_all add: digit_val_char_of)

lemma digit_not_white: "digit_val c = Some d \<Longrightarrow> \<not> isspace c"
  by (rule digit_not_space) simp

lemma get_number_two:
  assumes "0 \<le> n" "n < 100" "lo \<le> n" "n \<le> hi"
  shows "get_number lo hi 2 (two n @ r) = Some (n, r)"
proof -
  have "int (nat n div 10) * 10 \<le> hi" using assms by linarith
  moreover have "int (nat n div 10) * 10 + int (nat n mod 10) = n"
    using assms(1) div_mult_mod_eq [of "nat n" 10] by linarith
  ultimately show ?thesis
    using digit_val_two [of n] assms digit_not_white [OF digit_val_two(1)] by (simp add: get_number_def two_def numeral_2_eq_2)
qed

lemma show_four:
  assumes "1000 \<le> n" "n < 10000"
  shows "show_nat n = [char_of (48 + n div 1000), char_of (48 + n div 100 mod 10), char_of (48 + n div 10 mod 10), char_of (48 + n mod 10)]"
proof -
  have a: "\<not> n < 10" "\<not> n div 10 < 10" "\<not> n div 10 div 10 < 10" "n div 10 div 10 div 10 < 10" using assms by linarith+
  have "show_nat n = show_nat (n div 10 div 10 div 10) @ [char_of (48 + n div 10 div 10 mod 10)] @ [char_of (48 + n div 10 mod 10)] @ [char_of (48 + n mod 10)]"
    using a(1-3) by (simp add: show_nat.simps [of n] show_nat.simps [of "n div 10"] show_nat.simps [of "n div 10 div 10"])
  then show ?thesis using a(4) show_nat.simps [of "n div 10 div 10 div 10"] by (simp add: div_mult2_eq [symmetric])
qed

lemma get_number_digits:
  assumes "a < 10" and "b < 10" and "c < 10" and "d < 10"
  shows "get_number 0 9999 4 ([char_of (48 + a), char_of (48 + b), char_of (48 + c), char_of (48 + d)] @ r) =
    Some (int (((a * 10 + b) * 10 + c) * 10 + d), r)"
  using assms digit_not_white [OF digit_val_char_of [OF assms(1)]] by (simp add: get_number_def digit_val_char_of numeral_3_eq_3)

lemma get_number_four:
  assumes "1000 \<le> n" "n < 10000"
  shows "get_number 0 9999 4 (show_year n @ r) = Some (n, r)"
proof -
  define k where "k = nat n"
  have k: "1000 \<le> k" "k < 10000" "n = int k" using assms by (auto simp: k_def)
  have d: "k div 1000 < 10" "k div 100 mod 10 < 10" "k div 10 mod 10 < 10" "k mod 10 < 10" using k by simp_all
  have "k div 100 div 10 = k div 1000" "k div 10 div 10 = k div 100" by (simp_all add: div_mult2_eq [symmetric])
  then have "k div 1000 * 10 + k div 100 mod 10 = k div 100" "k div 100 * 10 + k div 10 mod 10 = k div 10"
    using div_mult_mod_eq [of "k div 10" 10] div_mult_mod_eq [of "k div 100" 10] by simp_all
  then have "((k div 1000 * 10 + k div 100 mod 10) * 10 + k div 10 mod 10) * 10 + k mod 10 = k"
    using div_mult_mod_eq [of k 10] by simp
  then show ?thesis
    using get_number_digits [OF d, of r] assms by (simp add: show_year_def k_def [symmetric] show_four [OF k(1,2)] k(3) [symmetric])
qed

lemma lower_letters:
  "to_lower CHR '' '' = CHR '' ''" "to_lower CHR '','' = CHR '',''" "to_lower CHR ''A'' = CHR ''a''" "to_lower CHR ''D'' = CHR ''d''"
  "to_lower CHR ''F'' = CHR ''f''" "to_lower CHR ''J'' = CHR ''j''" "to_lower CHR ''M'' = CHR ''m''" "to_lower CHR ''N'' = CHR ''n''"
  "to_lower CHR ''O'' = CHR ''o''" "to_lower CHR ''S'' = CHR ''s''" "to_lower CHR ''T'' = CHR ''t''" "to_lower CHR ''W'' = CHR ''w''"
  "to_lower CHR ''a'' = CHR ''a''" "to_lower CHR ''b'' = CHR ''b''" "to_lower CHR ''c'' = CHR ''c''" "to_lower CHR ''d'' = CHR ''d''"
  "to_lower CHR ''e'' = CHR ''e''" "to_lower CHR ''g'' = CHR ''g''" "to_lower CHR ''h'' = CHR ''h''" "to_lower CHR ''i'' = CHR ''i''"
  "to_lower CHR ''l'' = CHR ''l''" "to_lower CHR ''m'' = CHR ''m''" "to_lower CHR ''n'' = CHR ''n''" "to_lower CHR ''o'' = CHR ''o''"
  "to_lower CHR ''p'' = CHR ''p''" "to_lower CHR ''r'' = CHR ''r''" "to_lower CHR ''s'' = CHR ''s''" "to_lower CHR ''t'' = CHR ''t''"
  "to_lower CHR ''u'' = CHR ''u''" "to_lower CHR ''v'' = CHR ''v''" "to_lower CHR ''y'' = CHR ''y''"
  by code_simp+

lemma get_name_day: "k < 7 \<Longrightarrow> get_name 0 full_days ab_days (ab_days ! k @ CHR '','' # r) = Some (int k, CHR '','' # r)"
proof -
  assume "k < 7"
  then consider "k = 0" | "k = 1" | "k = 2" | "k = 3" | "k = 4" | "k = 5" | "k = 6" by linarith
  then show ?thesis by cases (simp_all add: full_days_def ab_days_def match_string_def lower_letters)
qed

lemma get_name_month: "k < 12 \<Longrightarrow> get_name 0 full_months ab_months (ab_months ! k @ CHR '' '' # r) = Some (int k, CHR '' '' # r)"
proof -
  assume "k < 12"
  then have "k = 0 \<or> k = 1 \<or> k = 2 \<or> k = 3 \<or> k = 4 \<or> k = 5 \<or> k = 6 \<or> k = 7 \<or> k = 8 \<or> k = 9 \<or> k = 10 \<or> k = 11"
    by presburger
  then show ?thesis by (elim disjE) (simp_all add: full_months_def ab_months_def match_string_def lower_letters)
qed

text \<open>The text of a date, its length and its characters.\<close>

lemma strftime_RFC822:
  "strftime RFC822 tm = ab_days ! nat (tm_wday tm) @ '', '' @ two (tm_mday tm) @ '' '' @ ab_months ! nat (tm_mon tm) @ '' '' @
     show_year (tm_year tm + 1900) @ '' '' @ two (tm_hour tm) @ '':'' @ two (tm_min tm) @ '':'' @ two (tm_sec tm) @ '' GMT''"
  by (simp add: RFC822_def put_field_def)

definition plain_text :: "string \<Rightarrow> bool" where
  "plain_text s \<longleftrightarrow> list_all (\<lambda>c. 32 \<le> (of_char c :: nat) \<and> (of_char c :: nat) < 127 \<and> c \<noteq> CHR ''/'') s"

lemma plain_text_append [simp]: "plain_text (s @ t) \<longleftrightarrow> plain_text s \<and> plain_text t"
  by (simp add: plain_text_def)

lemma names_length: "k < 7 \<Longrightarrow> length (ab_days ! k) = 3" "k < 12 \<Longrightarrow> length (ab_months ! k) = 3"
  "k < 7 \<Longrightarrow> plain_text (ab_days ! k)" "k < 12 \<Longrightarrow> plain_text (ab_months ! k)"
proof -
  have l: "list_all (\<lambda>s. length s = 3 \<and> plain_text s) ab_days" "list_all (\<lambda>s. length s = 3 \<and> plain_text s) ab_months"
    "length ab_days = 7" "length ab_months = 12"
    by code_simp+
  then show "k < 7 \<Longrightarrow> length (ab_days ! k) = 3" "k < 12 \<Longrightarrow> length (ab_months ! k) = 3"
    "k < 7 \<Longrightarrow> plain_text (ab_days ! k)" "k < 12 \<Longrightarrow> plain_text (ab_months ! k)"
    by (simp_all add: list_all_length)
qed

lemma digit_plain_text:
  assumes "n < 10"
  shows "plain_text [char_of (48 + n :: nat)]"
proof -
  have "char_of (48 + n) \<noteq> CHR ''/''"
  proof
    assume "char_of (48 + n) = CHR ''/''"
    then have "(of_char (char_of (48 + n) :: char) :: nat) = of_char (CHR ''/'')" by (rule arg_cong)
    then show False using assms by simp
  qed
  then show ?thesis using assms by (simp add: plain_text_def)
qed

lemma two_plain_text: "0 \<le> n \<Longrightarrow> n < 100 \<Longrightarrow> length (two n) = 2 \<and> plain_text (two n)"
  using digit_plain_text [of "nat n div 10"] digit_plain_text [of "nat n mod 10"] by (simp add: two_def plain_text_def)

lemma year_plain_text: "1000 \<le> n \<Longrightarrow> n < 10000 \<Longrightarrow> length (show_year n) = 4 \<and> plain_text (show_year n)"
proof -
  assume n: "1000 \<le> n" "n < 10000"
  then have "nat n div 1000 < 10" "1000 \<le> nat n" "nat n < 10000" by (simp_all add: nat_less_iff div_less_iff_less_mult nat_le_iff le_nat_iff)
  then show ?thesis
    using n digit_plain_text [of "nat n div 1000"] digit_plain_text [of "nat n div 100 mod 10"] digit_plain_text [of "nat n div 10 mod 10"]
      digit_plain_text [of "nat n mod 10"] show_four [of "nat n"]
    by (simp add: show_year_def plain_text_def)
qed

lemma date_text:
  assumes "tm_ok tm"
  shows "length (strftime RFC822 tm) = 29 \<and> plain_text (strftime RFC822 tm)"
proof -
  have "nat (tm_wday tm) < 7" "nat (tm_mon tm) < 12" using assms by (simp_all add: tm_ok_def nat_less_iff)
  note names = names_length(1,3) [OF this(1)] names_length(2,4) [OF this(2)]
  have p: "plain_text '', ''" "plain_text '' ''" "plain_text '':''" "plain_text '' GMT''" by code_simp+
  show ?thesis
    using assms names two_plain_text [of "tm_mday tm"]
      two_plain_text [of "tm_hour tm"] two_plain_text [of "tm_min tm"] two_plain_text [of "tm_sec tm"] year_plain_text [of "tm_year tm + 1900"] p
    by (simp add: tm_ok_def strftime_RFC822 del: append.simps)
qed

text \<open>Reading the text gives back every field.\<close>

lemma dropWhile_digit: "digit_val c = Some d \<Longrightarrow> dropWhile isspace (c # s) = c # s"
  by (simp add: digit_not_white)

lemma strptime_strftime:
  assumes "tm_ok tm"
  shows "strptime RFC822 tm_zero (strftime RFC822 tm) = Some (tm, [])"
proof -
  note ok = assms [unfolded tm_ok_def]
  have sp: "isspace CHR '' ''" "\<not> isspace CHR ''%''" "\<not> isspace CHR '':''" "\<not> isspace CHR '',''" "\<not> isspace CHR ''G''"
    "\<not> isspace CHR ''M''" "\<not> isspace CHR ''T''" by code_simp+
  have two: "dropWhile isspace (two n @ r) = two n @ r" if "0 \<le> n" "n < 100" for n r
    using digit_not_white [OF digit_val_two(1) [OF that]] by (simp add: two_def)
  have year: "dropWhile isspace (show_year n @ r) = show_year n @ r" if "1000 \<le> n" "n < 10000" for n r
    using that show_four [of "nat n"] digit_not_white [OF digit_val_char_of [of "nat n div 1000"]] by (simp add: show_year_def)
  have mon: "dropWhile isspace (ab_months ! k @ r) = ab_months ! k @ r" if "k < 12" for k r
  proof -
    have "list_all (\<lambda>s. s \<noteq> [] \<and> \<not> isspace (hd s)) ab_months" "length ab_months = 12" by code_simp+
    then have "ab_months ! k \<noteq> [] \<and> \<not> isspace (hd (ab_months ! k))" using that by (simp add: list_all_length)
    then show ?thesis by (cases "ab_months ! k") simp_all
  qed
  have k: "nat (tm_wday tm) < 7" "nat (tm_mon tm) < 12" using ok by (simp_all add: nat_less_iff)
  have tm: "tm = tm_zero\<lparr>tm_wday := tm_wday tm, tm_mday := tm_mday tm, tm_mon := tm_mon tm, tm_year := tm_year tm, tm_hour := tm_hour tm,
     tm_min := tm_min tm, tm_sec := tm_sec tm\<rparr>" by simp
  have "get_number lo hi 2 (two n @ r) = Some (n, r)" if "0 \<le> n" "n < 100" "lo \<le> n" "n \<le> hi" for lo hi n r
    using that by (rule get_number_two)
  note number = this get_number_four
  have day: "get_name 0 full_days ab_days (ab_days ! nat (tm_wday tm) @ CHR '','' # r) = Some (tm_wday tm, CHR '','' # r)"
    and month: "get_name 0 full_months ab_months (ab_months ! nat (tm_mon tm) @ CHR '' '' # r) = Some (tm_mon tm, CHR '' '' # r)" for r
    using get_name_day [OF k(1), of r] get_name_month [OF k(2), of r] ok by simp_all
  show ?thesis
    using ok by (simp add: RFC822_def put_field_def get_field_def sp two year mon [OF k(2)] number day month)
qed

section \<open>Printing and reading a date\<close>

lemma date_text_read:
  assumes "0 \<le> t" and "t < 253402300800"
  shows "\<exists>s. date_print t = Some s \<and> length s = 29 \<and> plain_text s \<and> (\<forall>off. date_scan off s = t - off)"
proof -
  obtain tm where tm: "gmtime_r t = Some tm" "tm_ok tm" "\<forall>off. mktime off tm = t - off" using gmtime_mktime [OF assms] by blast
  then show ?thesis
    using date_text [OF tm(2)] strptime_strftime [OF tm(2)] by (simp add: date_print_def bufsz_def date_scan_def)
qed

text \<open>C24. A date printed is read back as the time it came from, less the distance of the local time zone from Greenwich: \<open>print\<close>
  breaks the time down with \<open>gmtime_r\<close>, \<open>scan\<close> puts it together with \<open>mktime\<close>, which takes the fields for local time
  whatever zone the text names. For every time from 1970 to the end of the year 9999 the text has 29 characters, so it fits the
  buffer, all of them printable and none a slash, so it can stand in a header.\<close>

theorem date_roundtrip:
  assumes "0 \<le> t" and "t < 253402300800"
  shows "\<exists>s. date_print t = Some s \<and> length s = 29 \<and> plain_text s \<and> date_scan off s = t - off"
  using date_text_read [OF assms] by blast

theorem date_roundtrip_witness:
  "(\<exists>s. date_print 784111777 = Some s \<and> length s = 29 \<and> plain_text s \<and> date_scan 3600 s = 784111777 - 3600) \<and>
   date_print 784111777 = Some ''Sun, 06 Nov 1994 08:49:37 GMT'' \<and>
   date_scan 3600 ''Sun, 06 Nov 1994 08:49:37 GMT'' = 784108177"
proof -
  have y: "year_of 1970 9075 = (1994, 309)" by (simp add: year_of.simps year_len_def leap_def)
  have t: "gmtime_r 784111777 = Some \<lparr>tm_sec = 37, tm_min = 49, tm_hour = 8, tm_mday = 6, tm_mon = 10, tm_year = 94, tm_wday = 0\<rparr>"
    by (simp add: gmtime_r_def y month_lens_def leap_def)
  have p: "date_print 784111777 = Some ''Sun, 06 Nov 1994 08:49:37 GMT''"
    unfolding date_print_def t by code_simp
  then show ?thesis using date_roundtrip [of 784111777 3600] by simp
qed

end
