(* ===== verification/Dated_Responses.thy ===== *)
theory Dated_Responses
  imports HTTP_2616_Requests Time_nr
begin

text \<open>
  Three parts of the server put together: the headers a worker gives the entry of a file (\<open>HTTP_2616_Server_Work.cpp\<close>), the dates it
  prints them with (\<open>Time_nr.hpp\<close>), and the head the entry prints (\<open>HTTP_CacheEntry.cpp\<close>), as a client of the same library reads it.
\<close>

section \<open>The fields of the head\<close>

lemma plain_line:
  assumes "plain_text s"
  shows "CR \<notin> set s \<and> CHR ''/'' \<notin> set s"
proof -
  have "32 \<le> (of_char c :: nat) \<and> c \<noteq> CHR ''/''" if "c \<in> set s" for c
    using assms that by (simp add: plain_text_def list_all_iff)
  moreover have "\<not> 32 \<le> (of_char CR :: nat)" by simp
  ultimately show ?thesis by blast
qed

lemma no_version: "CHR ''/'' \<notin> set s \<Longrightarrow> \<not> contains HTTP_Version s"
proof
  assume "CHR ''/'' \<notin> set s" and "contains HTTP_Version s"
  then have "set HTTP_Version \<subseteq> set s" by (simp add: contains_iff set_mono_sublist)
  moreover have "CHR ''/'' \<in> set HTTP_Version" by code_simp
  ultimately show False using \<open>CHR ''/'' \<notin> set s\<close> by blast
qed

lemma header_names_plain: "CHR ''/'' \<notin> set (header_put h)"
proof -
  have "list_all (\<lambda>h. CHR ''/'' \<notin> set (header_put h)) all_header" by code_simp
  then show ?thesis by (simp add: list_all_iff all_header_UNIV)
qed

lemma plain_field_ok: "plain_text s \<Longrightarrow> field_ok (h, s)"
  using plain_line [of s] header_names_plain [of h] by (simp add: field_ok_def field_line_def no_version)

lemma plain_digits: "\<forall>c \<in> set s. digit_val c \<noteq> None \<Longrightarrow> plain_text s"
  by (auto simp: plain_text_def list_all_iff digit_val_def Let_def split: if_splits)

lemma default_fields_ok:
  "field_ok (Content_Length, show_nat n)" "field_ok (Content_Encoding, content_coding_put e)" "field_ok (Server, package_name)"
proof -
  have "list_all (\<lambda>e. plain_text (content_coding_put e)) all_content_coding" "plain_text package_name" by code_simp+
  then show "field_ok (Content_Encoding, content_coding_put e)" "field_ok (Server, package_name)"
    by (simp_all add: plain_field_ok list_all_iff all_content_coding_UNIV)
  show "field_ok (Content_Length, show_nat n)" using plain_digits show_nat_digits by (blast intro: plain_field_ok)
qed

text \<open>The text of a date that can be printed.\<close>

definition date_text_of :: "time_t \<Rightarrow> string" where
  "date_text_of t = the (date_print t)"

definition datable :: "time_t \<Rightarrow> bool" where
  "datable t \<longleftrightarrow> 0 \<le> t \<and> t < 253402300800"

lemma datable_text: "datable t \<Longrightarrow> plain_text (date_text_of t) \<and> length (date_text_of t) = 29 \<and> date_scan off (date_text_of t) = t - off"
  using date_text_read [of t] by (auto simp: datable_def date_text_of_def)

section \<open>The head of a file\<close>



end
