(* ===== verification/URI_Escape.thy ===== *)
theory URI_Escape
  imports HTTP_Server_Work
begin

text \<open>
  \<open>HTTP_Server_Work::uri_hex_escape\<close> (\<open>HTTP_Server_Work.cpp\<close>), which replaces the escapes of a URI by what they stand for, the
  extraction of hexadecimal numbers from a stream it relies on, and what it does to a URI with more than one escape.
\<close>

section \<open>Hexadecimal numbers\<close>

definition hex_val :: "char \<Rightarrow> nat option" where
  "hex_val c =
     (let n = (of_char c :: nat) in
      if 48 \<le> n \<and> n \<le> 57 then Some (n - 48)
      else if 65 \<le> n \<and> n \<le> 70 then Some (n - 55)
      else if 97 \<le> n \<and> n \<le> 102 then Some (n - 87) else None)"

definition nat_of_hex :: "string \<Rightarrow> nat" where
  "nat_of_hex ds = foldl (\<lambda>n c. 16 * n + the (hex_val c)) 0 ds"

text \<open>
  \<open>s >> hex >> n\<close> for an \<open>int\<close>: an optional sign, an optional \<open>0x\<close> and the digits. Without digits 0 is stored and
  \<open>failbit\<close> set; a number out of range stores the nearest one and sets \<open>failbit\<close>. When the sentry fails the variable keeps its
  value, which is \<open>None\<close> as long as it has none.
\<close>

definition hex_prefix :: "string \<Rightarrow> string" where
  "hex_prefix r = (if prefix ''0x'' r \<or> prefix ''0X'' r then take 2 r else [])"

definition read_hex :: "istr \<Rightarrow> int option \<Rightarrow> int option \<times> istr" where
  "read_hex s old =
     (if \<not> good s then (old, s\<lparr>failb := True\<rparr>)
      else let s1 = skip_ws s in
        if \<not> good s1 then (old, s1)
        else let r = unread s1; sg = sign_of r; px = hex_prefix (drop (length sg) r);
                 ds = takeWhile (\<lambda>c. hex_val c \<noteq> None) (drop (length sg + length px) r);
                 k = length sg + length px + length ds;
                 v = (if sg = ''-'' then - int (nat_of_hex ds) else int (nat_of_hex ds));
                 s2 = s1\<lparr>gpos := gpos s1 + k, eofb := (k = length r)\<rparr> in
          if ds = [] then (Some 0, s2\<lparr>failb := True\<rparr>)
          else if v \<ge> 2 ^ 31 then (Some (2 ^ 31 - 1), s2\<lparr>failb := True\<rparr>)
          else if v < - (2 ^ 31) then (Some (- (2 ^ 31)), s2\<lparr>failb := True\<rparr>)
          else (Some v, s2))"

section \<open>The function\<close>

text \<open>\<open>uri.find('%', start)\<close>, and the conversion of an \<open>int\<close> to a \<open>char\<close>.\<close>

definition find_from :: "char \<Rightarrow> nat \<Rightarrow> string \<Rightarrow> nat option" where
  "find_from c start s = map_option (\<lambda>i. start + i) (str_find [c] (drop start s))"

definition int_to_char :: "int \<Rightarrow> char" where
  "int_to_char v = char_of (nat (v mod 256))"

lemma find_from_bound: "find_from c start s = Some p \<Longrightarrow> start \<le> p \<and> p < length s"
proof -
  assume "find_from c start s = Some p"
  then obtain i where i: "str_find [c] (drop start s) = Some i" "p = start + i" by (auto simp: find_from_def)
  from str_find_single_Some [OF i(1)] i(2) show ?thesis by auto
qed

text \<open>What the function comes to: a URI, an exception, or the use of \<open>c\<close> before it has a value.\<close>

datatype escaped = Escaped string | Oops status | Undefined

function hex_escape :: "istr \<Rightarrow> int option \<Rightarrow> nat \<Rightarrow> string \<Rightarrow> escaped" where
  "hex_escape hexbuf c start uri =
     (case find_from CHR ''%'' start uri of
        None \<Rightarrow> Escaped uri
      | Some p \<Rightarrow>
          if p + 2 \<ge> length uri then Oops Bad_Request
          else let hexbuf = str_put [uri ! (p + 2)] (str_put [uri ! (p + 1)] hexbuf); (c, hexbuf) = read_hex hexbuf c in
            case c of
              None \<Rightarrow> Undefined
            | Some v \<Rightarrow> hex_escape hexbuf c p (take p uri @ int_to_char v # drop (p + 3) uri))"
  by auto
termination by (relation "measure (\<lambda>(_, _, _, uri). length uri)") auto

declare hex_escape.simps [simp del]

definition uri_hex_escape :: "string \<Rightarrow> escaped" where
  "uri_hex_escape uri = hex_escape (str_new []) None 0 uri"

section \<open>Once the stream is at its end\<close>

text \<open>Every escape stands for the same character: \<open>None\<close> if one is cut short.\<close>

fun paste :: "char \<Rightarrow> string \<Rightarrow> string option" where
  "paste c [] = Some []"
| "paste c (x # xs) =
     (if x \<noteq> CHR ''%'' then map_option ((#) x) (paste c xs)
      else case xs of a # b # r \<Rightarrow> map_option ((#) c) (paste c r) | _ \<Rightarrow> None)"

lemma paste_skip: "CHR ''%'' \<notin> set s \<Longrightarrow> paste c (s @ t) = map_option ((@) s) (paste c t)"
  by (induction s; cases "paste c t") auto

lemma paste_none: "CHR ''%'' \<notin> set s \<Longrightarrow> paste c s = Some s"
  using paste_skip [of s c "[]"] by simp

lemma read_hex_bad: "\<not> good s \<Longrightarrow> read_hex s old = (old, s\<lparr>failb := True\<rparr>)"
  by (simp add: read_hex_def)

lemma bad_stays: "\<not> good s \<Longrightarrow> \<not> good (s\<lparr>failb := True\<rparr>) \<and> \<not> good (str_put t s)"
  by (simp add: good_def str_put_def)

lemma find_from_split:
  assumes "find_from CHR ''%'' start uri = Some p"
  shows "\<exists>u v. drop start uri = u @ CHR ''%'' # v \<and> CHR ''%'' \<notin> set u \<and> p = start + length u \<and>
    take p uri = take start uri @ u \<and> drop (p + 1) uri = v"
proof -
  obtain i where i: "str_find ''%'' (drop start uri) = Some i" "p = start + i" using assms by (auto simp: find_from_def)
  note q = str_find_single_Some [OF i(1)]
  let ?d = "drop start uri"
  have "?d = take i ?d @ CHR ''%'' # drop (Suc i) ?d" using q id_take_nth_drop [of i ?d] by auto
  moreover have "length (take i ?d) = i" using q by simp
  moreover have "take p uri = take start uri @ take i ?d" using i(2) by (simp add: take_add)
  moreover have "drop (p + 1) uri = drop (Suc i) ?d" using i(2) by (simp add: add.commute)
  ultimately show ?thesis using q i(2) by (intro exI [of _ "take i ?d"] exI [of _ "drop (Suc i) ?d"]) auto
qed

lemma hex_escape_stuck:
  assumes "\<not> good hb" and "int_to_char v = c" and "c \<noteq> CHR ''%''" and "start \<le> length uri"
  shows "hex_escape hb (Some v) start uri =
    (case paste c (drop start uri) of None \<Rightarrow> Oops Bad_Request | Some s \<Rightarrow> Escaped (take start uri @ s))"
  using assms
proof (induction "length uri" arbitrary: hb start uri rule: less_induct)
  case less
  show ?case
  proof (cases "find_from CHR ''%'' start uri")
    case None
    then have "CHR ''%'' \<notin> set (drop start uri)" by (simp add: find_from_def contains_def flip: contains_single)
    then show ?thesis using None by (simp add: hex_escape.simps [of hb _ start uri] paste_none)
  next
    case (Some p)
    from find_from_split [OF this] obtain u w where s: "drop start uri = u @ CHR ''%'' # w" "CHR ''%'' \<notin> set u" "p = start + length u"
      "take p uri = take start uri @ u" "drop (p + 1) uri = w" by blast
    have len: "length uri = p + 1 + length w" using find_from_bound [OF Some] s(5) by auto
    show ?thesis
    proof (cases "p + 2 \<ge> length uri")
      case True
      then have "w = [] \<or> (\<exists>a. w = [a])" using len by (cases w) auto
      then show ?thesis using Some True s by (auto simp: hex_escape.simps [of hb _ start uri] paste_skip)
    next
      case False
      then obtain a b r where w: "w = a # b # r" using len by (cases w; cases "tl w") auto
      have r: "drop (p + 3) uri = r"
      proof -
        have "drop (p + 3) uri = drop 2 (drop (p + 1) uri)" by (simp add: add.commute eval_nat_numeral)
        then show ?thesis unfolding s(5) w by simp
      qed
      let ?uri = "take p uri @ c # r"
      define hb' where "hb' = (str_put [uri ! (p + 2)] (str_put [uri ! (p + 1)] hb))\<lparr>failb := True\<rparr>"
      have b: "\<not> good (str_put [uri ! (p + 2)] (str_put [uri ! (p + 1)] hb))" using less.prems(1) bad_stays by blast
      then have "hex_escape hb (Some v) start uri = hex_escape hb' (Some v) p ?uri"
        using Some False less.prems(2) by (simp add: hex_escape.simps [of hb _ start uri] read_hex_bad hb'_def r)
      also have "\<dots> = (case paste c (drop p ?uri) of None \<Rightarrow> Oops Bad_Request | Some s \<Rightarrow> Escaped (take p ?uri @ s))"
      proof (rule less.hyps)
        show "length ?uri < length uri" using len w by simp
        show "\<not> good hb'" using bad_stays [OF b] by (simp add: hb'_def)
        show "p \<le> length ?uri" using len by simp
      qed (use less.prems in simp_all)
      also have "\<dots> = (case paste c (drop start uri) of None \<Rightarrow> Oops Bad_Request | Some s \<Rightarrow> Escaped (take start uri @ s))"
        using less.prems(3) s len w by (simp add: paste_skip split: option.split)
      finally show ?thesis .
    qed
  qed
qed

lemma hex_escape_percent:
  assumes "\<not> good hb" and "int_to_char v = CHR ''%''" and "find_from CHR ''%'' start uri \<noteq> None"
  shows "hex_escape hb (Some v) start uri = Oops Bad_Request"
  using assms
proof (induction "length uri" arbitrary: hb start uri rule: less_induct)
  case less
  obtain p where p: "find_from CHR ''%'' start uri = Some p" using less.prems(3) by blast
  show ?case
  proof (cases "p + 2 \<ge> length uri")
    case False
    define hb' where "hb' = (str_put [uri ! (p + 2)] (str_put [uri ! (p + 1)] hb))\<lparr>failb := True\<rparr>"
    let ?uri = "take p uri @ CHR ''%'' # drop (p + 3) uri"
    have b: "\<not> good (str_put [uri ! (p + 2)] (str_put [uri ! (p + 1)] hb))" using less.prems(1) bad_stays by blast
    then have "hex_escape hb (Some v) start uri = hex_escape hb' (Some v) p ?uri"
      using p False less.prems(2) by (simp add: hex_escape.simps [of hb _ start uri] read_hex_bad hb'_def)
    also have "\<dots> = Oops Bad_Request"
    proof (rule less.hyps)
      show "length ?uri < length uri" using False by simp
      show "\<not> good hb'" using bad_stays [OF b] by (simp add: hb'_def)
      show "find_from CHR ''%'' p ?uri \<noteq> None" using False by (simp add: find_from_def)
    qed (use less.prems in simp)
    finally show ?thesis .
  qed (use p in \<open>simp add: hex_escape.simps [of hb _ start uri]\<close>)
qed

section \<open>A URI with escapes\<close>

lemma hex_val_less: "hex_val c = Some n \<Longrightarrow> n < 16 \<and> \<not> isspace c \<and> c \<noteq> CHR ''-'' \<and> c \<noteq> CHR ''+'' \<and> c \<noteq> CHR ''x'' \<and> c \<noteq> CHR ''X''"
  by (auto simp: hex_val_def isspace_def Let_def split: if_splits)

lemma read_hex_pair:
  assumes "hex_val a = Some h" and "hex_val b = Some l"
  shows "\<exists>s. read_hex (str_put [b] (str_put [a] (str_new []))) old = (Some (int (16 * h + l)), s) \<and> \<not> good s"
proof -
  note a = hex_val_less [OF assms(1)] and b = hex_val_less [OF assms(2)]
  let ?s = "\<lparr>sbuf = [a, b], gpos = 0, eofb = False, failb = False\<rparr>"
  have s: "str_put [b] (str_put [a] (str_new [])) = ?s" by (simp add: str_put_def str_new_def good_def)
  have w: "skip_ws ?s = ?s" using a by (simp add: skip_ws_def unread_def)
  have g: "good ?s" by (simp add: good_def)
  have u: "unread ?s = [a, b]" by (simp add: unread_def)
  have sg: "sign_of [a, b] = []" using a by (simp add: sign_of_def)
  have px: "hex_prefix [a, b] = []" using b by (auto simp: hex_prefix_def)
  have n: "nat_of_hex [a, b] = 16 * h + l" using assms by (simp add: nat_of_hex_def)
  have "16 * h + l < 256" using a b by simp
  then have "int (16 * h + l) < 2 ^ 31" by simp
  then show ?thesis
    unfolding s using assms by (simp add: read_hex_def Let_def g w u sg px n good_def)
qed

lemma find_from_first: "CHR ''%'' \<notin> set s \<Longrightarrow> find_from CHR ''%'' 0 (s @ CHR ''%'' # t) = Some (length s)"
proof (induction s)
  case (Cons x s)
  then have "find_from CHR ''%'' 0 (s @ CHR ''%'' # t) = Some (length s)" by simp
  then show ?case using Cons.prems by (auto simp: find_from_def)
qed (simp add: find_from_def)

text \<open>\<open>uri_hex_escape\<close> replaces the first escape of a URI by the character it stands for and, the stream it reads the
  digits from being at its end after that and never cleared, every later one by the same character, whatever its digits are. An
  escape that is cut short is answered with 400. As the replacement is looked at again, so is every URI whose first escape is
  \<open>%25\<close>, the per cent sign: it takes the characters after it for its digits until none are left. A URI without escapes is left
  as it is.\<close>

theorem uri_escapes:
  assumes "CHR ''%'' \<notin> set s" and "hex_val a = Some h" and "hex_val b = Some l"
  shows "uri_hex_escape s = Escaped s \<and>
    uri_hex_escape (s @ CHR ''%'' # a # b # rest) =
      (let c = char_of (16 * h + l) in
       if c = CHR ''%'' then Oops Bad_Request
       else case paste c rest of None \<Rightarrow> Oops Bad_Request | Some r \<Rightarrow> Escaped (s @ c # r))"
proof -
  let ?uri = "s @ CHR ''%'' # a # b # rest" and ?c = "char_of (16 * h + l)"
  have none: "uri_hex_escape s = Escaped s"
  proof -
    have "find_from CHR ''%'' 0 s = None" using assms(1) by (simp add: find_from_def contains_def flip: contains_single)
    then show ?thesis by (simp add: uri_hex_escape_def hex_escape.simps)
  qed
  obtain hb where hb: "read_hex (str_put [b] (str_put [a] (str_new []))) None = (Some (int (16 * h + l)), hb)" "\<not> good hb"
    using read_hex_pair [OF assms(2,3)] by blast
  have lt: "16 * h + l < 256" using hex_val_less [OF assms(2)] hex_val_less [OF assms(3)] by simp
  then have c: "int_to_char (int (16 * h + l)) = ?c" by (simp add: int_to_char_def)
  have nth: "?uri ! (length s + 1) = a" "?uri ! (length s + 2) = b" by (simp_all add: nth_append)
  have step: "uri_hex_escape ?uri = hex_escape hb (Some (int (16 * h + l))) (length s) (s @ ?c # rest)"
    using hb c by (simp add: uri_hex_escape_def hex_escape.simps [of "str_new []"] find_from_first [OF assms(1)] nth [simplified])
  show ?thesis
  proof (cases "?c = CHR ''%''")
    case True
    have "find_from CHR ''%'' (length s) (s @ ?c # rest) \<noteq> None" using True by (simp add: find_from_def)
    from hex_escape_percent [OF hb(2) _ this] show ?thesis using none step c True by (simp add: Let_def)
  next
    case False
    from hex_escape_stuck [OF hb(2) c this, of "length s" "s @ ?c # rest"] show ?thesis
      using none step False by (simp add: Let_def split: option.split)
  qed
qed

theorem uri_escapes_witness:
  "uri_hex_escape ''/a%41b%42'' = Escaped ''/aAbA'' \<and> uri_hex_escape ''/a%25b'' = Oops Bad_Request \<and>
   uri_hex_escape ''/a'' = Escaped ''/a''"
proof -
  have h: "hex_val CHR ''4'' = Some 4" "hex_val CHR ''1'' = Some 1" "hex_val CHR ''2'' = Some 2" "hex_val CHR ''5'' = Some 5"
    "CHR ''%'' \<notin> set ''/a''" by code_simp+
  have c: "char_of (16 * 4 + 1 :: nat) = CHR ''A''" "char_of (16 * 2 + 5 :: nat) = CHR ''%''" by code_simp+
  show ?thesis
    using uri_escapes [OF h(5) h(1,2), of "''b%42''"] uri_escapes [OF h(5) h(3,4), of "''b''"] c by (simp add: Let_def)
qed

end
