(* ===== verification/CGI_test_app.thy ===== *)
theory CGI_test_app
  imports HTTP_Server_Work Server
begin

text \<open>
  \<open>CGI_test_app.cpp\<close>: the smallest program built on the library, a server on a local socket whose connections greet whoever asks.
  Its \<open>prepare_response\<close> is one more instance of the contract between the main loop and its hooks, and as it has no state
  of its own, a whole session can be followed from the requests to the bytes of the responses.
\<close>

section \<open>The connection\<close>

definition msg :: string where
  "msg = ''hello, world''"

definition cgi_prepare :: "'a hwork_scheme \<Rightarrow> 'a hwork_scheme thrown" where
  "cgi_prepare w =
     (let w1 = w\<lparr>outbody := msg, outbody_sz := of_nat (length msg)\<rparr> in
      (None, push_out (HTTP_Version @ '' '' @ status_put OK @ CRLF @
         header_put Content_Length @ show_nat (unat (outbody_sz w1)) @ CRLF @ CRLF) w1))"

text \<open>The other hooks are those of \<open>HTTP_Server_Work\<close>, whose limits are off by default.\<close>

definition cgi_step :: "'a hwork_scheme \<Rightarrow> 'a hwork_scheme thrown" where
  "cgi_step = server_step no_limits cgi_prepare base_on_oops (\<lambda>w. w)"

interpretation cgi: server_hooks "\<lambda>_. True" cgi_prepare base_on_oops "\<lambda>w. w"
proof
  fix w w' :: "'a hwork_scheme" and e st
  show "cgi_prepare w = (e, w') \<Longrightarrow> conn_same w w'"
    by (auto simp: cgi_prepare_def push_out_def conn_same_def)
  show "cgi_prepare w = (None, w') \<Longrightarrow> body_ok w \<Longrightarrow> body_ok w'"
    by (auto simp: cgi_prepare_def push_out_def body_ok_def msg_def)
  show "conn_same w (base_on_oops st w)"
    by (simp add: base_on_oops_def push_out_def conn_same_def)
  show "conn_same w w" by (simp add: conn_same_def)
qed simp_all

section \<open>The program\<close>

text \<open>The constructor of \<open>Server\<close> with its default arguments.\<close>

definition server_default :: "domain \<Rightarrow> string \<Rightarrow> string \<Rightarrow> server" where
  "server_default d mount bindto =
     server_ctor d mount bindto 10 100 10 None None (-1) (-1) (-1, -1, -1) 9999 9999"

definition cgi_main :: "kernel \<Rightarrow> string list \<Rightarrow> (server \<times> fd) run" where
  "cgi_main K args =
     (if length args \<noteq> 2 then fail (Exit 1)
      else then_run (server_new K (server_default AF_LOCAL ''.'' (args ! 1))) (\<lambda>sv.
           then_run (serve_start K sv) (\<lambda>l. ret (sv, l))))"

section \<open>From the request to the response\<close>

definition cgi_head :: string where
  "cgi_head = ''HTTP/1.1 200 OK'' @ CRLF @ ''Content-Length: 12'' @ CRLF @ CRLF"

lemma cgi_head_text: "HTTP_Version @ '' '' @ status_put OK @ CRLF @ header_put Content_Length @ show_nat 12 @ CRLF @ CRLF = cgi_head"
  "length cgi_head = 39" "NUL \<notin> set cgi_head"
  by code_simp+

lemma cgi_answer:
  assumes "epoll_err w = None" and "outbuf w = str_new []"
  shows "\<exists>ob r. dropdown cgi_prepare base_on_oops w = (None, w\<lparr>outbody := msg, outbody_sz := 12, outbuf := ob, out := cgi_head,
    outhdrs_sz := 39, outsz := 39, wmode := mode_write, resched := r\<rparr>)"
proof -
  let ?w = "w\<lparr>outbody := msg, outbody_sz := 12, outbuf := str_put cgi_head (str_new [])\<rparr>"
  have p: "cgi_prepare w = (None, ?w)"
    using cgi_head_text(1) assms(2) by (simp add: cgi_prepare_def push_out_def Let_def msg_def)
  have u: "unread (str_put cgi_head (str_new [])) = cgi_head" by (simp add: unread_put)
  have t: "takeWhile (\<lambda>c. c \<noteq> NUL) cgi_head = cgi_head" using cgi_head_text(3) by (simp add: takeWhile_eq_all_conv) metis
  obtain ob where g: "str_get (unat cbufsz) NUL (str_put cgi_head (str_new [])) = (cgi_head, ob)"
    using cgi_head_text(2) by (simp add: str_get_def Let_def u t cbufsz_def)
  have "head_out ?w = ?w\<lparr>outbuf := ob, out := cgi_head, outhdrs_sz := 39, outsz := 39\<rparr>"
    using g cgi_head_text(2,3) by (simp add: head_out_def c_string_id)
  then show ?thesis using p assms(1) by (simp add: dropdown_def reschedule_def) blast
qed

text \<open>A connection that is writing and whose socket takes all of it.\<close>

lemma send_whole:
  assumes "out_ok w" and "unat (outsz w) \<le> room (wrq w)"
  shows "\<exists>b ev. send_out w = (E0, w\<lparr>out := b, outsz := 0, wire := wire w @ take (unat (outsz w)) (out w), wrq := ev\<rparr>)"
proof -
  obtain err k ev where s: "send_out w = (err, w\<lparr>out := drop k (out w), outsz := outsz w - of_nat k, wire := wire w @ take k (out w), wrq := ev\<rparr>)"
    "k = min (unat (outsz w)) (room (wrq w))" "k = unat (outsz w) \<longrightarrow> err = E0"
    using send_out_spec [OF assms(1)] by blast
  then have "k = unat (outsz w)" "err = E0" using assms(2) by simp_all
  then show ?thesis using s(1) by auto
qed

lemma write_head:
  assumes "wmode w = mode_write" and "out_ok w" and "unat (outsz w) \<le> room (wrq w)" and "\<not> outhdrs_done w" and "epoll_err w = None"
  shows "\<exists>ev r. server_step lim prepare on_oops reset w = (None, w\<lparr>wire := wire w @ take (unat (outsz w)) (out w),
    wrq := ev, outhdrs_done := True, out := outbody w, outsz := outbody_sz w, resched := r\<rparr>)"
proof -
  obtain b ev where s: "send_out w = (E0, w\<lparr>out := b, outsz := 0, wire := wire w @ take (unat (outsz w)) (out w), wrq := ev\<rparr>)"
    using send_whole [OF assms(2,3)] by blast
  show ?thesis using assms(1,4,5) by (simp add: server_step_def write_case_def s reschedule_def) blast
qed

lemma write_body:
  assumes "wmode w = mode_write" and "out_ok w" and "unat (outsz w) \<le> room (wrq w)" and "outhdrs_done w" and "epoll_err w = None"
    and "\<not> nosch w" and "\<not> deleteme w" and "good (inbuf w)" and "unread (inbuf w) = []"
  shows "\<exists>ev r. server_step lim prepare on_oops (\<lambda>w. w) w = (None, (base_reset (w\<lparr>wire := wire w @ take (unat (outsz w)) (out w),
    wrq := ev\<rparr>))\<lparr>wmode := mode_read, inbuf := str_new [], resched := r\<rparr>)"
proof -
  obtain b ev where s: "send_out w = (E0, w\<lparr>out := b, outsz := 0, wire := wire w @ take (unat (outsz w)) (out w), wrq := ev\<rparr>)"
    using send_whole [OF assms(2,3)] by blast
  have "\<not> good (str_ignore (inbuf w))" using assms(8,9) by (simp add: str_ignore_def good_def)
  then show ?thesis
    using assms(1,4-7) by (simp add: server_step_def write_case_def s next_request_def base_reset_def reschedule_def Let_def) blast
qed

section \<open>A session\<close>

text \<open>A connection between two requests.\<close>

definition at_rest :: "'a hwork_scheme \<Rightarrow> bool" where
  "at_rest w \<longleftrightarrow> awaiting w \<and> unread (inbuf w) = [] \<and> inhdrs w = empty_hdrs \<and> inbody_sz w = 0 \<and> outbuf w = str_new [] \<and>
     \<not> outhdrs_done w \<and> \<not> nosch w \<and> \<not> deleteme w"

text \<open>A request is its lines, the fragments it arrives in, the arrivals themselves and how much the socket takes of the head and
  of the body of the response. It is good when the parser accepts the lines, no body is announced, only the last fragment
  completes the head and no other one ends between a carriage return and its newline.\<close>

type_synonym request_calls = "string list \<times> string list \<times> rd_event list list \<times> wr_event list \<times> wr_event list"

definition good_request :: "limits \<Rightarrow> request_calls \<Rightarrow> bool" where
  "good_request lim x =
     (case x of (ls, cs, evs, a, b) \<Rightarrow>
        cs \<noteq> [] \<and> list_all2 arrival cs evs \<and> concat cs = lines_text ls @ CRLF \<and>
        length (concat (butlast cs)) < length (lines_text ls) + 2 \<and>
        list_all (\<lambda>k. let q = concat (take k (butlast cs)) in q = [] \<or> last q \<noteq> CR) [0..<length cs] \<and>
        list_all (ok_line (max_line_len lim)) ls \<and>
        (case fold_res store_line ls empty_hdrs of Inl _ \<Rightarrow> False | Inr h \<Rightarrow> hdr h Content_Length = []) \<and>
        39 \<le> room a \<and> 12 \<le> room b)"

definition then_step :: "'w thrown \<Rightarrow> ('w \<Rightarrow> 'w thrown) \<Rightarrow> 'w thrown" where
  "then_step r f = (case r of (None, w) \<Rightarrow> f w | (Some e, w) \<Rightarrow> (Some e, w))"

text \<open>The calls for one request, and for a session.\<close>

definition exchange :: "('a hwork_scheme \<Rightarrow> 'a hwork_scheme thrown) \<Rightarrow> request_calls \<Rightarrow> 'a hwork_scheme \<Rightarrow> 'a hwork_scheme thrown" where
  "exchange step x w =
     (case x of (ls, cs, evs, a, b) \<Rightarrow>
        then_step (then_step (serve step evs w) (\<lambda>w. step (w\<lparr>wrq := a\<rparr>))) (\<lambda>w. step (w\<lparr>wrq := b\<rparr>)))"

fun session :: "('a hwork_scheme \<Rightarrow> 'a hwork_scheme thrown) \<Rightarrow> request_calls list \<Rightarrow> 'a hwork_scheme \<Rightarrow> 'a hwork_scheme thrown" where
  "session step [] w = (None, w)"
| "session step (x # xs) w = then_step (exchange step x w) (session step xs)"

lemma exchange_answered:
  assumes "at_rest w" and "good_request no_limits x"
  shows "\<exists>w'. exchange cgi_step x w = (None, w') \<and> at_rest w' \<and> wire w' = wire w @ cgi_head @ msg"
proof -
  obtain ls cs evs a b where x: "x = (ls, cs, evs, a, b)" by (cases x)
  note g = assms(2) [unfolded x good_request_def prod.case]
  obtain cs0 c where cs: "cs = cs0 @ [c]" using g by (metis append_butlast_last_id)
  then obtain evs0 ev where evs: "evs = evs0 @ [ev]" "list_all2 arrival cs0 evs0" "arrival c ev"
    using g by (auto simp: list_all2_append1 list_all2_Cons1)
  obtain h where h: "fold_res store_line ls empty_hdrs = Inr h" "hdr h Content_Length = []" using g by (auto split: sum.splits)
  note f = assms(1) [unfolded at_rest_def awaiting_def]
  have aw: "awaiting w" using assms(1) by (simp add: at_rest_def)
  have cuts: "cuts_ok (unread (inbuf w)) cs0"
  proof -
    have "list_all (\<lambda>k. let q = concat (take k cs0) in q = [] \<or> last q \<noteq> CR) [0..<Suc (length cs0)]"
      using g cs by (simp del: upt_Suc)
    then show ?thesis using f by (simp add: cuts_ok_def list_all_iff less_Suc_eq_le del: upt_Suc)
  qed
  obtain i ev' err r where i: "unread i = []" "good i" "serve cgi_step evs w =
      dropdown cgi_prepare base_on_oops (w\<lparr>rdq := ev', last_errno := err, inbuf := i, inhdrs := h, inhdrs_done := True, resched := r\<rparr>)"
    using head_answered [OF aw evs(2,3), of ls "[]" no_limits h cgi_prepare base_on_oops "\<lambda>w. w"] g f cs h cuts
    by (auto simp: evs(1) cgi_step_def list_all_iff)
  let ?w = "w\<lparr>rdq := ev', last_errno := err, inbuf := i, inhdrs := h, inhdrs_done := True, resched := r\<rparr>"
  obtain ob r1 where d: "dropdown cgi_prepare base_on_oops ?w = (None, ?w\<lparr>outbody := msg, outbody_sz := 12, outbuf := ob, out := cgi_head,
    outhdrs_sz := 39, outsz := 39, wmode := mode_write, resched := r1\<rparr>)"
    using cgi_answer [of ?w] f by auto
  define w1 where "w1 = (?w\<lparr>outbody := msg, outbody_sz := 12, outbuf := ob, out := cgi_head,
    outhdrs_sz := 39, outsz := 39, wmode := mode_write, resched := r1\<rparr>)\<lparr>wrq := a\<rparr>"
  have w1: "wmode w1 = mode_write" "out_ok w1" "unat (outsz w1) \<le> room (wrq w1)" "\<not> outhdrs_done w1" "epoll_err w1 = None"
    "take (unat (outsz w1)) (out w1) = cgi_head"
    using f g cgi_head_text(2) by (simp_all add: w1_def out_ok_def msg_def)
  obtain ev1 r2 where s1: "cgi_step w1 = (None, w1\<lparr>wire := wire w1 @ cgi_head, wrq := ev1, outhdrs_done := True,
    out := outbody w1, outsz := outbody_sz w1, resched := r2\<rparr>)"
    using write_head [OF w1(1-5), of no_limits cgi_prepare base_on_oops "\<lambda>w. w"] w1(6) by (auto simp: cgi_step_def)
  define w2 where "w2 = (w1\<lparr>wire := wire w1 @ cgi_head, wrq := ev1, outhdrs_done := True,
    out := outbody w1, outsz := outbody_sz w1, resched := r2\<rparr>)\<lparr>wrq := b\<rparr>"
  have w2: "wmode w2 = mode_write" "out_ok w2" "unat (outsz w2) \<le> room (wrq w2)" "outhdrs_done w2" "epoll_err w2 = None"
    "\<not> nosch w2" "\<not> deleteme w2" "good (inbuf w2)" "unread (inbuf w2) = []" "take (unat (outsz w2)) (out w2) = msg"
    using f g i by (simp_all add: w2_def w1_def out_ok_def msg_def)
  obtain ev2 r3 where s2: "cgi_step w2 = (None, (base_reset (w2\<lparr>wire := wire w2 @ msg, wrq := ev2\<rparr>))\<lparr>wmode := mode_read,
    inbuf := str_new [], resched := r3\<rparr>)"
    using write_body [OF w2(1-9), of no_limits cgi_prepare base_on_oops] w2(10) by (auto simp: cgi_step_def)
  let ?w3 = "(base_reset (w2\<lparr>wire := wire w2 @ msg, wrq := ev2\<rparr>))\<lparr>wmode := mode_read, inbuf := str_new [], resched := r3\<rparr>"
  have "exchange cgi_step x w = (None, ?w3)"
    using i(3) d s1 s2 by (simp add: x exchange_def then_step_def w1_def w2_def)
  moreover have "at_rest ?w3" using f w2(5-7) by (simp add: at_rest_def awaiting_def base_reset_def)
  moreover have "wire ?w3 = wire w @ cgi_head @ msg" by (simp add: w2_def w1_def base_reset_def)
  ultimately show ?thesis by blast
qed



end
