(* ===== verification/Locks.thy ===== *)
theory Locks
  imports Prelude
begin

text \<open>
  \<open>Locks.hpp\<close>, \<open>Locks.cpp\<close>: the wrappers of mutexes, condition variables, read-write locks and semaphores. Each makes one call
  of the threads library, on the state \<open>'o\<close> of the object, and looks at its result only to log it: the caller is not told and goes on as
  if the call had succeeded. \<open>Semaphore::down\<close> tries again instead. A call that waits is one that has come back.
\<close>

section \<open>Calls that are logged\<close>

type_synonym errlog = "(string \<times> errno) list"
type_synonym 'o lib_call = "'o \<Rightarrow> errno \<times> 'o"

definition note_error :: "string \<Rightarrow> errno \<Rightarrow> errlog \<Rightarrow> errlog" where
  "note_error name e l = (if e = E0 then l else l @ [(name, e)])"

definition logged :: "string \<Rightarrow> 'o lib_call \<Rightarrow> 'o \<times> errlog \<Rightarrow> 'o \<times> errlog" where
  "logged name f x = (case x of (ob, l) \<Rightarrow> (case f ob of (e, ob') \<Rightarrow> (ob', note_error name e l)))"

section \<open>Mutexes\<close>

text \<open>The result of \<open>pthread_mutex_init\<close> is ignored.\<close>

definition mutex_new :: "'o lib_call \<Rightarrow> 'o \<times> errlog \<Rightarrow> 'o \<times> errlog" where
  "mutex_new ini x = (snd (ini (fst x)), snd x)"

definition mutex_delete :: "'o lib_call \<Rightarrow> 'o \<times> errlog \<Rightarrow> 'o \<times> errlog" where
  "mutex_delete f x = logged ''pthread_mutex_destroy'' f x"

definition mutex_lock :: "'o lib_call \<Rightarrow> 'o \<times> errlog \<Rightarrow> 'o \<times> errlog" where
  "mutex_lock f x = logged ''pthread_mutex_lock'' f x"

definition mutex_unlock :: "'o lib_call \<Rightarrow> 'o \<times> errlog \<Rightarrow> 'o \<times> errlog" where
  "mutex_unlock f x = logged ''pthread_mutex_unlock'' f x"

section \<open>Condition variables\<close>

definition condvar_new :: "'o lib_call \<Rightarrow> 'o \<times> errlog \<Rightarrow> 'o \<times> errlog" where
  "condvar_new f x = logged ''pthread_cond_init'' f x"

definition condvar_wait :: "'o lib_call \<Rightarrow> 'o \<times> errlog \<Rightarrow> 'o \<times> errlog" where
  "condvar_wait f x = logged ''pthread_cond_wait'' f x"

definition condvar_signal :: "'o lib_call \<Rightarrow> 'o \<times> errlog \<Rightarrow> 'o \<times> errlog" where
  "condvar_signal f x = logged ''pthread_cond_signal'' f x"

definition condvar_broadcast :: "'o lib_call \<Rightarrow> 'o \<times> errlog \<Rightarrow> 'o \<times> errlog" where
  "condvar_broadcast f x = logged ''pthread_cond_broadcast'' f x"

definition condvar_delete :: "'o lib_call \<Rightarrow> 'o \<times> errlog \<Rightarrow> 'o \<times> errlog" where
  "condvar_delete f x = logged ''pthread_cond_destroy'' f x"

section \<open>Read-write locks\<close>

text \<open>The constructor goes on after every failure; the destructor leaves the attributes.\<close>

definition rwlock_new :: "'o lib_call \<Rightarrow> (int \<Rightarrow> 'o lib_call) \<Rightarrow> 'o lib_call \<Rightarrow> int \<Rightarrow> 'o \<times> errlog \<Rightarrow> 'o \<times> errlog" where
  "rwlock_new attr_ini setkind ini pref x =
     logged ''pthread_rwlock_init'' ini (logged ''pthread_rwlockattr_setkind_np'' (setkind pref) (logged ''pthread_rwlockattr_init'' attr_ini x))"

definition rwlock_delete :: "'o lib_call \<Rightarrow> 'o \<times> errlog \<Rightarrow> 'o \<times> errlog" where
  "rwlock_delete f x = logged ''pthread_rwlock_destroy'' f x"

definition rwlock_rdlock :: "'o lib_call \<Rightarrow> 'o \<times> errlog \<Rightarrow> 'o \<times> errlog" where
  "rwlock_rdlock f x = logged ''pthread_rwlock_rdlock'' f x"

definition rwlock_wrlock :: "'o lib_call \<Rightarrow> 'o \<times> errlog \<Rightarrow> 'o \<times> errlog" where
  "rwlock_wrlock f x = logged ''pthread_rwlock_wrlock'' f x"

definition rwlock_unlock :: "'o lib_call \<Rightarrow> 'o \<times> errlog \<Rightarrow> 'o \<times> errlog" where
  "rwlock_unlock f x = logged ''pthread_rwlock_unlock'' f x"

section \<open>Semaphores\<close>

definition sema_new :: "(32 word \<Rightarrow> 'o lib_call) \<Rightarrow> 32 word \<Rightarrow> 'o \<times> errlog \<Rightarrow> 'o \<times> errlog" where
  "sema_new f init_val x = logged ''sem_init'' (f init_val) x"

definition sema_up :: "'o lib_call \<Rightarrow> 'o \<times> errlog \<Rightarrow> 'o \<times> errlog" where
  "sema_up f x = logged ''sem_post'' f x"

text \<open>\<open>None\<close> is a call that never comes back.\<close>

partial_function (option) sema_down :: "'o lib_call \<Rightarrow> 'o \<times> errlog \<Rightarrow> ('o \<times> errlog) option" where
  "sema_down wait x =
     (case x of (ob, l) \<Rightarrow>
        (case wait ob of (e, ob') \<Rightarrow>
           if e = E0 then Some (ob', l)
           else if e = EINTR then sema_down wait (ob', l)
           else sema_down wait (ob', l @ [(''sem_wait'', e)])))"

text \<open>\<open>sem_getvalue\<close> gives a value when it succeeds; the value returned is indeterminate, \<open>None\<close>, when it fails.\<close>

definition sema_val :: "('o \<Rightarrow> errno + int) \<Rightarrow> 'o \<times> errlog \<Rightarrow> int option \<times> errlog" where
  "sema_val f x =
     (case x of (ob, l) \<Rightarrow> (case f ob of Inl e \<Rightarrow> (None, l @ [(''sem_getvalue'', e)]) | Inr v \<Rightarrow> (Some v, l)))"

definition sema_delete :: "'o lib_call \<Rightarrow> 'o \<times> errlog \<Rightarrow> 'o \<times> errlog" where
  "sema_delete f x = logged ''sem_destroy'' f x"

section \<open>Waiting for a semaphore\<close>

text \<open>The state of the semaphore at the \<open>k\<close>-th attempt, and the result of that attempt.\<close>

definition at_try :: "'o lib_call \<Rightarrow> 'o \<Rightarrow> nat \<Rightarrow> 'o" where
  "at_try wait ob k = ((\<lambda>ob. snd (wait ob)) ^^ k) ob"

definition try_result :: "'o lib_call \<Rightarrow> 'o \<Rightarrow> nat \<Rightarrow> errno" where
  "try_result wait ob k = fst (wait (at_try wait ob k))"

lemma try_simps [simp]:
  "at_try wait ob 0 = ob" "at_try wait ob (Suc k) = at_try wait (snd (wait ob)) k"
  "try_result wait ob 0 = fst (wait ob)" "try_result wait ob (Suc k) = try_result wait (snd (wait ob)) k"
  by (simp_all add: at_try_def try_result_def funpow_Suc_right del: funpow.simps)

definition tries_log :: "'o lib_call \<Rightarrow> 'o \<Rightarrow> nat \<Rightarrow> errlog" where
  "tries_log wait ob n = map (\<lambda>k. (''sem_wait'', try_result wait ob k)) (filter (\<lambda>k. try_result wait ob k \<noteq> EINTR) [0..<n])"

lemma tries_log_Suc:
  "tries_log wait ob (Suc n) = (if fst (wait ob) = EINTR then [] else [(''sem_wait'', fst (wait ob))]) @ tries_log wait (snd (wait ob)) n"
proof -
  have "[0..<Suc n] = 0 # map Suc [0..<n]" by (simp add: map_Suc_upt upt_conv_Cons del: upt_Suc)
  then show ?thesis by (simp add: tries_log_def filter_map comp_def del: upt_Suc)
qed

lemma sema_down_until:
  "try_result wait ob n = E0 \<Longrightarrow> \<forall>k < n. try_result wait ob k \<noteq> E0 \<Longrightarrow>
    sema_down wait (ob, l) = Some (at_try wait ob (Suc n), l @ tries_log wait ob n)"
proof (induction n arbitrary: ob l)
  case 0
  then show ?case by (cases "wait ob") (simp add: sema_down.simps [of wait "(ob, l)"] tries_log_def)
next
  case (Suc n)
  obtain e ob' where w: "wait ob = (e, ob')" by fastforce
  have "e \<noteq> E0" using Suc.prems(2) w by (metis fst_conv try_simps(3) zero_less_Suc)
  moreover have "\<forall>k < n. try_result wait ob' k \<noteq> E0"
  proof (intro allI impI)
    fix k assume "k < n"
    then show "try_result wait ob' k \<noteq> E0" using Suc.prems(2) [rule_format, of "Suc k"] w by simp
  qed
  moreover have "try_result wait ob' n = E0" using Suc.prems(1) w by simp
  ultimately show ?case
    using Suc.IH [of ob'] w by (simp add: sema_down.simps [of wait "(ob, l)"] tries_log_Suc)
qed

lemma sema_down_Some:
  assumes "sema_down wait (ob, l) = Some y"
  shows "\<exists>n. try_result wait ob n = E0"
proof -
  have "\<exists>n. try_result wait (fst (ob, l)) n = E0"
  proof (rule sema_down.raw_induct [where P = "\<lambda>w x y. \<exists>n. try_result w (fst x) n = E0", of "(wait, (ob, l))" y, unfolded prod.case])
    fix down and w :: "'a lib_call" and x y
    assume IH: "\<And>w x y. down w x = Some y \<Longrightarrow> \<exists>n. try_result w (fst x) n = E0"
      and run: "(case x of (ob, l) \<Rightarrow> case w ob of (e, ob') \<Rightarrow> if e = E0 then Some (ob', l) else if e = EINTR then down w (ob', l)
        else down w (ob', l @ [(''sem_wait'', e)])) = Some y"
    obtain ob l e ob' where x: "x = (ob, l)" "w ob = (e, ob')" by (metis surj_pair)
    show "\<exists>n. try_result w (fst x) n = E0"
    proof (cases "e = E0")
      case True
      then show ?thesis using x by (intro exI [of _ 0]) simp
    next
      case False
      then obtain l' where "down w (ob', l') = Some y" using run x by (auto split: if_splits)
      from IH [OF this] obtain n where "try_result w ob' n = E0" by auto
      then show ?thesis using x by (intro exI [of _ "Suc n"]) simp
    qed
  qed (use assms in simp_all)
  then show ?thesis by simp
qed

text \<open>\<open>Semaphore::down\<close> returns exactly when some attempt to decrease the semaphore succeeds, and then with the semaphore as the first
  such attempt leaves it: it is decreased once, however many interruptions came before. Interruptions are passed over in silence, every
  other error is logged and tried again; one that stays, as for a semaphore that is not valid, makes the thread spin for ever.\<close>

theorem sema_down_returns:
  "sema_down wait (ob, l) =
     (if \<exists>n. try_result wait ob n = E0
      then let n = LEAST n. try_result wait ob n = E0 in Some (at_try wait ob (n + 1), l @ tries_log wait ob n)
      else None)"
proof (cases "\<exists>n. try_result wait ob n = E0")
  case True
  define n where "n = (LEAST n. try_result wait ob n = E0)"
  have "try_result wait ob n = E0" unfolding n_def using LeastI_ex [OF True] .
  moreover have "\<forall>k < n. try_result wait ob k \<noteq> E0" unfolding n_def using not_less_Least by blast
  ultimately have "sema_down wait (ob, l) = Some (at_try wait ob (Suc n), l @ tries_log wait ob n)"
    by (rule sema_down_until)
  then show ?thesis using True by (simp add: n_def [symmetric])
next
  case False
  then show ?thesis using sema_down_Some by (metis not_None_eq)
qed

theorem sema_down_returns_witness:
  "sema_down (\<lambda>k :: nat. (if k = 0 then EINTR else if k = 2 then E0 else EAGAIN, Suc k)) (0, []) = Some (3, [(''sem_wait'', EAGAIN)]) \<and>
   sema_down (\<lambda>k :: nat. (EPERM, k)) (0, []) = None"
proof
  let ?w = "\<lambda>k :: nat. (if k = 0 then EINTR else if k = 2 then E0 else EAGAIN, Suc k)"
  have a: "at_try ?w j k = j + k" for j k
  proof (induction k arbitrary: j)
    case (Suc k)
    then show ?case by simp
  qed simp
  then have t: "try_result ?w 0 k = (if k = 0 then EINTR else if k = 2 then E0 else EAGAIN)" for k by (simp add: try_result_def)
  have least: "(LEAST n. try_result ?w 0 n = E0) = 2"
    by (rule Least_equality) (simp_all add: t split: if_splits)
  have log: "tries_log ?w 0 2 = [(''sem_wait'', EAGAIN)]" by (simp add: tries_log_def t upt_rec)
  have "\<exists>n. try_result ?w 0 n = E0" using t [of 2] by (intro exI [of _ 2]) simp
  then have "sema_down ?w (0, []) = Some (at_try ?w 0 (2 + 1), [] @ tries_log ?w 0 2)"
    unfolding sema_down_returns [of ?w 0 "[]"] least by (simp only: if_True Let_def)
  then show "sema_down ?w (0, []) = Some (3, [(''sem_wait'', EAGAIN)])"
    unfolding log a by simp
next
  have "try_result (\<lambda>k :: nat. (EPERM, k)) 0 n \<noteq> E0" for n by (induction n) simp_all
  then show "sema_down (\<lambda>k :: nat. (EPERM, k)) (0, []) = None"
    using sema_down_returns [of "\<lambda>k :: nat. (EPERM, k)" 0 "[]"] by simp
qed

end
