(* ===== verification/Map_Races.thy ===== *)
theory Map_Races
  imports Locks "HOL-Library.AList"
begin

text \<open>
  \<open>FindWork_prealloc.hpp\<close> once more, with threads: each access of the operations to the map is a step of its own, and so are the calls
  of the read-write lock around them. A call of the lock may fail, which \<open>Locks.cpp\<close> logs and the operation does not notice. What the
  lock keeps apart and what it does not follows from the steps.
\<close>

section \<open>The lock\<close>

text \<open>The threads that hold it. A writer must be alone; a reader may meet other readers.\<close>

record rwlock =
  readers :: "nat list"
  writer :: "nat option"

datatype lock_kind = Rd | Wr

definition can_take :: "lock_kind \<Rightarrow> rwlock \<Rightarrow> bool" where
  "can_take k l \<longleftrightarrow> writer l = None \<and> (k = Wr \<longrightarrow> readers l = [])"

definition take_lock :: "nat \<Rightarrow> lock_kind \<Rightarrow> rwlock \<Rightarrow> rwlock" where
  "take_lock t k l = (if k = Rd then l\<lparr>readers := t # readers l\<rparr> else l\<lparr>writer := Some t\<rparr>)"

definition lock_call :: "lock_kind \<Rightarrow> string" where
  "lock_call k = (case k of Rd \<Rightarrow> ''pthread_rwlock_rdlock'' | Wr \<Rightarrow> ''pthread_rwlock_wrlock'')"

definition drop_lock :: "nat \<Rightarrow> rwlock \<Rightarrow> rwlock" where
  "drop_lock t l = (if writer l = Some t then l\<lparr>writer := None\<rparr> else l\<lparr>readers := remove1 t (readers l)\<rparr>)"

section \<open>The operations, step by step\<close>

text \<open>
  Where a thread is. \<open>F\<close> is \<open>operator()\<close>, with the descriptor and the address \<open>new\<close> will give; \<open>A\<close> is \<open>register_alien\<close>, with the
  work; \<open>U\<close> is \<open>unregister\<close>; \<open>C\<close> is \<open>clear\<close>, with the works still to be deleted.
\<close>

datatype place =
    Idle
  | F_lock fd nat | F_find fd nat | F_hit fd | F_deref fd | F_insert fd nat | F_unlock
  | A_lock fd nat | A_find fd nat | A_insert fd nat | A_unlock
  | U_erase fd
  | C_lock | C_collect | C_delete "(fd \<times> nat) list" | C_clear | C_unlock

text \<open>The calls of the lock, with the place after them.\<close>

fun locking :: "place \<Rightarrow> (lock_kind \<times> place) option" where
  "locking (F_lock d a) = Some (Rd, F_find d a)"
| "locking (A_lock d a) = Some (Rd, A_find d a)"
| "locking C_lock = Some (Wr, C_collect)"
| "locking _ = None"

fun unlocking :: "place \<Rightarrow> place option" where
  "unlocking (F_hit d) = Some (F_deref d)"
| "unlocking F_unlock = Some Idle"
| "unlocking A_unlock = Some Idle"
| "unlocking C_unlock = Some Idle"
| "unlocking _ = None"

text \<open>The accesses to the map. \<open>delete\<close> of a work erases its entry.\<close>

type_synonym wmap_t = "(fd \<times> nat) list"

definition erase :: "fd \<Rightarrow> wmap_t \<Rightarrow> wmap_t" where
  "erase d m = filter (\<lambda>(d', a). d' \<noteq> d) m"

fun access_step :: "place \<Rightarrow> wmap_t \<Rightarrow> (place \<times> wmap_t) option" where
  "access_step (F_find d a) m = Some (if map_of m d = None then F_insert d a else F_hit d, m)"
| "access_step (F_deref d) m = Some (Idle, m)"
| "access_step (F_insert d a) m = Some (F_unlock, AList.update d a m)"
| "access_step (A_find d a) m = Some (if map_of m d = None then A_insert d a else A_unlock, m)"
| "access_step (A_insert d a) m = Some (A_unlock, AList.update d a m)"
| "access_step (U_erase d) m = Some (Idle, erase d m)"
| "access_step C_collect m = Some (C_delete m, m)"
| "access_step (C_delete []) m = Some (C_clear, m)"
| "access_step (C_delete ((d, a) # ws)) m = Some (C_delete ws, erase d m)"
| "access_step C_clear m = Some (C_unlock, [])"
| "access_step _ m = None"

definition starts :: "place \<Rightarrow> bool" where
  "starts p \<longleftrightarrow> (case p of F_lock _ _ \<Rightarrow> True | A_lock _ _ \<Rightarrow> True | U_erase _ \<Rightarrow> True | C_lock \<Rightarrow> True | _ \<Rightarrow> False)"

record mstate =
  rwl :: rwlock
  mmap :: wmap_t
  mlog :: errlog
  places :: "place list"

definition moved :: "nat \<Rightarrow> place \<Rightarrow> mstate \<Rightarrow> mstate" where
  "moved t p s = s\<lparr>places := (places s)[t := p]\<rparr>"

text \<open>\<open>pthread_rwlock_rdlock\<close> fails with \<open>EAGAIN\<close> when there are too many readers; other errors are \<open>e\<close> as well. A lock that is not
  free is waited for: there is no step.\<close>

inductive mstep :: "mstate \<Rightarrow> mstate \<Rightarrow> bool" where
  start: "t < length (places s) \<Longrightarrow> places s ! t = Idle \<Longrightarrow> starts p \<Longrightarrow> mstep s (moved t p s)"
| lock: "t < length (places s) \<Longrightarrow> locking (places s ! t) = Some (k, p) \<Longrightarrow> can_take k (rwl s) \<Longrightarrow>
    mstep s (moved t p (s\<lparr>rwl := take_lock t k (rwl s)\<rparr>))"
| lock_fails: "t < length (places s) \<Longrightarrow> locking (places s ! t) = Some (k, p) \<Longrightarrow> e \<noteq> E0 \<Longrightarrow>
    mstep s (moved t p (s\<lparr>mlog := note_error (lock_call k) e (mlog s)\<rparr>))"
| unlock: "t < length (places s) \<Longrightarrow> unlocking (places s ! t) = Some p \<Longrightarrow>
    mstep s (moved t p (s\<lparr>rwl := drop_lock t (rwl s)\<rparr>))"
| access: "t < length (places s) \<Longrightarrow> access_step (places s ! t) (mmap s) = Some (p, m) \<Longrightarrow>
    mstep s (moved t p (s\<lparr>mmap := m\<rparr>))"

inductive mreach :: "nat \<Rightarrow> mstate \<Rightarrow> bool" for n where
  init: "mreach n \<lparr>rwl = \<lparr>readers = [], writer = None\<rparr>, mmap = m, mlog = [], places = replicate n Idle\<rparr>"
| step: "mreach n s \<Longrightarrow> mstep s s' \<Longrightarrow> mreach n s'"

inductive_cases mstepE: "mstep s s'"

section \<open>What the lock keeps apart\<close>

text \<open>Between taking the lock and giving it back.\<close>

fun section_of :: "place \<Rightarrow> lock_kind option" where
  "section_of (F_find d a) = Some Rd"
| "section_of (F_hit d) = Some Rd"
| "section_of (F_insert d a) = Some Rd"
| "section_of F_unlock = Some Rd"
| "section_of (A_find d a) = Some Rd"
| "section_of (A_insert d a) = Some Rd"
| "section_of A_unlock = Some Rd"
| "section_of C_collect = Some Wr"
| "section_of (C_delete ws) = Some Wr"
| "section_of C_clear = Some Wr"
| "section_of C_unlock = Some Wr"
| "section_of _ = None"

text \<open>The lock knows who is in a section, as long as no call has failed.\<close>

definition lock_inv :: "mstate \<Rightarrow> bool" where
  "lock_inv s \<longleftrightarrow> distinct (readers (rwl s)) \<and> (writer (rwl s) \<noteq> None \<longrightarrow> readers (rwl s) = []) \<and>
     (\<forall>t. t \<in> set (readers (rwl s)) \<longleftrightarrow> t < length (places s) \<and> section_of (places s ! t) = Some Rd) \<and>
     (\<forall>t. writer (rwl s) = Some t \<longleftrightarrow> t < length (places s) \<and> section_of (places s ! t) = Some Wr)"

lemma section_locking: "locking p = Some (k, q) \<Longrightarrow> section_of p = None \<and> section_of q = Some k"
  by (cases p rule: locking.cases) auto

lemma section_unlocking: "unlocking p = Some q \<Longrightarrow> section_of p \<noteq> None \<and> section_of q = None"
  by (cases p rule: unlocking.cases) auto

lemma section_access: "access_step p m = Some (q, m') \<Longrightarrow> section_of q = section_of p"
  by (cases "(p, m)" rule: access_step.cases) (auto split: if_splits)

lemma section_starts: "starts p \<Longrightarrow> section_of p = None"
  by (cases p) (auto simp: starts_def)

lemma lock_inv_same:
  assumes "lock_inv s" and "t < length (places s)" and "section_of p = section_of (places s ! t)"
    and "rwl s' = rwl s" and "places s' = (places s)[t := p]"
  shows "lock_inv s'"
proof -
  have sec: "section_of (places s' ! u) = section_of (places s ! u)" if "u < length (places s)" for u
    using assms that by (cases "u = t") simp_all
  have "length (places s') = length (places s)" using assms(5) by simp
  then show ?thesis using assms(1) sec unfolding lock_inv_def assms(4) by metis
qed

lemma mstep_log: "mstep s s' \<Longrightarrow> mlog s' = [] \<Longrightarrow> mlog s = []"
  by (erule mstepE) (auto simp: moved_def note_error_def)

lemma lock_invD:
  assumes "lock_inv s"
  shows "distinct (readers (rwl s))" "writer (rwl s) \<noteq> None \<Longrightarrow> readers (rwl s) = []"
    "u \<in> set (readers (rwl s)) \<longleftrightarrow> u < length (places s) \<and> section_of (places s ! u) = Some Rd"
    "writer (rwl s) = Some u \<longleftrightarrow> u < length (places s) \<and> section_of (places s ! u) = Some Wr"
  using assms unfolding lock_inv_def by blast+

lemma lock_invI:
  assumes "distinct (readers l)" and "writer l \<noteq> None \<Longrightarrow> readers l = []" and "rwl s = l"
    and "\<And>u. u \<in> set (readers l) \<longleftrightarrow> u < length (places s) \<and> section_of (places s ! u) = Some Rd"
    and "\<And>u. writer l = Some u \<longleftrightarrow> u < length (places s) \<and> section_of (places s ! u) = Some Wr"
  shows "lock_inv s"
  using assms unfolding lock_inv_def by simp

lemma section_moved:
  assumes "t < length ps"
  shows "section_of (ps[t := p] ! u) = (if u = t then section_of p else section_of (ps ! u))"
  using assms by simp

lemma lock_inv_lock:
  assumes inv: "lock_inv s" and t: "t < length (places s)" and sec: "section_of (places s ! t) = None" "section_of p = Some k"
    and can: "can_take k (rwl s)" and s': "places s' = (places s)[t := p]" "rwl s' = take_lock t k (rwl s)"
  shows "lock_inv s'"
proof -
  note R = lock_invD(3) [OF inv] and W = lock_invD(4) [OF inv]
  have free: "writer (rwl s) = None" "k = Wr \<longrightarrow> readers (rwl s) = []" using can by (simp_all add: can_take_def)
  have out: "t \<notin> set (readers (rwl s))" using R [of t] sec(1) by simp
  have noW: "\<not> (u < length (places s) \<and> section_of (places s ! u) = Some Wr)" for u using W [of u] free(1) by simp
  show ?thesis
  proof (rule lock_invI [OF _ _ s'(2)])
    show "distinct (readers (take_lock t k (rwl s)))" using lock_invD(1) [OF inv] out by (simp add: take_lock_def)
    show "readers (take_lock t k (rwl s)) = []" if "writer (take_lock t k (rwl s)) \<noteq> None"
      using that free by (cases k) (simp_all add: take_lock_def)
    fix u
    show "u \<in> set (readers (take_lock t k (rwl s))) \<longleftrightarrow> u < length (places s') \<and> section_of (places s' ! u) = Some Rd"
      using R [of u] t sec free(2) unfolding s'(1) section_moved [OF t] by (cases k) (auto simp: take_lock_def)
    show "writer (take_lock t k (rwl s)) = Some u \<longleftrightarrow> u < length (places s') \<and> section_of (places s' ! u) = Some Wr"
      using noW [of u] t sec free(1) unfolding s'(1) section_moved [OF t] by (cases k) (auto simp: take_lock_def)
  qed
qed

lemma lock_inv_unlock:
  assumes inv: "lock_inv s" and t: "t < length (places s)" and sec: "section_of (places s ! t) = Some k" "section_of p = None"
    and s': "places s' = (places s)[t := p]" "rwl s' = drop_lock t (rwl s)"
  shows "lock_inv s'"
proof -
  note R = lock_invD(3) [OF inv] and W = lock_invD(4) [OF inv]
  have here: "k = Wr \<longleftrightarrow> writer (rwl s) = Some t" using W [of t] t sec(1) by simp
  have alone: "k = Rd \<Longrightarrow> writer (rwl s) = None" using R [of t] t sec(1) lock_invD(2) [OF inv] by (cases "writer (rwl s)") auto
  have rd: "k = Rd \<longleftrightarrow> t \<in> set (readers (rwl s))" using R [of t] t sec(1) by simp
  have empty: "k = Wr \<Longrightarrow> readers (rwl s) = []" using here lock_invD(2) [OF inv] by simp
  show ?thesis
  proof (rule lock_invI [OF _ _ s'(2)])
    show "distinct (readers (drop_lock t (rwl s)))" using lock_invD(1) [OF inv] by (simp add: drop_lock_def)
    show "readers (drop_lock t (rwl s)) = []" if "writer (drop_lock t (rwl s)) \<noteq> None"
      using that alone here empty by (cases k) (auto simp: drop_lock_def)
    fix u
    show "u \<in> set (readers (drop_lock t (rwl s))) \<longleftrightarrow> u < length (places s') \<and> section_of (places s' ! u) = Some Rd"
      using R [of u] t sec lock_invD(1) [OF inv] here empty unfolding s'(1) section_moved [OF t]
      by (cases k; cases "u = t") (simp_all add: drop_lock_def)
    show "writer (drop_lock t (rwl s)) = Some u \<longleftrightarrow> u < length (places s') \<and> section_of (places s' ! u) = Some Wr"
      using W [of u] t sec here alone unfolding s'(1) section_moved [OF t]
      by (cases k; cases "u = t") (simp_all add: drop_lock_def)
  qed
qed

lemma mstep_inv:
  assumes "mstep s s'" and "lock_inv s" and "mlog s' = []"
  shows "lock_inv s'"
  using assms(1)
proof cases
  case (start t p)
  then show ?thesis using section_starts [OF start(4)] by (intro lock_inv_same [OF assms(2), of t p]) (simp_all add: moved_def)
next
  case (access t p m)
  then show ?thesis using section_access [OF access(3)] by (intro lock_inv_same [OF assms(2), of t p]) (simp_all add: moved_def)
next
  case (lock_fails t k p e)
  then show ?thesis using assms(3) by (simp add: moved_def note_error_def)
next
  case (lock t k p)
  show ?thesis
    by (rule lock_inv_lock [OF assms(2) lock(2) _ _ lock(4)]) (use section_locking [OF lock(3)] lock(1) in \<open>simp_all add: moved_def\<close>)
next
  case (unlock t p)
  obtain k where "section_of (places s ! t) = Some k" "section_of p = None" using section_unlocking [OF unlock(3)] by blast
  then show ?thesis by (rule lock_inv_unlock [OF assms(2) unlock(2)]) (use unlock(1) in \<open>simp_all add: moved_def\<close>)
qed

lemma mreach_inv: "mreach n s \<Longrightarrow> mlog s = [] \<Longrightarrow> lock_inv s"
proof (induction rule: mreach.induct)
  case (init m)
  then show ?case by (simp add: lock_inv_def nth_replicate cong: conj_cong)
next
  case (step s s')
  then show ?case using mstep_log [OF step(2)] mstep_inv [OF step(2)] by blast
qed

section \<open>Races\<close>

text \<open>Reading the map, or writing to it. A thread at \<open>F_deref\<close> reads the entry its iterator points to.\<close>

datatype access_kind = Reads | Writes

fun accesses :: "place \<Rightarrow> access_kind option" where
  "accesses (F_find d a) = Some Reads"
| "accesses (F_deref d) = Some Reads"
| "accesses (F_insert d a) = Some Writes"
| "accesses (A_find d a) = Some Reads"
| "accesses (A_insert d a) = Some Writes"
| "accesses (U_erase d) = Some Writes"
| "accesses C_collect = Some Reads"
| "accesses (C_delete (w # ws)) = Some Writes"
| "accesses C_clear = Some Writes"
| "accesses _ = None"

definition races :: "place \<Rightarrow> place \<Rightarrow> bool" where
  "races p q \<longleftrightarrow> accesses p \<noteq> None \<and> accesses q \<noteq> None \<and> (accesses p = Some Writes \<or> accesses q = Some Writes)"

definition unlocked :: "place \<Rightarrow> bool" where
  "unlocked p \<longleftrightarrow> (case p of F_deref _ \<Rightarrow> True | U_erase _ \<Rightarrow> True | _ \<Rightarrow> False)"

lemma unlocked_access: "accesses p \<noteq> None \<Longrightarrow> section_of p = None \<longleftrightarrow> unlocked p"
  by (cases p rule: accesses.cases) (auto simp: unlocked_def)

text \<open>C31. What the lock of the map is good for. As long as none of its calls fails, a thread that clears the map is the only one between
  taking the lock and giving it back; so two threads of which one writes to the map at the same time are either both readers by
  the lock, one of which inserts, or one of them is outside the lock: erasing an entry, or reading the one it found.\<close>

theorem clear_alone:
  assumes "mreach n s" and "mlog s = []" and "t < n" and "u < n" and "t \<noteq> u"
  shows "(section_of (places s ! t) = Some Wr \<longrightarrow> section_of (places s ! u) = None) \<and>
    (races (places s ! t) (places s ! u) \<longrightarrow>
       unlocked (places s ! t) \<or> unlocked (places s ! u) \<or>
       section_of (places s ! t) = Some Rd \<and> section_of (places s ! u) = Some Rd)"
proof -
  have inv: "lock_inv s" using mreach_inv assms(1,2) by blast
  have len: "length (places s) = n"
    using assms(1)
  proof (induction rule: mreach.induct)
    case (step s s')
    then show ?case by (auto elim!: mstepE simp: moved_def)
  qed simp
  have alone: "section_of (places s ! b) = None" if "section_of (places s ! a) = Some Wr" "a < n" "b < n" "a \<noteq> b" for a b
  proof (rule ccontr)
    assume "section_of (places s ! b) \<noteq> None"
    then obtain k where k: "section_of (places s ! b) = Some k" by blast
    have w: "writer (rwl s) = Some a" "readers (rwl s) = []" using inv that len unfolding lock_inv_def by auto
    show False
      using inv k that(3,4) len w unfolding lock_inv_def by (cases k) auto
  qed
  moreover have "section_of (places s ! t) = Some Rd \<and> section_of (places s ! u) = Some Rd"
    if r: "races (places s ! t) (places s ! u)" "\<not> unlocked (places s ! t)" "\<not> unlocked (places s ! u)"
  proof -
    obtain k l where kl: "section_of (places s ! t) = Some k" "section_of (places s ! u) = Some l"
      using r unlocked_access unfolding races_def by (metis option.exhaust)
    then show ?thesis using alone [of t u] alone [of u t] assms(3-5) by (cases k; cases l) auto
  qed
  ultimately show ?thesis using assms(3-5) by blast
qed

text \<open>A schedule, executed: which thread moves, and whether it starts an operation, goes on, or its call of the lock fails.\<close>

datatype sched_act = Start place | Go | Fail errno

definition act_step :: "nat \<times> sched_act \<Rightarrow> mstate \<Rightarrow> mstate option" where
  "act_step x s =
     (case x of (t, a) \<Rightarrow>
        if \<not> t < length (places s) then None
        else case a of
          Start p \<Rightarrow> if places s ! t = Idle \<and> starts p then Some (moved t p s) else None
        | Fail e \<Rightarrow>
            (case locking (places s ! t) of
               Some (k, p) \<Rightarrow>
                 if e \<noteq> E0
                 then Some (moved t p (s\<lparr>mlog := note_error (lock_call k) e (mlog s)\<rparr>))
                 else None
             | None \<Rightarrow> None)
        | Go \<Rightarrow>
            (case locking (places s ! t) of
               Some (k, p) \<Rightarrow> if can_take k (rwl s) then Some (moved t p (s\<lparr>rwl := take_lock t k (rwl s)\<rparr>)) else None
             | None \<Rightarrow>
                 (case unlocking (places s ! t) of
                    Some p \<Rightarrow> Some (moved t p (s\<lparr>rwl := drop_lock t (rwl s)\<rparr>))
                  | None \<Rightarrow>
                      (case access_step (places s ! t) (mmap s) of
                         Some (p, m) \<Rightarrow> Some (moved t p (s\<lparr>mmap := m\<rparr>))
                       | None \<Rightarrow> None))))"

fun act_run :: "(nat \<times> sched_act) list \<Rightarrow> mstate \<Rightarrow> mstate option" where
  "act_run [] s = Some s"
| "act_run (x # xs) s = (case act_step x s of None \<Rightarrow> None | Some s' \<Rightarrow> act_run xs s')"

lemma act_step_mstep: "act_step x s = Some s' \<Longrightarrow> mstep s s'"
  by (auto simp: act_step_def split: prod.splits sched_act.splits if_splits option.splits intro: mstep.intros)

lemma act_run_mreach: "mreach n s \<Longrightarrow> act_run xs s = Some s' \<Longrightarrow> mreach n s'"
  by (induction xs arbitrary: s) (auto split: option.splits dest: act_step_mstep intro: mreach.step)

definition mstart :: "nat \<Rightarrow> wmap_t \<Rightarrow> mstate" where
  "mstart n m = \<lparr>rwl = \<lparr>readers = [], writer = None\<rparr>, mmap = m, mlog = [], places = replicate n Idle\<rparr>"

lemma mstart_run: "act_run xs (mstart n m) = Some s \<Longrightarrow> mreach n s"
  using act_run_mreach [OF mreach.init] by (simp add: mstart_def)

theorem clear_alone_witness:
  "\<exists>s. mreach 2 s \<and> section_of (places s ! 0) = Some Wr \<and> section_of (places s ! 1) = None"
proof -
  obtain s where s: "act_run [(0, Start C_lock), (1, Start (F_lock 5 7)), (0, Go)] (mstart 2 [(5, 3)]) = Some s"
    "places s = [C_collect, F_lock 5 7]" "mlog s = []"
    by (simp add: act_step_def mstart_def starts_def can_take_def take_lock_def moved_def eval_nat_numeral)
  then show ?thesis using clear_alone [OF mstart_run [OF s(1)] s(3), of 0 1] mstart_run [OF s(1)] by auto
qed

text \<open>The races the lock leaves, each of them reached without any failure: two threads insert at the same time, \<open>operator()\<close> and
  \<open>register_alien\<close> holding the lock for reading only; an entry is erased, under no lock, while another thread looks for its
  own; and an entry found is erased before it is read, the lock having been given back in between. If a call of the lock fails, the
  operation goes on without it and may look into a map that is being cleared.\<close>

theorem map_races:
  "(\<exists>s. mreach 2 s \<and> mlog s = [] \<and> places s = [F_insert 5 7, A_insert 6 8]) \<and>
   (\<exists>s. mreach 2 s \<and> mlog s = [] \<and> places s = [F_find 5 7, U_erase 6]) \<and>
   (\<exists>s. mreach 2 s \<and> mlog s = [] \<and> places s = [F_deref 5, Idle] \<and> mmap s = []) \<and>
   (\<exists>s. mreach 2 s \<and> mlog s = [(''pthread_rwlock_rdlock'', EAGAIN)] \<and> places s = [C_delete [(5, 3)], F_find 5 7])"
proof (intro conjI)
  note run = act_step_def mstart_def starts_def can_take_def take_lock_def drop_lock_def moved_def erase_def note_error_def lock_call_def eval_nat_numeral
  obtain s where "act_run [(0, Start (F_lock 5 7)), (1, Start (A_lock 6 8)), (0, Go), (1, Go), (0, Go), (1, Go)] (mstart 2 []) = Some s"
    "mlog s = []" "places s = [F_insert 5 7, A_insert 6 8]" by (simp add: run)
  then show "\<exists>s. mreach 2 s \<and> mlog s = [] \<and> places s = [F_insert 5 7, A_insert 6 8]" using mstart_run by blast
  obtain s where "act_run [(0, Start (F_lock 5 7)), (0, Go), (1, Start (U_erase 6))] (mstart 2 [(6, 3)]) = Some s"
    "mlog s = []" "places s = [F_find 5 7, U_erase 6]" by (simp add: run)
  then show "\<exists>s. mreach 2 s \<and> mlog s = [] \<and> places s = [F_find 5 7, U_erase 6]" using mstart_run by blast
  obtain s where "act_run [(0, Start (F_lock 5 7)), (0, Go), (0, Go), (0, Go), (1, Start (U_erase 5)), (1, Go)] (mstart 2 [(5, 3)]) = Some s"
    "mlog s = []" "places s = [F_deref 5, Idle]" "mmap s = []" by (simp add: run)
  then show "\<exists>s. mreach 2 s \<and> mlog s = [] \<and> places s = [F_deref 5, Idle] \<and> mmap s = []" using mstart_run by blast
  obtain s where "act_run [(0, Start C_lock), (0, Go), (0, Go), (1, Start (F_lock 5 7)), (1, Fail EAGAIN)] (mstart 2 [(5, 3)]) = Some s"
    "mlog s = [(''pthread_rwlock_rdlock'', EAGAIN)]" "places s = [C_delete [(5, 3)], F_find 5 7]" by (simp add: run)
  then show "\<exists>s. mreach 2 s \<and> mlog s = [(''pthread_rwlock_rdlock'', EAGAIN)] \<and> places s = [C_delete [(5, 3)], F_find 5 7]"
    using mstart_run by blast
qed

end
