(* ===== verification/HTTP_shell.thy ===== *)
theory HTTP_shell
  imports Prelude
begin

text \<open>
  \<open>HTTP_shell.cpp\<close>: the program that starts the server again whenever it ends. Its processes are the entries of a list, in the order
  they are forked; a process that ran \<open>execve\<close> with success is the server, and one for which it failed is the shell again.
\<close>

section \<open>The processes\<close>

datatype stage = Looping | Waits | Sleeps | Forked | Serving | Exited | Reaped

text \<open>A process and its parent; the first one was not forked here.\<close>

type_synonym sproc = "stage \<times> nat option"

definition shell_start :: "sproc list" where
  "shell_start = [(Looping, None)]"

text \<open>The children \<open>wait\<close> knows of.\<close>

definition has_child :: "nat \<Rightarrow> sproc list \<Rightarrow> bool" where
  "has_child i ps \<longleftrightarrow> list_ex (\<lambda>(g, p). p = Some i \<and> g \<noteq> Reaped) ps"

text \<open>
  The loop. A \<open>fork\<close> that fails returns \<open>-1\<close>, which is taken for the parent's result; \<open>wait\<close> fails at once when there are no
  children. \<open>E\<close> are the results \<open>execve\<close> may have. A server may end at any time.
\<close>

inductive shell_step :: "bool set \<Rightarrow> sproc list \<Rightarrow> sproc list \<Rightarrow> bool" for E where
  fork: "i < length ps \<Longrightarrow> ps ! i = (Looping, p) \<Longrightarrow> shell_step E ps (ps[i := (Waits, p)] @ [(Forked, Some i)])"
| fork_fails: "i < length ps \<Longrightarrow> ps ! i = (Looping, p) \<Longrightarrow> shell_step E ps (ps[i := (Waits, p)])"
| execve: "True \<in> E \<Longrightarrow> i < length ps \<Longrightarrow> ps ! i = (Forked, p) \<Longrightarrow> shell_step E ps (ps[i := (Serving, p)])"
| execve_fails: "False \<in> E \<Longrightarrow> i < length ps \<Longrightarrow> ps ! i = (Forked, p) \<Longrightarrow> shell_step E ps (ps[i := (Looping, p)])"
| exits: "i < length ps \<Longrightarrow> ps ! i = (Serving, p) \<Longrightarrow> shell_step E ps (ps[i := (Exited, p)])"
| wait_child: "i < length ps \<Longrightarrow> ps ! i = (Waits, p) \<Longrightarrow> j < length ps \<Longrightarrow> ps ! j = (Exited, Some i) \<Longrightarrow>
    shell_step E ps (ps[j := (Reaped, Some i), i := (Sleeps, p)])"
| wait_none: "i < length ps \<Longrightarrow> ps ! i = (Waits, p) \<Longrightarrow> \<not> has_child i ps \<Longrightarrow> shell_step E ps (ps[i := (Sleeps, p)])"
| sleep: "i < length ps \<Longrightarrow> ps ! i = (Sleeps, p) \<Longrightarrow> shell_step E ps (ps[i := (Looping, p)])"

inductive shell_reach :: "bool set \<Rightarrow> sproc list \<Rightarrow> bool" for E where
  start: "shell_reach E shell_start"
| step: "shell_reach E ps \<Longrightarrow> shell_step E ps ps' \<Longrightarrow> shell_reach E ps'"

section \<open>While the server can be started\<close>

definition is_shell :: "stage \<Rightarrow> bool" where
  "is_shell g \<longleftrightarrow> g = Looping \<or> g = Waits \<or> g = Sleeps"

text \<open>One shell, whose children have all been reaped but for the one it waits for.\<close>

definition one_child :: "sproc list \<Rightarrow> bool" where
  "one_child ps \<longleftrightarrow>
     (\<exists>g rest. ps = (g, None) # rest \<and> is_shell g \<and>
       (\<forall>x \<in> set rest. \<exists>g'. x = (g', Some 0) \<and> \<not> is_shell g') \<and>
       (let alive = filter (\<lambda>(g, p). g \<noteq> Reaped) rest in length alive \<le> 1 \<and> (g \<noteq> Waits \<longrightarrow> alive = [])))"

lemma one_childI:
  assumes "ps = (g, None) # rest" and "is_shell g" and "\<forall>x \<in> set rest. \<exists>g'. x = (g', Some 0) \<and> \<not> is_shell g'"
    and "length (filter (\<lambda>(g, p). g \<noteq> Reaped) rest) \<le> 1" and "g \<noteq> Waits \<Longrightarrow> filter (\<lambda>(g, p). g \<noteq> Reaped) rest = []"
  shows "one_child ps"
  using assms unfolding one_child_def Let_def by blast

lemma filter_update:
  "k < length xs \<Longrightarrow> P y \<longleftrightarrow> P (xs ! k) \<Longrightarrow> length (filter P (xs[k := y])) = length (filter P xs)"
proof (induction xs arbitrary: k)
  case (Cons x xs)
  then show ?case by (cases k) auto
qed simp

lemma filter_update_less:
  "k < length xs \<Longrightarrow> P (xs ! k) \<Longrightarrow> \<not> P y \<Longrightarrow> Suc (length (filter P (xs[k := y]))) = length (filter P xs)"
proof (induction xs arbitrary: k)
  case (Cons x xs)
  then show ?case by (cases k) auto
qed simp

lemma shell_one_child:
  assumes "one_child ps" and "shell_step {True} ps ps'"
  shows "one_child ps'"
proof -
  let ?live = "\<lambda>(g, p). g \<noteq> Reaped" and ?kid = "\<lambda>x. \<exists>g'. x = (g', Some 0) \<and> \<not> is_shell g'"
  obtain g rest where ps: "ps = (g, None) # rest" "is_shell g" "\<forall>x \<in> set rest. ?kid x"
    "length (filter ?live rest) \<le> 1" "g \<noteq> Waits \<Longrightarrow> filter ?live rest = []"
    using assms(1) unfolding one_child_def Let_def by blast
  have child: "\<exists>k. i = Suc k \<and> k < length rest \<and> rest ! k = (h, q) \<and> q = Some 0 \<and> filter ?live rest \<noteq> [] \<and> g = Waits"
    if c: "i < length ps" "ps ! i = (h, q)" "\<not> is_shell h" "h \<noteq> Reaped" for i h q
  proof -
    have "i \<noteq> 0" using c(2,3) ps(1,2) by (cases i) auto
    then obtain k where k: "i = Suc k" "k < length rest" "rest ! k = (h, q)" using c(1,2) ps(1) by (cases i) auto
    then have "(h, q) \<in> set rest" by (metis nth_mem)
    then have "q = Some 0" "filter ?live rest \<noteq> []" using ps(3) c(4) by (auto simp: filter_empty_conv)
    then show ?thesis using k ps(5) by blast
  qed
  have shell: "i = 0 \<and> h = g \<and> q = None" if "i < length ps" "ps ! i = (h, q)" "is_shell h" for i h q
  proof (cases i)
    case (Suc k)
    then have "(h, q) \<in> set rest" using that(1,2) ps(1) by (metis Suc_less_eq length_Cons nth_Cons_Suc nth_mem)
    then show ?thesis using ps(3) that(3) by auto
  qed (use that(2) ps(1) in simp)
  have renew: "one_child ((g, None) # rest[k := (h', Some 0)])"
    if "k < length rest" "rest ! k = (h, Some 0)" "h \<noteq> Reaped" "h' \<noteq> Reaped" "\<not> is_shell h'" "g = Waits" for k h h'
  proof (rule one_childI [OF refl ps(2)])
    show "\<forall>x \<in> set (rest[k := (h', Some 0)]). ?kid x" using ps(3) that(5) set_update_subset_insert by fastforce
    show "length (filter ?live (rest[k := (h', Some 0)])) \<le> 1" using filter_update [OF that(1), of ?live "(h', Some 0)"] that(2-4) ps(4) by simp
  qed (use that(6) in simp)
  show ?thesis
    using assms(2)
  proof cases
    case (fork i p)
    have s: "i = 0" "g = Looping" "p = None" using shell [OF fork(2,3)] by (simp_all add: is_shell_def)
    have "ps' = (Waits, None) # rest @ [(Forked, Some 0)]" using fork(1) s ps(1) by simp
    then show ?thesis
      by (rule one_childI) (use ps s in \<open>simp_all add: is_shell_def\<close>)
  next
    case (fork_fails i p)
    have s: "i = 0" "g = Looping" "p = None" using shell [OF fork_fails(2,3)] by (simp_all add: is_shell_def)
    have "ps' = (Waits, None) # rest" using fork_fails(1) s ps(1) by simp
    then show ?thesis by (rule one_childI) (use ps s in \<open>simp_all add: is_shell_def\<close>)
  next
    case (execve i p)
    obtain k where k: "i = Suc k" "k < length rest" "rest ! k = (Forked, p)" "p = Some 0" "g = Waits"
      using child [OF execve(3,4)] by (auto simp: is_shell_def)
    then show ?thesis using renew [of k Forked Serving] execve(1) ps(1) by (simp add: is_shell_def)
  next
    case (exits i p)
    obtain k where k: "i = Suc k" "k < length rest" "rest ! k = (Serving, p)" "p = Some 0" "g = Waits"
      using child [OF exits(2,3)] by (auto simp: is_shell_def)
    then show ?thesis using renew [of k Serving Exited] exits(1) ps(1) by (simp add: is_shell_def)
  next
    case (wait_child i p j)
    have s: "i = 0" "p = None" using shell [OF wait_child(2,3)] by (simp_all add: is_shell_def)
    obtain k where k: "j = Suc k" "k < length rest" "rest ! k = (Exited, Some i)"
      using child [OF wait_child(4,5)] by (auto simp: is_shell_def)
    have e: "ps' = (Sleeps, None) # rest[k := (Reaped, Some 0)]" using wait_child(1) s k(1) ps(1) by simp
    have "Suc (length (filter ?live (rest[k := (Reaped, Some 0)]))) = length (filter ?live rest)"
      by (rule filter_update_less) (use k in simp_all)
    then have "length (filter ?live (rest[k := (Reaped, Some 0)])) = 0" using ps(4) by linarith
    then have none: "filter ?live (rest[k := (Reaped, Some 0)]) = []" by blast
    show ?thesis
    proof (rule one_childI [OF e])
      show "\<forall>x \<in> set (rest[k := (Reaped, Some 0)]). ?kid x" using ps(3) set_update_subset_insert by (fastforce simp: is_shell_def)
    qed (use none in \<open>simp_all add: is_shell_def\<close>)
  next
    case (wait_none i p)
    have s: "i = 0" "g = Waits" "p = None" using shell [OF wait_none(2,3)] by (simp_all add: is_shell_def)
    have none: "filter ?live rest = []"
    proof (rule ccontr)
      assume "filter ?live rest \<noteq> []"
      then obtain x where "x \<in> set rest" "?live x" by (auto simp: filter_empty_conv)
      then have "has_child 0 ps" using ps(1,3) by (auto simp: has_child_def list_ex_iff)
      then show False using wait_none(4) s(1) by simp
    qed
    have "ps' = (Sleeps, None) # rest" using wait_none(1) s ps(1) by simp
    then show ?thesis by (rule one_childI) (use ps none in \<open>simp_all add: is_shell_def\<close>)
  next
    case (sleep i p)
    have s: "i = 0" "g = Sleeps" "p = None" using shell [OF sleep(2,3)] by (simp_all add: is_shell_def)
    have "ps' = (Looping, None) # rest" using sleep(1) s ps(1) by simp
    then show ?thesis by (rule one_childI) (use ps s in \<open>simp_all add: is_shell_def\<close>)
  qed simp
qed

text \<open>C40. The shell runs one server at a time: as long as \<open>execve\<close> succeeds, there is never more than one process that serves or is about to,
  and while it or its remains are there the shell waits; it is the only process that forks.\<close>

theorem one_server:
  assumes "shell_reach {True} ps"
  shows "\<exists>g rest. ps = (g, None) # rest \<and> is_shell g \<and> list_all (\<lambda>(h, q). q = Some 0 \<and> \<not> is_shell h) rest \<and>
    (let alive = filter (\<lambda>(g, p). g \<noteq> Reaped) rest in length alive \<le> 1 \<and> (g \<noteq> Waits \<longrightarrow> alive = []))"
proof -
  have "one_child ps"
    using assms
  proof (induction rule: shell_reach.induct)
    case start
    show ?case by (rule one_childI [of _ Looping "[]"]) (simp_all add: shell_start_def is_shell_def)
  next
    case (step ps ps')
    then show ?case using shell_one_child by blast
  qed
  then show ?thesis unfolding one_child_def list_all_iff by fastforce
qed

theorem one_server_witness:
  "shell_reach {True} [(Waits, None), (Serving, Some 0)] \<and>
   list_all (\<lambda>(h, q). q = Some (0 :: nat) \<and> \<not> is_shell h) [(Serving, Some 0)]"
proof -
  have "shell_step {True} shell_start [(Waits, None), (Forked, Some 0)]"
    using shell_step.fork [of 0 shell_start None "{True}"] by (simp add: shell_start_def)
  moreover have "shell_step {True} [(Waits, None), (Forked, Some 0)] [(Waits, None), (Serving, Some 0)]"
    using shell_step.execve [of "{True}" 1 "[(Waits, None), (Forked, Some 0)]" "Some 0"] by simp
  ultimately have r: "shell_reach {True} [(Waits, None), (Serving, Some 0)]"
    by (meson shell_reach.start shell_reach.step)
  show ?thesis using one_server [OF r] r by simp
qed

section \<open>When it cannot\<close>

text \<open>A chain of shells, each waiting for the next.\<close>

definition chain :: "nat \<Rightarrow> sproc list" where
  "chain n = map (\<lambda>i. (Waits, if i = 0 then None else Some (i - 1))) [0..<n] @ [(Looping, if n = 0 then None else Some (n - 1))]"

lemma length_chain [simp]: "length (chain n) = n + 1"
  by (simp add: chain_def)

lemma chain_grows:
  "\<exists>ps. shell_step {False} (chain n) ps \<and> shell_step {False} ps (chain (Suc n))"
proof -
  let ?p = "if n = 0 then None else Some (n - 1)" and ?init = "map (\<lambda>i. (Waits, if i = 0 then None else Some (i - 1))) [0..<n]"
  have "chain n ! n = (Looping, ?p)" by (simp add: chain_def nth_append)
  then have a: "shell_step {False} (chain n) ((chain n)[n := (Waits, ?p)] @ [(Forked, Some n)])"
    by (intro shell_step.fork) simp_all
  have e: "(chain n)[n := (Waits, ?p)] @ [(Forked, Some n)] = ?init @ [(Waits, ?p), (Forked, Some n)]"
    by (simp add: chain_def list_update_append)
  let ?ps = "?init @ [(Waits, ?p), (Forked, Some n)]"
  have "Suc n < length ?ps" "?ps ! Suc n = (Forked, Some n)" by (simp_all add: nth_append)
  then have "shell_step {False} ?ps (?ps[Suc n := (Looping, Some n)])" by (intro shell_step.execve_fails) blast+
  moreover have "?ps[Suc n := (Looping, Some n)] = chain (Suc n)"
    by (simp add: chain_def list_update_append)
  ultimately have "shell_step {False} ?ps (chain (Suc n))" by simp
  then show ?thesis using a unfolding e by blast
qed

lemma chain_reach: "shell_reach {False} (chain n)"
proof (induction n)
  case 0
  then show ?case using shell_reach.start by (simp add: chain_def shell_start_def)
next
  case (Suc n)
  then show ?case using chain_grows [of n] shell_reach.step by blast
qed

definition all_shells :: "sproc list \<Rightarrow> bool" where
  "all_shells ps \<longleftrightarrow> list_all (\<lambda>(g, p). is_shell g \<or> g = Forked) ps"

lemma all_shells_step: "shell_step {False} ps ps' \<Longrightarrow> all_shells ps \<Longrightarrow> all_shells ps' \<and> length ps \<le> length ps'"
proof (induction rule: shell_step.induct)
  case (exits i ps p)
  then have "(Serving, p) \<in> set ps" by (metis nth_mem)
  then show ?case using exits(3) by (fastforce simp: all_shells_def list_all_iff is_shell_def)
next
  case (wait_child i ps p j)
  then have "(Exited, Some i) \<in> set ps" by (metis nth_mem)
  then show ?case using wait_child(5) by (fastforce simp: all_shells_def list_all_iff is_shell_def)
qed (auto simp: all_shells_def list_all_iff is_shell_def dest!: subsetD [OF set_update_subset_insert])

text \<open>When \<open>execve\<close> fails the child does not end: it falls back into the loop and is a shell itself, which forks in its turn while its parent
  waits for it. However large a number is chosen, that many processes can come about, and none of them ever goes away, nor is there a server
  among them.\<close>

theorem shells_multiply:
  "\<exists>ps. shell_reach {False} ps \<and> length ps = Suc n \<and> length (filter (\<lambda>(g, p). g = Waits) ps) = n \<and>
    (\<forall>ps'. (shell_step {False})\<^sup>*\<^sup>* ps ps' \<longrightarrow> Suc n \<le> length ps' \<and> all_shells ps')"
proof (intro exI [of _ "chain n"] conjI allI impI)
  show "shell_reach {False} (chain n)" by (rule chain_reach)
  show "length (chain n) = Suc n" by simp
  show "length (filter (\<lambda>(g, p). g = Waits) (chain n)) = n" by (simp add: chain_def filter_map comp_def)
  fix ps'
  assume "(shell_step {False})\<^sup>*\<^sup>* (chain n) ps'"
  then have "Suc n \<le> length ps' \<and> all_shells ps'"
  proof (induction rule: rtranclp_induct)
    case base
    then show ?case by (auto simp: all_shells_def chain_def list_all_iff is_shell_def)
  next
    case (step ps ps')
    then show ?case using all_shells_step by fastforce
  qed
  then show "Suc n \<le> length ps'" "all_shells ps'" by simp_all
qed

theorem shells_multiply_witness:
  "\<exists>ps. shell_reach {False} ps \<and> length ps = 101"
  using shells_multiply [of 100] by auto

end
